(* ===== verification/Go_Prelude.thy ===== *)
theory Go_Prelude
  imports Main "HOL-Library.Word"
begin

text \<open>
  Shared vocabulary of the development: the Go values the components exchange (bytes,
  strings, big-endian integers, instants and durations), and the generic lemmas on them.

  A Go \<open>string\<close> is a sequence of bytes, as HOL's \<open>string\<close> is, so \<open>len(s)\<close> is
  \<open>length s\<close>; a \<open>[]byte\<close> is a list of 8-bit words; \<open>[]byte(s)\<close> and \<open>string(b)\<close> are
  \<open>bytes_of\<close> and \<open>string_of\<close>. An \<open>int\<close> that only counts is an \<open>int\<close> or a \<open>nat\<close>; a width
  is kept where the code truncates to it.
\<close>

section \<open>Collections of rules\<close>

named_theorems wire_simps \<open>evaluation of the byte readers and encoders\<close>

section \<open>Lists\<close>

lemma find_SomeD: "find P xs = Some x \<Longrightarrow> x \<in> set xs \<and> P x"
  by (auto simp: find_Some_iff)

section \<open>Bytes and strings\<close>

type_synonym byte = "8 word"

definition bytes_of :: "string \<Rightarrow> byte list" where
  "bytes_of s = map (\<lambda>c. word_of_nat (of_char c)) s"

definition string_of :: "byte list \<Rightarrow> string" where
  "string_of bs = map (\<lambda>b. char_of (unat b)) bs"

lemma length_bytes_of [simp]: "length (bytes_of s) = length s"
  by (simp add: bytes_of_def)

lemma length_string_of [simp]: "length (string_of bs) = length bs"
  by (simp add: string_of_def)

lemma bytes_of_Nil [simp]: "bytes_of [] = []"
  by (simp add: bytes_of_def)

lemma string_of_Nil [simp]: "string_of [] = []"
  by (simp add: string_of_def)

lemma bytes_of_eq_Nil [simp]: "bytes_of s = [] \<longleftrightarrow> s = []"
  by (simp add: bytes_of_def)

lemma string_of_bytes_of [simp]: "string_of (bytes_of s) = s"
  by (induction s) (simp_all add: bytes_of_def string_of_def unat_of_nat char_of_mod_256)

lemma bytes_of_string_of [simp]: "bytes_of (string_of bs) = bs"
proof (induction bs)
  case (Cons b bs)
  have "unat b < 256" using unsigned_less [where w = b and 'a = nat] by simp
  with Cons show ?case by (simp add: bytes_of_def string_of_def)
qed simp

lemma bytes_of_inject [simp]: "bytes_of s = bytes_of t \<longleftrightarrow> s = t"
  by (metis string_of_bytes_of)

section \<open>Big-endian integers\<close>

text \<open>
  \<open>binary.BigEndian.AppendUint16/32\<close> and \<open>binary.BigEndian.Uint16/32\<close> of the Go standard
  library. \<open>uint16(n)\<close> of a Go \<open>int\<close> truncates, as \<open>word_of_nat\<close> does.
\<close>

unbundle bit_operations_syntax

definition put_u16 :: "16 word \<Rightarrow> byte list" where
  "put_u16 v = [ucast (drop_bit 8 v), ucast v]"

definition get_u16 :: "byte list \<Rightarrow> 16 word" where
  "get_u16 bs = ucast (bs ! 1) OR push_bit 8 (ucast (bs ! 0))"

definition put_u32 :: "32 word \<Rightarrow> byte list" where
  "put_u32 v = [ucast (drop_bit 24 v), ucast (drop_bit 16 v), ucast (drop_bit 8 v), ucast v]"

definition get_u32 :: "byte list \<Rightarrow> 32 word" where
  "get_u32 bs = ucast (bs ! 3) OR push_bit 8 (ucast (bs ! 2))
     OR push_bit 16 (ucast (bs ! 1)) OR push_bit 24 (ucast (bs ! 0))"

lemma length_put_u16 [simp]: "length (put_u16 v) = 2"
  by (simp add: put_u16_def)

lemma length_put_u32 [simp]: "length (put_u32 v) = 4"
  by (simp add: put_u32_def)

lemma get_put_u16 [simp]: "get_u16 (put_u16 v) = v"
  by (rule bit_word_eqI) (auto simp: get_u16_def put_u16_def bit_simps)

lemma get_put_u32 [simp]: "get_u32 (put_u32 v) = v"
proof (rule bit_word_eqI)
  fix n assume "n < LENGTH(32)"
  then consider "n < 8" | "8 \<le> n" "n < 16" | "16 \<le> n" "n < 24" | "24 \<le> n" "n < 32" by fastforce
  then show "bit (get_u32 (put_u32 v)) n = bit v n"
    by cases (auto simp: get_u32_def put_u32_def bit_simps)
qed

lemma put_get_u16: "length bs = 2 \<Longrightarrow> put_u16 (get_u16 bs) = bs"
proof -
  assume "length bs = 2"
  then obtain a b where bs: "bs = [a, b]"
    by (auto simp: numeral_2_eq_2 length_Suc_conv)
  have "ucast (drop_bit 8 (get_u16 bs)) = a"
    by (rule bit_word_eqI) (auto simp: bs get_u16_def bit_simps dest: bit_imp_le_length)
  moreover have "ucast (get_u16 bs) = b"
    by (rule bit_word_eqI) (auto simp: bs get_u16_def bit_simps)
  ultimately show ?thesis by (simp add: put_u16_def bs)
qed

lemma put_get_u32: "length bs = 4 \<Longrightarrow> put_u32 (get_u32 bs) = bs"
proof -
  assume "length bs = 4"
  then obtain a b c d where bs: "bs = [a, b, c, d]"
    by (auto simp: numeral_eq_Suc length_Suc_conv)
  have "ucast (drop_bit 24 (get_u32 bs)) = a"
    by (rule bit_word_eqI) (auto simp: bs get_u32_def bit_simps dest: bit_imp_le_length)
  moreover have "ucast (drop_bit 16 (get_u32 bs)) = b"
    by (rule bit_word_eqI) (auto simp: bs get_u32_def bit_simps dest: bit_imp_le_length)
  moreover have "ucast (drop_bit 8 (get_u32 bs)) = c"
    by (rule bit_word_eqI) (auto simp: bs get_u32_def bit_simps dest: bit_imp_le_length)
  moreover have "ucast (get_u32 bs) = d"
    by (rule bit_word_eqI) (auto simp: bs get_u32_def bit_simps dest: bit_imp_le_length)
  ultimately show ?thesis by (simp add: put_u32_def bs)
qed

text \<open>The length prefixes the encoders write: \<open>uint16(len(x))\<close> and \<open>uint32(len(x))\<close>.\<close>

lemma unat_len16: "unat (word_of_nat n :: 16 word) = n mod 65536"
  by (simp add: unat_of_nat)

lemma unat_len32: "unat (word_of_nat n :: 32 word) = n mod 4294967296"
  by (simp add: unat_of_nat)

lemma unat_len16_small [simp]: "n < 65536 \<Longrightarrow> unat (word_of_nat n :: 16 word) = n"
  by (simp add: unat_len16)

lemma unat_len32_small [simp]: "n < 4294967296 \<Longrightarrow> unat (word_of_nat n :: 32 word) = n"
  by (simp add: unat_len32)

lemma unat_u16_bound [simp]: "unat (v :: 16 word) < 65536"
  using unsigned_less [where w = v and 'a = nat] by simp

lemma unat_u32_bound [simp]: "unat (v :: 32 word) < 4294967296"
  using unsigned_less [where w = v and 'a = nat] by simp

section \<open>Decimal printing\<close>

text \<open>\<open>strconv.Itoa\<close> on a length (a non-negative \<open>int\<close>).\<close>

definition digit_char :: "nat \<Rightarrow> char" where
  "digit_char d = char_of (48 + d)"

fun itoa :: "nat \<Rightarrow> string" where
  "itoa n = (if n < 10 then [digit_char n] else itoa (n div 10) @ [digit_char (n mod 10)])"

declare itoa.simps [simp del]

lemma digit_char_inject: "d < 10 \<Longrightarrow> e < 10 \<Longrightarrow> digit_char d = digit_char e \<longleftrightarrow> d = e"
  by (simp add: digit_char_def char_of_quasi_inj)

lemma digit_char_not_colon: "d < 10 \<Longrightarrow> digit_char d \<noteq> CHR '':''"
proof
  assume d: "d < 10" and eq: "digit_char d = CHR '':''"
  have "(of_char (digit_char d) :: nat) = 48 + d" using d by (simp add: digit_char_def)
  with d eq show False by simp
qed

lemma colon_notin_itoa: "CHR '':'' \<notin> set (itoa n)"
proof (induction n rule: itoa.induct)
  case (1 n)
  then show ?case
    using digit_char_not_colon [of n] digit_char_not_colon [of "n mod 10"]
    by (auto simp: itoa.simps [of n])
qed

lemma itoa_not_Nil [simp]: "itoa n \<noteq> []"
  by (subst itoa.simps) simp

lemma itoa_single: "itoa n = [c] \<Longrightarrow> n < 10"
  by (subst (asm) itoa.simps) (simp split: if_splits)

lemma itoa_inject: "itoa m = itoa n \<Longrightarrow> m = n"
proof (induction m arbitrary: n rule: itoa.induct)
  case (1 m)
  show ?case
  proof (cases "m < 10")
    case True
    then have m: "itoa m = [digit_char m]" by (simp add: itoa.simps [of m])
    then have n: "n < 10" using itoa_single "1.prems" by metis
    then show ?thesis using m True "1.prems" by (simp add: itoa.simps [of n] digit_char_inject)
  next
    case False
    then have n: "\<not> n < 10" using itoa_single "1.prems" by (metis itoa.simps)
    from False n "1.prems" have "itoa (m div 10) = itoa (n div 10)"
      and "digit_char (m mod 10) = digit_char (n mod 10)"
      by (simp_all add: itoa.simps [of m] itoa.simps [of n])
    then have "m div 10 = n div 10" and "m mod 10 = n mod 10"
      using "1.IH" [OF False] by (simp_all add: digit_char_inject)
    then show ?thesis by (metis div_mult_mod_eq)
  qed
qed

text \<open>A text up to a separator is determined when neither part before it holds it.\<close>

lemma split_at_separator:
  "a @ x # b = a' @ x # b' \<Longrightarrow> x \<notin> set a \<Longrightarrow> x \<notin> set a' \<Longrightarrow> a = a' \<and> b = b'"
  by (induction a arbitrary: a') (auto simp: Cons_eq_append_conv append_eq_Cons_conv)

section \<open>Time\<close>

text \<open>
  \<open>time.Duration\<close> is a signed count of nanoseconds; \<open>time.Time\<close> is an instant on the same
  scale, or the zero value. \<open>expired now t\<close> is \<open>!t.IsZero() && now.After(t)\<close>.
\<close>

type_synonym duration = int
type_synonym instant = int
type_synonym gotime = "instant option"

abbreviation zero_time :: gotime where
  "zero_time \<equiv> None"

definition expired :: "instant \<Rightarrow> gotime \<Rightarrow> bool" where
  "expired now t = (case t of None \<Rightarrow> False | Some e \<Rightarrow> e < now)"

lemma expired_simps [simp]:
  "expired now None = False" "expired now (Some e) = (e < now)"
  by (simp_all add: expired_def)

section \<open>Runs and simulation\<close>

text \<open>
  A component is a step function on its state that may fail to return, its specification a
  total step function on an abstract state, defined for the calls that satisfy a guard.
  \<open>run\<close> executes a history of calls; a component that simulates its specification call by
  call simulates it on histories.
\<close>

fun run :: "('op \<Rightarrow> 'c \<Rightarrow> ('r \<times> 'c) option) \<Rightarrow> 'op list \<Rightarrow> 'c \<Rightarrow> ('r list \<times> 'c) option" where
  "run step [] c = Some ([], c)"
| "run step (op # ops) c =
     (case step op c of None \<Rightarrow> None
      | Some (r, c') \<Rightarrow> map_option (\<lambda>(rs, c''). (r # rs, c'')) (run step ops c'))"

fun spec_run :: "('op \<Rightarrow> 'a \<Rightarrow> 'r \<times> 'a) \<Rightarrow> 'op list \<Rightarrow> 'a \<Rightarrow> 'r list \<times> 'a" where
  "spec_run astep [] a = ([], a)"
| "spec_run astep (op # ops) a =
     (case astep op a of (r, a') \<Rightarrow> map_prod ((#) r) (\<lambda>x. x) (spec_run astep ops a'))"

fun guarded :: "('op \<Rightarrow> 'a \<Rightarrow> bool) \<Rightarrow> ('op \<Rightarrow> 'a \<Rightarrow> 'r \<times> 'a) \<Rightarrow> 'op list \<Rightarrow> 'a \<Rightarrow> bool" where
  "guarded guard astep [] a = True"
| "guarded guard astep (op # ops) a =
     (guard op a \<and> guarded guard astep ops (snd (astep op a)))"

locale simulation =
  fixes R :: "'c \<Rightarrow> 'a \<Rightarrow> bool"
    and step :: "'op \<Rightarrow> 'c \<Rightarrow> ('r \<times> 'c) option"
    and astep :: "'op \<Rightarrow> 'a \<Rightarrow> 'r \<times> 'a"
    and guard :: "'op \<Rightarrow> 'a \<Rightarrow> bool"
  assumes simulates: "R c a \<Longrightarrow> guard op a \<Longrightarrow>
      \<exists>c'. step op c = Some (fst (astep op a), c') \<and> R c' (snd (astep op a))"
begin

lemma run_simulates:
  "R c a \<Longrightarrow> guarded guard astep ops a \<Longrightarrow>
     \<exists>c'. run step ops c = Some (fst (spec_run astep ops a), c') \<and> R c' (snd (spec_run astep ops a))"
proof (induction ops arbitrary: c a)
  case (Cons op ops)
  then have "R c a" and "guard op a" by auto
  then obtain c1 where step: "step op c = Some (fst (astep op a), c1)" "R c1 (snd (astep op a))"
    using simulates by blast
  with Cons obtain c2 where
    "run step ops c1 = Some (fst (spec_run astep ops (snd (astep op a))), c2)"
    "R c2 (snd (spec_run astep ops (snd (astep op a))))" by fastforce
  with step show ?case by (simp add: case_prod_beta)
qed simp

end

end
