(* ===== verification/Frames.thy ===== *)
theory Frames
  imports Go_Prelude
begin

text \<open>
  The frame format of the QUIC streams (\<open>internal/nodosum/quic.go\<close>): encoders, the
  decoders that work on a byte slice, the readers that work on an \<open>io.Reader\<close>, and the
  round trips between them.

  An \<open>io.Reader\<close> is the list of bytes still to come and the error every further read
  returns once they are used up (\<open>io.EOF\<close> when the peer closed the stream, another error
  when the stream or its connection broke). \<open>io.ReadFull\<close> is modelled after the standard
  library: a read of zero bytes always succeeds, a short read at \<open>io.EOF\<close> is
  \<open>io.ErrUnexpectedEOF\<close>, and other errors pass through. A \<open>nil\<close> slice is the empty list.
\<close>

section \<open>Readers\<close>

datatype read_error =
    EOF
  | ErrUnexpectedEOF
  | ApplicationError
  | IdleTimeoutError
  | StatelessResetError
  | NetErrClosed
  | StreamError
  | ContextCanceled
  | OtherError string

record instream =
  avail :: "byte list"
  after :: read_error

type_synonym 'a reader = "instream \<Rightarrow> (read_error + 'a) \<times> instream"

definition readFull :: "nat \<Rightarrow> byte list reader" where
  "readFull n s =
     (if n \<le> length (avail s)
      then (Inr (take n (avail s)), s\<lparr>avail := drop n (avail s)\<rparr>)
      else (Inl (if avail s \<noteq> [] \<and> after s = EOF then ErrUnexpectedEOF else after s),
            s\<lparr>avail := []\<rparr>))"

definition return :: "'a \<Rightarrow> 'a reader" where
  "return x s = (Inr x, s)"

definition bind :: "'a reader \<Rightarrow> ('a \<Rightarrow> 'b reader) \<Rightarrow> 'b reader" where
  "bind m f s = (case m s of (Inl e, s') \<Rightarrow> (Inl e, s') | (Inr x, s') \<Rightarrow> f x s')"

lemma return_apply [wire_simps]: "return x s = (Inr x, s)"
  by (simp add: return_def)

lemma bind_Inr [wire_simps]: "m s = (Inr x, s') \<Longrightarrow> bind m f s = f x s'"
  by (simp add: bind_def)

lemma bind_Inl [wire_simps]: "m s = (Inl e, s') \<Longrightarrow> bind m f s = (Inl e, s')"
  by (simp add: bind_def)

lemma bind_assoc [wire_simps]: "bind (bind m f) g = bind m (\<lambda>x. bind (f x) g)"
  by (rule ext) (auto simp: bind_def split: prod.splits sum.splits)

lemma bind_return [wire_simps]: "bind (return x) f = f x"
  by (rule ext) (simp add: bind_def return_def)

lemma bind_if [wire_simps]: "bind (if c then m else m') f = (if c then bind m f else bind m' f)"
  by simp

lemma bind_eq_Inr:
  "bind m f s = (Inr y, t) \<longleftrightarrow> (\<exists>x s'. m s = (Inr x, s') \<and> f x s' = (Inr y, t))"
  by (auto simp: bind_def split: prod.splits sum.splits)

lemma return_eq_Inr: "return x s = (Inr y, t) \<longleftrightarrow> y = x \<and> t = s"
  by (auto simp: return_def)

lemma readFull_eq_Inr:
  "readFull n s = (Inr bs, t) \<longleftrightarrow>
     avail s = bs @ avail t \<and> length bs = n \<and> after t = after s"
  by (cases s, cases t) (auto simp: readFull_def)

lemma readFull_exact [wire_simps]:
  "n = length bs \<Longrightarrow>
     readFull n \<lparr>avail = bs @ rest, after = e\<rparr> = (Inr bs, \<lparr>avail = rest, after = e\<rparr>)"
  by (simp add: readFull_def)

lemma readFull_one [wire_simps]:
  "readFull (Suc 0) \<lparr>avail = b # rest, after = e\<rparr> = (Inr [b], \<lparr>avail = rest, after = e\<rparr>)"
  by (simp add: readFull_def)

text \<open>A reader is \<open>local\<close> when it consumes a prefix and leaves the final error alone.\<close>

definition consumes :: "'a reader \<Rightarrow> bool" where
  "consumes m \<longleftrightarrow> (\<forall>s r t. m s = (r, t) \<longrightarrow>
     (\<exists>used. avail s = used @ avail t) \<and> after t = after s)"

lemma consumes_readFull [intro, simp]: "consumes (readFull n)"
  unfolding consumes_def readFull_def
  by (auto split: if_splits) (metis append_take_drop_id)

lemma consumes_return [intro, simp]: "consumes (return x)"
  by (simp add: consumes_def return_def)

lemma consumes_bind [intro]:
  assumes "consumes m" and "\<And>x. consumes (f x)"
  shows "consumes (bind m f)"
  unfolding consumes_def
proof (intro allI impI)
  fix s r t
  assume run: "bind m f s = (r, t)"
  obtain q s' where m: "m s = (q, s')" by fastforce
  from assms(1) m obtain u where u: "avail s = u @ avail s'" "after s' = after s"
    unfolding consumes_def by blast
  show "(\<exists>used. avail s = used @ avail t) \<and> after t = after s"
  proof (cases q)
    case (Inl e)
    with run m u show ?thesis by (auto simp: bind_def)
  next
    case (Inr x)
    with run m have "f x s' = (r, t)" by (simp add: bind_def)
    with assms(2) obtain v where "avail s' = v @ avail t" "after t = after s'"
      unfolding consumes_def by blast
    with u show ?thesis by simp
  qed
qed

section \<open>Frame types\<close>

definition FRAME_TYPE_STREAM_INIT :: byte where "FRAME_TYPE_STREAM_INIT = 1"
definition FRAME_TYPE_DATA :: byte where "FRAME_TYPE_DATA = 2"
definition FRAME_TYPE_REQUEST :: byte where "FRAME_TYPE_REQUEST = 3"
definition FRAME_TYPE_RESPONSE :: byte where "FRAME_TYPE_RESPONSE = 4"

lemmas frame_types =
  FRAME_TYPE_STREAM_INIT_def FRAME_TYPE_DATA_def FRAME_TYPE_REQUEST_def FRAME_TYPE_RESPONSE_def

record RequestFrame =
  reqCorrelationID :: string
  reqPayload :: "byte list"

record ResponseFrame =
  respCorrelationID :: string
  respPayload :: "byte list"
  respError :: string

definition empty_request :: RequestFrame where
  "empty_request = \<lparr>reqCorrelationID = [], reqPayload = []\<rparr>"

definition empty_response :: ResponseFrame where
  "empty_response = \<lparr>respCorrelationID = [], respPayload = [], respError = []\<rparr>"

section \<open>Encoders\<close>

text \<open>A length-prefixed string field, as all encoders append it.\<close>

definition field16 :: "byte list \<Rightarrow> byte list" where
  "field16 bs = put_u16 (word_of_nat (length bs)) @ bs"

definition field32 :: "byte list \<Rightarrow> byte list" where
  "field32 bs = put_u32 (word_of_nat (length bs)) @ bs"

definition encodeStreamInit :: "string \<Rightarrow> string \<Rightarrow> string \<Rightarrow> byte list" where
  "encodeStreamInit nodeID appID streamName =
     [FRAME_TYPE_STREAM_INIT] @ field16 (bytes_of nodeID) @ field16 (bytes_of appID)
       @ field16 (bytes_of streamName)"

definition encodeDataFrame :: "byte list \<Rightarrow> byte list" where
  "encodeDataFrame payload = [FRAME_TYPE_DATA] @ field32 payload"

definition encodeRequestFrame :: "RequestFrame \<Rightarrow> byte list" where
  "encodeRequestFrame req =
     [FRAME_TYPE_REQUEST] @ field16 (bytes_of (reqCorrelationID req)) @ field32 (reqPayload req)"

definition encodeResponseFrame :: "ResponseFrame \<Rightarrow> byte list" where
  "encodeResponseFrame resp =
     [FRAME_TYPE_RESPONSE] @ field16 (bytes_of (respCorrelationID resp))
       @ field16 (bytes_of (respError resp)) @ field32 (respPayload resp)"

section \<open>Decoders\<close>

definition readField16 :: "byte list reader" where
  "readField16 = bind (readFull 2) (\<lambda>lenBuf. readFull (unat (get_u16 lenBuf)))"

definition decodeStreamInit :: "(string \<times> string \<times> string) reader" where
  "decodeStreamInit =
     bind readField16 (\<lambda>nodeIDBuf.
     bind readField16 (\<lambda>appIDBuf.
     bind readField16 (\<lambda>streamNameBuf.
       return (string_of nodeIDBuf, string_of appIDBuf, string_of streamNameBuf))))"

text \<open>
  The slice decoders write into the caller's struct as they go, so on an error the fields
  read before it have been set: the result is the struct and \<open>Some\<close> error, if any.
  \<open>subslice i j\<close> is \<open>frameData[i:j]\<close>, used within bounds only.
\<close>

definition subslice :: "nat \<Rightarrow> nat \<Rightarrow> byte list \<Rightarrow> byte list" where
  "subslice i j bs = take (j - i) (drop i bs)"

definition decodeRequestFrame ::
    "byte list \<Rightarrow> RequestFrame \<Rightarrow> RequestFrame \<times> read_error option" where
  "decodeRequestFrame frameData req =
     (if length frameData < 2 then (req, Some ErrUnexpectedEOF)
      else let n = unat (get_u16 (subslice 0 2 frameData)); off = 2 in
      if length frameData < off + n then (req, Some ErrUnexpectedEOF)
      else let req = req\<lparr>reqCorrelationID := string_of (subslice off (off + n) frameData)\<rparr>;
               off = off + n in
      if length frameData < off + 4 then (req, Some ErrUnexpectedEOF)
      else let m = unat (get_u32 (subslice off (off + 4) frameData)); off = off + 4 in
      if length frameData < off + m then (req, Some ErrUnexpectedEOF)
      else (req\<lparr>reqPayload := subslice off (off + m) frameData\<rparr>, None))"

definition decodeResponseFrame ::
    "byte list \<Rightarrow> ResponseFrame \<Rightarrow> ResponseFrame \<times> read_error option" where
  "decodeResponseFrame frameData resp =
     (if length frameData < 2 then (resp, Some ErrUnexpectedEOF)
      else let n = unat (get_u16 (subslice 0 2 frameData)); off = 2 in
      if length frameData < off + n then (resp, Some ErrUnexpectedEOF)
      else let resp = resp\<lparr>respCorrelationID := string_of (subslice off (off + n) frameData)\<rparr>;
               off = off + n in
      if length frameData < off + 2 then (resp, Some ErrUnexpectedEOF)
      else let k = unat (get_u16 (subslice off (off + 2) frameData)); off = off + 2 in
      if length frameData < off + k then (resp, Some ErrUnexpectedEOF)
      else let resp = (if 0 < k
                       then resp\<lparr>respError := string_of (subslice off (off + k) frameData)\<rparr>
                       else resp);
               off = (if 0 < k then off + k else off) in
      if length frameData < off + 4 then (resp, Some ErrUnexpectedEOF)
      else let m = unat (get_u32 (subslice off (off + 4) frameData)); off = off + 4 in
      if length frameData < off + m then (resp, Some ErrUnexpectedEOF)
      else (resp\<lparr>respPayload := subslice off (off + m) frameData\<rparr>, None))"

definition sendResponseFrame :: "ResponseFrame \<Rightarrow> byte list \<Rightarrow> byte list" where
  "sendResponseFrame resp written = written @ encodeResponseFrame resp"

text \<open>
  \<open>readFrame\<close> returns the raw bytes after the type byte of a REQUEST or RESPONSE frame, the
  payload of a DATA frame, and no payload for any other type byte.
\<close>

definition readFrame :: "(byte \<times> byte list) reader" where
  "readFrame =
     bind (readFull 1) (\<lambda>typeBuf. let frameType = hd typeBuf in
       if frameType = FRAME_TYPE_STREAM_INIT then return (frameType, [])
       else if frameType = FRAME_TYPE_DATA then
         bind (readFull 4) (\<lambda>lenBuf.
         bind (readFull (unat (get_u32 lenBuf))) (\<lambda>payload. return (frameType, payload)))
       else if frameType = FRAME_TYPE_REQUEST \<or> frameType = FRAME_TYPE_RESPONSE then
         bind (readFull 2) (\<lambda>lenBuf.
         bind (readFull (unat (get_u16 lenBuf))) (\<lambda>correlationID.
         bind (if frameType = FRAME_TYPE_RESPONSE
               then bind (readFull 2) (\<lambda>errBuf.
                      if 0 < unat (get_u16 errBuf)
                      then bind (readFull (unat (get_u16 errBuf))) (\<lambda>errorStr.
                             return (errBuf @ errorStr))
                      else return errBuf)
               else return []) (\<lambda>errPart.
         bind (readFull 4) (\<lambda>payloadLenBuf.
         bind (if 0 < unat (get_u32 payloadLenBuf)
               then readFull (unat (get_u32 payloadLenBuf))
               else return []) (\<lambda>payloadData.
           return (frameType, lenBuf @ correlationID @ errPart @ payloadLenBuf @ payloadData))))))
       else return (frameType, []))"

section \<open>Slices\<close>

lemma subslice_first [wire_simps]: "j = length a \<Longrightarrow> subslice 0 j (a @ b) = a"
  by (simp add: subslice_def)

lemma subslice_all [wire_simps]: "j = length a \<Longrightarrow> subslice 0 j a = a"
  by (simp add: subslice_def)

lemma subslice_later [wire_simps]:
  "length a \<le> i \<Longrightarrow> subslice i j (a @ b) = subslice (i - length a) (j - length a) b"
  by (simp add: subslice_def)

lemma length_subslice [simp]: "j \<le> length bs \<Longrightarrow> length (subslice i j bs) = j - i"
  by (simp add: subslice_def)

lemma drop_subslice:
  "i \<le> j \<Longrightarrow> drop i bs = subslice i j bs @ drop j bs"
  unfolding subslice_def by (metis append_take_drop_id drop_drop le_add_diff_inverse2)

section \<open>Decoding what was encoded\<close>

text \<open>The lengths a frame can carry: 16 bits for the text fields, 32 bits for the payload.\<close>

definition request_fits :: "RequestFrame \<Rightarrow> bool" where
  "request_fits r \<longleftrightarrow>
     length (reqCorrelationID r) < 65536 \<and> length (reqPayload r) < 4294967296"

definition response_fits :: "ResponseFrame \<Rightarrow> bool" where
  "response_fits r \<longleftrightarrow> length (respCorrelationID r) < 65536 \<and> length (respError r) < 65536
     \<and> length (respPayload r) < 4294967296"

abbreviation request_body :: "RequestFrame \<Rightarrow> byte list" where
  "request_body r \<equiv> field16 (bytes_of (reqCorrelationID r)) @ field32 (reqPayload r)"

abbreviation response_body :: "ResponseFrame \<Rightarrow> byte list" where
  "response_body r \<equiv> field16 (bytes_of (respCorrelationID r))
     @ field16 (bytes_of (respError r)) @ field32 (respPayload r)"

lemma encode_request_body: "encodeRequestFrame r = FRAME_TYPE_REQUEST # request_body r"
  by (simp add: encodeRequestFrame_def)

lemma encode_response_body: "encodeResponseFrame r = FRAME_TYPE_RESPONSE # response_body r"
  by (simp add: encodeResponseFrame_def)

lemma decode_request_body:
  assumes "request_fits r"
  shows "decodeRequestFrame (request_body r @ rest) x = (r, None)"
  using assms
  by (simp add: decodeRequestFrame_def request_fits_def field16_def field32_def wire_simps Let_def)

lemma decode_response_body:
  assumes "response_fits r"
  shows "decodeResponseFrame (response_body r @ rest) empty_response = (r, None)"
  using assms
  by (simp add: decodeResponseFrame_def response_fits_def field16_def field32_def wire_simps
      Let_def empty_response_def)

lemma field16_get:
  "length bs = 2 \<Longrightarrow> length cs = unat (get_u16 bs) \<Longrightarrow> field16 cs = bs @ cs"
  by (simp add: field16_def put_get_u16)

lemma field32_get:
  "length bs = 4 \<Longrightarrow> length cs = unat (get_u32 bs) \<Longrightarrow> field32 cs = bs @ cs"
  by (simp add: field32_def put_get_u32)

text \<open>Conversely, only encodings decode: a successful decode determines the bytes it read.\<close>

lemma decode_request_only_body:
  assumes "decodeRequestFrame bs x = (r, None)"
  shows "request_fits r \<and> (\<exists>rest. bs = request_body r @ rest)"
proof -
  let ?n = "unat (get_u16 (subslice 0 2 bs))"
  let ?m = "unat (get_u32 (subslice (2 + ?n) (2 + ?n + 4) bs))"
  from assms have len: "2 + ?n + 4 + ?m \<le> length bs"
    and r: "reqCorrelationID r = string_of (subslice 2 (2 + ?n) bs)"
      "reqPayload r = subslice (2 + ?n + 4) (2 + ?n + 4 + ?m) bs"
    by (auto simp: decodeRequestFrame_def Let_def split: if_splits)
  have "bs = subslice 0 2 bs @ subslice 2 (2 + ?n) bs @ subslice (2 + ?n) (2 + ?n + 4) bs
      @ subslice (2 + ?n + 4) (2 + ?n + 4 + ?m) bs @ drop (2 + ?n + 4 + ?m) bs"
    using drop_subslice [of 0 2 bs] drop_subslice [of 2 "2 + ?n" bs]
      drop_subslice [of "2 + ?n" "2 + ?n + 4" bs]
      drop_subslice [of "2 + ?n + 4" "2 + ?n + 4 + ?m" bs] by simp
  moreover have "field16 (bytes_of (reqCorrelationID r)) = subslice 0 2 bs @ subslice 2 (2 + ?n) bs"
    using len r by (simp add: field16_get)
  moreover have "field32 (reqPayload r) = subslice (2 + ?n) (2 + ?n + 4) bs
      @ subslice (2 + ?n + 4) (2 + ?n + 4 + ?m) bs"
    using len r by (simp add: field32_get)
  moreover have "request_fits r"
    using len r by (simp add: request_fits_def)
  ultimately show ?thesis by (metis append.assoc)
qed

lemma skip_optional: "(if 0 < k then n + k else n) = n + (k :: nat)"
  by simp

lemma decode_response_fields:
  assumes run: "decodeResponseFrame bs empty_response = (r, None)"
    and n: "n = unat (get_u16 (subslice 0 2 bs))"
    and k: "k = unat (get_u16 (subslice (2 + n) (2 + n + 2) bs))"
    and off: "off = 2 + n + 2 + k"
    and m: "m = unat (get_u32 (subslice off (off + 4) bs))"
  shows "off + 4 + m \<le> length bs \<and> respCorrelationID r = string_of (subslice 2 (2 + n) bs)
    \<and> respError r = string_of (subslice (2 + n + 2) off bs)
    \<and> respPayload r = subslice (off + 4) (off + 4 + m) bs"
proof -
  from run have bs: "2 \<le> length bs" "2 + n \<le> length bs" "2 + n + 2 \<le> length bs" "off \<le> length bs"
    "off + 4 \<le> length bs" "off + 4 + m \<le> length bs"
    unfolding decodeResponseFrame_def Let_def skip_optional n [symmetric] k [symmetric]
      off [symmetric] m [symmetric] by (force split: if_splits)+
  with run have "r = \<lparr>respCorrelationID = string_of (subslice 2 (2 + n) bs),
      respPayload = subslice (off + 4) (off + 4 + m) bs,
      respError = (if 0 < k then string_of (subslice (2 + n + 2) off bs) else [])\<rparr>"
    unfolding decodeResponseFrame_def Let_def skip_optional n [symmetric] k [symmetric]
      off [symmetric] m [symmetric] by (simp add: empty_response_def split: if_splits)
  with bs off show ?thesis by (simp add: subslice_def)
qed

lemma decode_response_only_body:
  assumes "decodeResponseFrame bs empty_response = (r, None)"
  shows "response_fits r \<and> (\<exists>rest. bs = response_body r @ rest)"
proof -
  let ?n = "unat (get_u16 (subslice 0 2 bs))"
  let ?k = "unat (get_u16 (subslice (2 + ?n) (2 + ?n + 2) bs))"
  let ?o = "2 + ?n + 2 + ?k"
  let ?m = "unat (get_u32 (subslice ?o (?o + 4) bs))"
  have len: "?o + 4 + ?m \<le> length bs"
    and r: "respCorrelationID r = string_of (subslice 2 (2 + ?n) bs)"
      "respError r = string_of (subslice (2 + ?n + 2) ?o bs)"
      "respPayload r = subslice (?o + 4) (?o + 4 + ?m) bs"
    using decode_response_fields [OF assms refl refl refl refl] by simp_all
  have "bs = subslice 0 2 bs @ subslice 2 (2 + ?n) bs @ subslice (2 + ?n) (2 + ?n + 2) bs
      @ subslice (2 + ?n + 2) ?o bs @ subslice ?o (?o + 4) bs
      @ subslice (?o + 4) (?o + 4 + ?m) bs @ drop (?o + 4 + ?m) bs"
    using drop_subslice [of 0 2 bs] drop_subslice [of 2 "2 + ?n" bs]
      drop_subslice [of "2 + ?n" "2 + ?n + 2" bs] drop_subslice [of "2 + ?n + 2" ?o bs]
      drop_subslice [of ?o "?o + 4" bs] drop_subslice [of "?o + 4" "?o + 4 + ?m" bs] by simp
  moreover have "field16 (bytes_of (respCorrelationID r)) = subslice 0 2 bs @ subslice 2 (2 + ?n) bs"
    using len r by (simp add: field16_get)
  moreover have "field16 (bytes_of (respError r))
      = subslice (2 + ?n) (2 + ?n + 2) bs @ subslice (2 + ?n + 2) ?o bs"
    using len r by (simp add: field16_get)
  moreover have "field32 (respPayload r) = subslice ?o (?o + 4) bs @ subslice (?o + 4) (?o + 4 + ?m) bs"
    using len r by (simp add: field32_get)
  moreover have "response_fits r"
    using len r by (simp add: response_fits_def)
  ultimately show ?thesis by (metis append.assoc)
qed

section \<open>Readers that depend on the bytes they consume only\<close>

text \<open>
  A successful read is not changed by bytes that follow what it consumed, nor by what the
  stream would do afterwards.
\<close>

definition extends :: "'a reader \<Rightarrow> bool" where
  "extends m \<longleftrightarrow> (\<forall>u e x v f w e'. m \<lparr>avail = u, after = e\<rparr> = (Inr x, \<lparr>avail = v, after = f\<rparr>)
     \<longrightarrow> m \<lparr>avail = u @ w, after = e'\<rparr> = (Inr x, \<lparr>avail = v @ w, after = e'\<rparr>))"

lemma extends_readFull [intro, simp]: "extends (readFull n)"
  by (auto simp: extends_def readFull_def split: if_splits)

lemma extends_return [intro, simp]: "extends (return x)"
  by (simp add: extends_def return_def)

lemma extends_bind [intro]:
  assumes "extends m" and "\<And>x. extends (f x)"
  shows "extends (bind m f)"
  unfolding extends_def
proof (intro allI impI)
  fix u e y v g w e'
  assume "bind m f \<lparr>avail = u, after = e\<rparr> = (Inr y, \<lparr>avail = v, after = g\<rparr>)"
  then obtain x s' where m: "m \<lparr>avail = u, after = e\<rparr> = (Inr x, s')"
    and f: "f x s' = (Inr y, \<lparr>avail = v, after = g\<rparr>)" by (auto simp: bind_eq_Inr)
  obtain v' g' where s': "s' = \<lparr>avail = v', after = g'\<rparr>" by (cases s')
  from assms(1) m s' have "m \<lparr>avail = u @ w, after = e'\<rparr> = (Inr x, \<lparr>avail = v' @ w, after = e'\<rparr>)"
    unfolding extends_def by blast
  moreover from assms(2) f s' have
    "f x \<lparr>avail = v' @ w, after = e'\<rparr> = (Inr y, \<lparr>avail = v @ w, after = e'\<rparr>)"
    unfolding extends_def by blast
  ultimately show "bind m f \<lparr>avail = u @ w, after = e'\<rparr> = (Inr y, \<lparr>avail = v @ w, after = e'\<rparr>)"
    by (auto simp: bind_eq_Inr)
qed

lemma extends_if [intro]: "extends m \<Longrightarrow> extends m' \<Longrightarrow> extends (if c then m else m')"
  by simp

lemma extends_readFrame: "extends readFrame"
  unfolding readFrame_def Let_def by (intro extends_bind extends_if extends_readFull extends_return)

lemma extends_decodeStreamInit: "extends decodeStreamInit"
  unfolding decodeStreamInit_def readField16_def
  by (intro extends_bind extends_readFull extends_return)

lemma consumes_readFrame: "consumes readFrame"
  unfolding readFrame_def Let_def
  by (intro consumes_bind consumes_readFull consumes_return)
     (simp | intro conjI impI consumes_bind consumes_readFull consumes_return)+

section \<open>Reading frames off a stream\<close>

lemma readFrame_data:
  assumes "length p < 4294967296"
  shows "readFrame \<lparr>avail = encodeDataFrame p @ rest, after = e\<rparr>
    = (Inr (FRAME_TYPE_DATA, p), \<lparr>avail = rest, after = e\<rparr>)"
  using assms
  by (simp add: readFrame_def encodeDataFrame_def field32_def wire_simps frame_types)

lemma readFrame_request:
  assumes "request_fits r"
  shows "readFrame \<lparr>avail = encodeRequestFrame r @ rest, after = e\<rparr>
    = (Inr (FRAME_TYPE_REQUEST, request_body r), \<lparr>avail = rest, after = e\<rparr>)"
  using assms
  by (simp add: readFrame_def encodeRequestFrame_def field16_def field32_def wire_simps
      frame_types request_fits_def)

lemma readFrame_response:
  assumes "response_fits r"
  shows "readFrame \<lparr>avail = encodeResponseFrame r @ rest, after = e\<rparr>
    = (Inr (FRAME_TYPE_RESPONSE, response_body r), \<lparr>avail = rest, after = e\<rparr>)"
  using assms
  by (simp add: readFrame_def encodeResponseFrame_def field16_def field32_def wire_simps
      frame_types response_fits_def)

section \<open>Messages\<close>

text \<open>
  What the read loop of a stream makes of a frame: the payload of a DATA frame, or the decoded
  REQUEST or RESPONSE frame. \<open>Unknown\<close> is any other type byte, \<open>Undecodable\<close> a frame whose
  slice decoder failed.
\<close>

datatype message =
    Data "byte list"
  | Request RequestFrame
  | Response ResponseFrame
  | Unknown byte
  | Undecodable byte

definition classify :: "byte \<times> byte list \<Rightarrow> message" where
  "classify = (\<lambda>(frameType, payload).
     if frameType = FRAME_TYPE_DATA then Data payload
     else if frameType = FRAME_TYPE_REQUEST then
       (case decodeRequestFrame payload empty_request of
          (r, None) \<Rightarrow> Request r | (r, Some e) \<Rightarrow> Undecodable frameType)
     else if frameType = FRAME_TYPE_RESPONSE then
       (case decodeResponseFrame payload empty_response of
          (r, None) \<Rightarrow> Response r | (r, Some e) \<Rightarrow> Undecodable frameType)
     else Unknown frameType)"

definition nextMessage :: "message reader" where
  "nextMessage = bind readFrame (\<lambda>frame. return (classify frame))"

fun encodeMessage :: "message \<Rightarrow> byte list" where
  "encodeMessage (Data p) = encodeDataFrame p"
| "encodeMessage (Request r) = encodeRequestFrame r"
| "encodeMessage (Response r) = encodeResponseFrame r"
| "encodeMessage (Unknown b) = [b]"
| "encodeMessage (Undecodable b) = [b]"

fun message_fits :: "message \<Rightarrow> bool" where
  "message_fits (Data p) = (length p < 4294967296)"
| "message_fits (Request r) = request_fits r"
| "message_fits (Response r) = response_fits r"
| "message_fits (Unknown b) = False"
| "message_fits (Undecodable b) = False"

text \<open>The first frame of a stream, as \<open>handleStream\<close> reads it; \<open>Inr None\<close> is a refused stream.\<close>

definition acceptStreamInit :: "(string \<times> string \<times> string) option reader" where
  "acceptStreamInit = bind (readFull 1) (\<lambda>typeBuf.
     if hd typeBuf \<noteq> FRAME_TYPE_STREAM_INIT then return None
     else bind decodeStreamInit (\<lambda>ids. return (Some ids)))"

fun init_fits :: "(string \<times> string \<times> string) option \<Rightarrow> bool" where
  "init_fits None = False"
| "init_fits (Some (n, a, st)) = (length n < 65536 \<and> length a < 65536 \<and> length st < 65536)"

fun encodeInit :: "(string \<times> string \<times> string) option \<Rightarrow> byte list" where
  "encodeInit None = []"
| "encodeInit (Some (n, a, st)) = encodeStreamInit n a st"

section \<open>Framing as an interface\<close>

text \<open>
  What the stream code relies on: a value that fits is read back from its encoding, whatever
  follows it, and a read depends on the bytes it consumes only.
\<close>

fun readMany :: "nat \<Rightarrow> 'a reader \<Rightarrow> 'a list reader" where
  "readMany 0 rd = return []"
| "readMany (Suc n) rd = bind rd (\<lambda>x. bind (readMany n rd) (\<lambda>xs. return (x # xs)))"

locale frame_codec =
  fixes fits :: "'a \<Rightarrow> bool" and enc :: "'a \<Rightarrow> byte list" and rd :: "'a reader"
  assumes read_enc: "fits x \<Longrightarrow>
      rd \<lparr>avail = enc x @ rest, after = e\<rparr> = (Inr x, \<lparr>avail = rest, after = e\<rparr>)"
    and rd_extends: "extends rd"
    and rd_consumes: "consumes rd"
begin

lemma read_sequence:
  "list_all fits xs \<Longrightarrow>
     readMany (length xs) rd \<lparr>avail = concat (map enc xs) @ rest, after = e\<rparr>
       = (Inr xs, \<lparr>avail = rest, after = e\<rparr>)"
proof (induction xs)
  case (Cons x xs)
  then have "rd \<lparr>avail = enc x @ concat (map enc xs) @ rest, after = e\<rparr>
      = (Inr x, \<lparr>avail = concat (map enc xs) @ rest, after = e\<rparr>)"
    by (simp add: read_enc)
  with Cons show ?case by (simp add: wire_simps)
qed (simp add: wire_simps)

lemma prefix_free:
  assumes "fits x" and "fits y" and "enc x @ r = enc y @ r'"
  shows "x = y \<and> r = r'"
proof -
  have "rd \<lparr>avail = enc x @ r, after = EOF\<rparr> = (Inr x, \<lparr>avail = r, after = EOF\<rparr>)"
    using assms(1) by (rule read_enc)
  moreover have "rd \<lparr>avail = enc y @ r', after = EOF\<rparr> = (Inr y, \<lparr>avail = r', after = EOF\<rparr>)"
    using assms(2) by (rule read_enc)
  ultimately show ?thesis unfolding assms(3) by simp
qed

lemma truncated_fails:
  assumes fits: "fits x" and k: "k < length (enc x)"
  shows "\<exists>err t. rd \<lparr>avail = take k (enc x), after = e\<rparr> = (Inl err, t)"
proof (cases "rd \<lparr>avail = take k (enc x), after = e\<rparr>")
  case (Pair q t)
  show ?thesis
  proof (cases q)
    case (Inr y)
    obtain v f where t: "t = \<lparr>avail = v, after = f\<rparr>" by (cases t)
    from rd_extends Pair Inr t
    have "rd \<lparr>avail = take k (enc x) @ drop k (enc x), after = e\<rparr>
        = (Inr y, \<lparr>avail = v @ drop k (enc x), after = e\<rparr>)"
      unfolding extends_def by blast
    with read_enc [OF fits, of "[]" e] have "y = x \<and> v @ drop k (enc x) = []" by auto
    with k show ?thesis by simp
  qed (use Pair in auto)
qed

end

lemma classify_data: "classify (FRAME_TYPE_DATA, p) = Data p"
  by (simp add: classify_def frame_types)

lemma classify_request: "request_fits r \<Longrightarrow> classify (FRAME_TYPE_REQUEST, request_body r) = Request r"
  using decode_request_body [of r "[]" empty_request] by (simp add: classify_def frame_types)

lemma classify_response:
  "response_fits r \<Longrightarrow> classify (FRAME_TYPE_RESPONSE, response_body r) = Response r"
  using decode_response_body [of r "[]"] by (simp add: classify_def frame_types)

interpretation messages: frame_codec message_fits encodeMessage nextMessage
proof
  fix m rest e
  assume "message_fits m"
  then show "nextMessage \<lparr>avail = encodeMessage m @ rest, after = e\<rparr>
      = (Inr m, \<lparr>avail = rest, after = e\<rparr>)"
    by (cases m) (simp_all add: nextMessage_def bind_Inr return_def readFrame_data
        readFrame_request readFrame_response classify_data classify_request classify_response)
next
  show "extends nextMessage"
    unfolding nextMessage_def by (intro extends_bind extends_readFrame extends_return)
next
  show "consumes nextMessage"
    unfolding nextMessage_def by (intro consumes_bind consumes_readFrame consumes_return)
qed

interpretation inits: frame_codec init_fits encodeInit acceptStreamInit
proof
  fix x rest e
  assume "init_fits x"
  then show "acceptStreamInit \<lparr>avail = encodeInit x @ rest, after = e\<rparr>
      = (Inr x, \<lparr>avail = rest, after = e\<rparr>)"
    by (cases x rule: init_fits.cases)
      (simp_all add: acceptStreamInit_def encodeStreamInit_def decodeStreamInit_def
        readField16_def field16_def wire_simps)
next
  show "extends acceptStreamInit"
    unfolding acceptStreamInit_def
    by (intro extends_bind extends_if extends_readFull extends_return extends_decodeStreamInit)
next
  show "consumes acceptStreamInit"
    unfolding acceptStreamInit_def decodeStreamInit_def readField16_def
    by (intro consumes_bind consumes_readFull consumes_return)
      (auto intro!: consumes_bind)
qed

section \<open>What a successful read has consumed\<close>

lemma readFrame_data_inv:
  assumes "readFrame s = (Inr (FRAME_TYPE_DATA, p), t)"
  shows "length p < 4294967296 \<and> avail s = encodeDataFrame p @ avail t"
  using assms
  by (auto simp: readFrame_def bind_eq_Inr return_eq_Inr length_Suc_conv Let_def frame_types
      encodeDataFrame_def readFull_eq_Inr field32_get split: if_splits)

lemma optional_payload:
  "(if 0 < n then readFull n else return []) s = (Inr bs, t) \<longleftrightarrow> readFull n s = (Inr bs, t)"
  by (cases s, cases t) (auto simp: readFull_def return_def)

lemma readFrame_request_inv:
  assumes "readFrame s = (Inr (FRAME_TYPE_REQUEST, p), t)"
  shows "\<exists>r. request_fits r \<and> p = request_body r \<and> avail s = encodeRequestFrame r @ avail t"
proof -
  from assms obtain lb cid pb pd where
    parts: "avail s = FRAME_TYPE_REQUEST # lb @ cid @ pb @ pd @ avail t" "p = lb @ cid @ pb @ pd"
      "length lb = 2" "length cid = unat (get_u16 lb)" "length pb = 4"
      "length pd = unat (get_u32 pb)"
    by (auto simp: readFrame_def bind_eq_Inr return_eq_Inr length_Suc_conv Let_def frame_types
        optional_payload readFull_eq_Inr split: if_splits)
  let ?r = "\<lparr>reqCorrelationID = string_of cid, reqPayload = pd\<rparr>"
  have "request_body ?r = p" using parts by (simp add: field16_get field32_get)
  moreover have "request_fits ?r" using parts by (simp add: request_fits_def)
  ultimately show ?thesis using parts by (auto simp: encode_request_body)
qed

lemma optional_error:
  "(if 0 < n then bind (readFull n) (\<lambda>es. return (eb @ es)) else return eb) s = (Inr bs, t)
     \<longleftrightarrow> (\<exists>es. readFull n s = (Inr es, t) \<and> bs = eb @ es)"
  by (cases s, cases t) (auto simp: bind_eq_Inr return_eq_Inr readFull_eq_Inr)

lemma readFrame_response_inv:
  assumes "readFrame s = (Inr (FRAME_TYPE_RESPONSE, p), t)"
  shows "\<exists>r. response_fits r \<and> p = response_body r \<and> avail s = encodeResponseFrame r @ avail t"
proof -
  from assms obtain lb cid eb es pb pd where
    parts: "avail s = FRAME_TYPE_RESPONSE # lb @ cid @ eb @ es @ pb @ pd @ avail t"
      "p = lb @ cid @ eb @ es @ pb @ pd"
      "length lb = 2" "length cid = unat (get_u16 lb)" "length eb = 2"
      "length es = unat (get_u16 eb)" "length pb = 4" "length pd = unat (get_u32 pb)"
    by (auto simp: readFrame_def bind_eq_Inr return_eq_Inr length_Suc_conv Let_def frame_types
        optional_payload optional_error readFull_eq_Inr split: if_split_asm)
  let ?r = "\<lparr>respCorrelationID = string_of cid, respPayload = pd, respError = string_of es\<rparr>"
  have "response_body ?r = p" using parts by (simp add: field16_get field32_get)
  moreover have "response_fits ?r" using parts by (simp add: response_fits_def)
  ultimately show ?thesis using parts by (auto simp: encode_response_body)
qed

section \<open>Properties\<close>

text \<open>
  C15: Framing round trip. A peer that writes any sequence of DATA, REQUEST and RESPONSE frames
  whose fields fit their length prefixes is read back as exactly that sequence of messages, in
  order, and the read stops exactly where the last frame ended.
\<close>

theorem message_stream_roundtrip:
  assumes "list_all message_fits ms"
  shows "readMany (length ms) nextMessage
      \<lparr>avail = concat (map encodeMessage ms) @ rest, after = e\<rparr>
    = (Inr ms, \<lparr>avail = rest, after = e\<rparr>)"
  using assms by (rule messages.read_sequence)

theorem message_stream_roundtrip_witness:
  "readMany 2 nextMessage
     \<lparr>avail = encodeRequestFrame \<lparr>reqCorrelationID = ''id'', reqPayload = [7]\<rparr>
        @ encodeDataFrame [1, 2] @ [9], after = EOF\<rparr>
   = (Inr [Request \<lparr>reqCorrelationID = ''id'', reqPayload = [7]\<rparr>, Data [1, 2]],
      \<lparr>avail = [9], after = EOF\<rparr>)"
  using message_stream_roundtrip
    [of "[Request \<lparr>reqCorrelationID = ''id'', reqPayload = [7]\<rparr>, Data [1, 2]]" "[9]" EOF]
  by (simp add: request_fits_def numeral_2_eq_2 del: readMany.simps)

text \<open>
  C34: Only well-formed frames are accepted. Whatever bytes arrive, a frame that the reader
  accepts decodes: the slice decoders never fail on what \<open>readFrame\<close> returns, and for a DATA,
  REQUEST or RESPONSE frame the bytes taken off the stream are exactly the encoding of the
  message delivered, with all lengths within their prefixes.
\<close>

theorem accepted_frames_are_encodings:
  assumes "nextMessage s = (Inr m, t)"
  shows "(\<forall>b. m \<noteq> Undecodable b) \<and>
    ((\<forall>b. m \<noteq> Unknown b) \<longrightarrow> message_fits m \<and> avail s = encodeMessage m @ avail t)"
proof -
  from assms obtain ft p where run: "readFrame s = (Inr (ft, p), t)" and m: "m = classify (ft, p)"
    by (auto simp: nextMessage_def bind_eq_Inr return_eq_Inr)
  consider "ft = FRAME_TYPE_DATA" | "ft = FRAME_TYPE_REQUEST" | "ft = FRAME_TYPE_RESPONSE"
    | "ft \<noteq> FRAME_TYPE_DATA" "ft \<noteq> FRAME_TYPE_REQUEST" "ft \<noteq> FRAME_TYPE_RESPONSE" by blast
  then show ?thesis
  proof cases
    case 1
    with run m show ?thesis by (simp add: classify_data readFrame_data_inv)
  next
    case 2
    with run readFrame_request_inv [of s p t] m show ?thesis by (auto simp: classify_request)
  next
    case 3
    with run readFrame_response_inv [of s p t] m show ?thesis by (auto simp: classify_response)
  next
    case 4
    with m have "m = Unknown ft" by (simp add: classify_def)
    then show ?thesis by simp
  qed
qed

theorem accepted_frames_are_encodings_witness:
  "message_fits (Data [5])"
proof -
  have "nextMessage \<lparr>avail = [2, 0, 0, 0, 1, 5], after = EOF\<rparr>
      = (Inr (Data [5]), \<lparr>avail = [], after = EOF\<rparr>)"
    by (simp add: nextMessage_def readFrame_def readFull_def return_def bind_def frame_types
        get_u32_def classify_def)
  from accepted_frames_are_encodings [OF this] show ?thesis by simp
qed

text \<open>
  No truncated frame is accepted. If the stream ends or breaks anywhere inside a frame, the
  read returns an error: a prefix of a frame is never delivered as a message.
\<close>

theorem truncated_frame_rejected:
  assumes "message_fits m" and "k < length (encodeMessage m)"
  shows "\<exists>err t. nextMessage \<lparr>avail = take k (encodeMessage m), after = e\<rparr> = (Inl err, t)"
  using assms by (rule messages.truncated_fails)

theorem truncated_frame_rejected_witness:
  "\<exists>err t. nextMessage \<lparr>avail = take 5 (encodeDataFrame [1, 2]), after = EOF\<rparr> = (Inl err, t)"
  using truncated_frame_rejected [of "Data [1, 2]" 5 EOF]
  by (simp add: encodeDataFrame_def field32_def)

text \<open>
  Stream identification. The first frame a node writes on a new stream is read by the
  accepting node as the same node, application and stream name, leaving the rest of the
  stream untouched; two stream openings with the same bytes have the same identification.
\<close>

theorem stream_init_roundtrip:
  assumes "length n < 65536" and "length a < 65536" and "length st < 65536"
  shows "acceptStreamInit \<lparr>avail = encodeStreamInit n a st @ rest, after = e\<rparr>
    = (Inr (Some (n, a, st)), \<lparr>avail = rest, after = e\<rparr>)"
  using inits.read_enc [of "Some (n, a, st)" rest e] assms by simp

theorem stream_init_roundtrip_witness:
  "acceptStreamInit \<lparr>avail = encodeStreamInit ''n1'' ''SYSTEM-MYCEL'' ''data'' @ [2], after = EOF\<rparr>
   = (Inr (Some (''n1'', ''SYSTEM-MYCEL'', ''data'')), \<lparr>avail = [2], after = EOF\<rparr>)"
  by (rule stream_init_roundtrip) simp_all

end
