(* ===== verification/Cache_Types.thy ===== *)
theory Cache_Types
  imports Complex_Main Go_Prelude
begin

text \<open>
  The data of the cache (\<open>internal/mycel/ds.go\<close>, \<open>cache.go\<close>, \<open>geo.go\<close>): stored values,
  list nodes in a store of addresses, buckets, the cache of one node, and the errors its
  operations return.

  Nodes are shared by pointer (a node is in \<open>keyVal\<close> and in the list of its bucket), so they
  live in a heap from addresses to node records and every pointer is an address or \<open>None\<close>
  for \<open>nil\<close>. A \<open>*lruBucket\<close> is reachable from the \<open>lruBuckets\<close> map only and never removed
  from it, so buckets are kept in the map by value.
\<close>

section \<open>Values\<close>

record GeoEntry =
  geUserID :: string
  geLat :: real
  geLng :: real
  geGeohash :: string
  geExpiresAt :: gotime

text \<open>
  What an \<open>any\<close> holds as far as the cache can tell: \<open>nil\<close>, basic values, the geo entries the
  cache stores itself, and values of an application type with a flag that says whether the
  application registered the type with \<open>encoding/gob\<close>.
\<close>

datatype goany =
    ANil
  | AString string
  | AInt int
  | AGeoEntry GeoEntry
  | AUser bool nat

text \<open>The library never calls \<open>gob.Register\<close>, so a \<open>GeoEntry\<close> inside an \<open>any\<close> does not encode.\<close>

fun gob_registered :: "goany \<Rightarrow> bool" where
  "gob_registered (AGeoEntry e) = False"
| "gob_registered (AUser registered v) = registered"
| "gob_registered v = True"

section \<open>Nodes, buckets, caches\<close>

type_synonym addr = nat

record node =
  nnext :: "addr option"
  nprev :: "addr option"
  nkey :: string
  ndata :: goany
  nexpiresAt :: gotime

type_synonym heap = "addr \<Rightarrow> node"

datatype bucketType = bucketTypeRegular | bucketTypeGeo

record lruBucket =
  bType :: bucketType
  bPrecisions :: "nat list"
  bHead :: "addr option"
  bTail :: "addr option"
  bLen :: int
  bMaxLen :: int
  bDefaultTtl :: duration

text \<open>
  The cache of one node. \<open>heapOf\<close> and \<open>freshAddr\<close> stand for Go's memory: addresses from
  \<open>freshAddr\<close> on have not been allocated. \<open>sizeGauge\<close> is the \<open>cache.bucket.size\<close> instrument
  and \<open>lruEvictions\<close> the \<open>cache.lru_evictions\<close> one, per bucket; \<open>counters\<close> holds the other
  counters, by the field of the \<open>metrics\<close> struct and the attribute values, and \<open>observations\<close> the
  values recorded in a histogram, the latest first; a duration is \<open>None\<close>, as it depends on the clock.
\<close>

record cache =
  nodeId :: string
  heapOf :: heap
  freshAddr :: addr
  keyVal :: "string \<rightharpoonup> addr"
  lruBuckets :: "string \<rightharpoonup> lruBucket"
  nodeScoreHashMap :: "string \<rightharpoonup> string"
  replicaLocalityCache :: "string \<rightharpoonup> bool"
  replicas :: nat
  sizeGauge :: "string \<Rightarrow> int"
  lruEvictions :: "string \<Rightarrow> nat"
  counters :: "string \<Rightarrow> string list \<Rightarrow> int"
  observations :: "string \<Rightarrow> string list \<Rightarrow> int option list"

definition nil_node :: node where
  "nil_node = \<lparr>nnext = None, nprev = None, nkey = [], ndata = ANil, nexpiresAt = zero_time\<rparr>"

definition initCache :: "string \<Rightarrow> nat \<Rightarrow> cache" where
  "initCache self n = \<lparr>nodeId = self, heapOf = (\<lambda>_. nil_node), freshAddr = 0, keyVal = Map.empty,
     lruBuckets = Map.empty, nodeScoreHashMap = Map.empty, replicaLocalityCache = Map.empty,
     replicas = n, sizeGauge = (\<lambda>_. 0), lruEvictions = (\<lambda>_. 0),
     counters = (\<lambda>_ _. 0), observations = (\<lambda>_ _. [])\<rparr>"

section \<open>Errors and outcomes\<close>

text \<open>
  Errors are compared by identity (\<open>errors.Is\<close>): \<open>ErrBucketNotFound\<close> is the one
  \<open>GetBucket\<close> makes, which is not \<open>ERR_NO_BUCKET\<close>. \<open>ErrRemote\<close> is the text of an error that
  came back in a response frame.
\<close>

datatype error =
    ERR_NOT_FOUND
  | ERR_NO_BUCKET
  | ErrBucketNotFound
  | ErrBucketExists
  | ERR_NO_GEO_BUCKET
  | ERR_USER_NOT_FOUND
  | ERR_BAD_PRECISION
  | ErrNoPrecisions
  | ErrNoReplicas
  | ErrQuorum nat nat "error option"
  | ErrGobEncode
  | ErrGobDecode
  | ErrSend
  | ErrTimeout
  | ErrRemote error
  | ErrEmptyPayload
  | ErrUnknownOperation

text \<open>
  How a call ends: it returns an error or a value together with the new state, it panics (a
  \<open>nil\<close> dereference, which ends the process), or it never returns (a walk over a cyclic list,
  with the bucket's lock held).
\<close>

datatype ('r, 's) outcome =
    Ret "error + 'r" 's
  | Panic
  | Hang

end
