(* ===== verification/Lru_List.thy ===== *)
theory Lru_List
  imports Cache_Types
begin

text \<open>
  The doubly linked list of a bucket (\<open>lruBucket.Push\<close> and \<open>lruBucket.Delete\<close> in
  \<open>internal/mycel/ds.go\<close>) on the heap, the list predicate the operations keep, and their
  refinement of the operations on the logical list: move to front, and removal by key.
\<close>

section \<open>The operations\<close>

definition set_next :: "heap \<Rightarrow> addr \<Rightarrow> addr option \<Rightarrow> heap" where
  "set_next h a p = h(a := (h a)\<lparr>nnext := p\<rparr>)"

definition set_prev :: "heap \<Rightarrow> addr \<Rightarrow> addr option \<Rightarrow> heap" where
  "set_prev h a p = h(a := (h a)\<lparr>nprev := p\<rparr>)"

text \<open>\<open>Push\<close>, first half: count a node that never had neighbours, and take it out of its place.\<close>

definition push_unlink :: "addr \<Rightarrow> lruBucket \<Rightarrow> heap \<Rightarrow> lruBucket \<times> heap" where
  "push_unlink n b h =
     (let b1 = (if nnext (h n) = None \<and> nprev (h n) = None then b\<lparr>bLen := bLen b + 1\<rparr> else b);
          h1 = (case (nnext (h n), nprev (h n)) of
                  (Some nx, Some pv) \<Rightarrow> set_next (set_prev h nx (Some pv)) pv (Some nx)
                | _ \<Rightarrow> h)
      in case (nnext (h1 n), nprev (h1 n)) of
           (None, Some pv) \<Rightarrow> (b1\<lparr>bTail := Some pv\<rparr>, set_next h1 pv None)
         | _ \<Rightarrow> (b1, h1))"

text \<open>Second half: put it in front of the head.\<close>

definition push_front :: "addr \<Rightarrow> lruBucket \<Rightarrow> heap \<Rightarrow> lruBucket \<times> heap" where
  "push_front n b h =
     (case bHead b of
        None \<Rightarrow> (b\<lparr>bHead := Some n, bTail := Some n\<rparr>, h)
      | Some old \<Rightarrow> (b\<lparr>bHead := Some n\<rparr>,
          set_prev (set_next (set_prev h old (Some n)) n (Some old)) n None))"

definition Push :: "addr \<Rightarrow> lruBucket \<Rightarrow> heap \<Rightarrow> lruBucket \<times> heap" where
  "Push n b h =
     (if bHead b = Some n then (b, h)
      else case push_unlink n b h of (b', h') \<Rightarrow> push_front n b' h')"

text \<open>
  The walk of \<open>Delete\<close> along \<open>next\<close> to the first node with the key. On a cyclic list without
  the key it does not end (\<open>None\<close>).
\<close>

partial_function (option) find_node ::
    "heap \<Rightarrow> string \<Rightarrow> addr option \<Rightarrow> addr option option" where
  "find_node h key p =
     (case p of None \<Rightarrow> Some None
      | Some n \<Rightarrow> if nkey (h n) = key then Some (Some n) else find_node h key (nnext (h n)))"

text \<open>What \<open>Delete\<close> does with the node it found, assignment by assignment.\<close>

definition delete_node :: "addr \<Rightarrow> lruBucket \<Rightarrow> heap \<Rightarrow> lruBucket \<times> heap" where
  "delete_node n b h =
     (let b1 = (if nprev (h n) = None then b\<lparr>bHead := nnext (h n)\<rparr> else b);
          b2 = (if nnext (h n) = None then b1\<lparr>bTail := nprev (h n)\<rparr> else b1);
          h1 = (case (nnext (h n), nprev (h n)) of
                  (Some nx, Some pv) \<Rightarrow> set_next (set_prev h nx (Some pv)) pv (Some nx)
                | _ \<Rightarrow> h);
          h2 = (case (nnext (h1 n), nprev (h1 n)) of
                  (Some nx, None) \<Rightarrow> set_prev h1 nx None | _ \<Rightarrow> h1);
          h3 = (case (nnext (h2 n), nprev (h2 n)) of
                  (None, Some pv) \<Rightarrow> set_next h2 pv None | _ \<Rightarrow> h2)
      in (b2\<lparr>bLen := bLen b2 - 1\<rparr>,
          h3(n := (h3 n)\<lparr>nnext := None, nprev := None, ndata := ANil\<rparr>)))"

definition Delete :: "string \<Rightarrow> lruBucket \<Rightarrow> heap \<Rightarrow> (bool \<times> lruBucket \<times> heap) option" where
  "Delete key b h =
     (case find_node h key (bHead b) of
        None \<Rightarrow> None
      | Some None \<Rightarrow> Some (False, b, h)
      | Some (Some n) \<Rightarrow> (case delete_node n b h of (b', h') \<Rightarrow> Some (True, b', h')))"

section \<open>The list predicate\<close>

fun first_or :: "'a option \<Rightarrow> 'a list \<Rightarrow> 'a option" where
  "first_or q [] = q"
| "first_or q (x # xs) = Some x"

fun last_or :: "'a option \<Rightarrow> 'a list \<Rightarrow> 'a option" where
  "last_or p [] = p"
| "last_or p (x # xs) = last_or (Some x) xs"

text \<open>
  \<open>dseg h p xs q\<close>: the nodes \<open>xs\<close> are linked in this order in both directions, the first one's
  \<open>prev\<close> is \<open>p\<close> and the last one's \<open>next\<close> is \<open>q\<close>.
\<close>

fun dseg :: "heap \<Rightarrow> addr option \<Rightarrow> addr list \<Rightarrow> addr option \<Rightarrow> bool" where
  "dseg h p [] q = True"
| "dseg h p (a # as) q =
     (nprev (h a) = p \<and> nnext (h a) = first_or q as \<and> dseg h (Some a) as q)"

text \<open>
  The bucket holds exactly the nodes \<open>xs\<close>, most recent first; \<open>q\<close> is what the last node's
  \<open>next\<close> points to: \<open>None\<close> in a proper list.
\<close>

definition lru_list :: "lruBucket \<Rightarrow> heap \<Rightarrow> addr list \<Rightarrow> addr option \<Rightarrow> bool" where
  "lru_list b h xs q \<longleftrightarrow>
     distinct xs \<and> (\<forall>z. q = Some z \<longrightarrow> z \<notin> set xs) \<and> (xs = [] \<longrightarrow> q = None) \<and>
     bHead b = first_or None xs \<and> bTail b = last_or None xs \<and> bLen b = int (length xs) \<and>
     dseg h None xs q"

lemma first_or_append [simp]: "first_or q (xs @ ys) = first_or (first_or q ys) xs"
  by (cases xs) auto

lemma last_or_append [simp]: "last_or p (xs @ ys) = last_or (last_or p xs) ys"
  by (induction xs arbitrary: p) auto

lemma last_or_nonempty: "xs \<noteq> [] \<Longrightarrow> last_or p xs = Some (last xs)"
  by (induction xs arbitrary: p) auto

lemma first_or_nonempty: "xs \<noteq> [] \<Longrightarrow> first_or p xs = Some (hd xs)"
  by (cases xs) auto

lemma dseg_append:
  "dseg h p (xs @ ys) q \<longleftrightarrow> dseg h p xs (first_or q ys) \<and> dseg h (last_or p xs) ys q"
  by (induction xs arbitrary: p) auto

lemma dseg_cong:
  "(\<And>a. a \<in> set xs \<Longrightarrow> nnext (h a) = nnext (h' a) \<and> nprev (h a) = nprev (h' a)) \<Longrightarrow>
     dseg h p xs q = dseg h' p xs q"
  by (induction xs arbitrary: p) auto

text \<open>Effect of a single pointer update on a segment.\<close>

lemma set_links [simp]:
  "nnext (set_next h a p x) = (if x = a then p else nnext (h x))"
  "nprev (set_next h a p x) = nprev (h x)"
  "nnext (set_prev h a p x) = nnext (h x)"
  "nprev (set_prev h a p x) = (if x = a then p else nprev (h x))"
  by (simp_all add: set_next_def set_prev_def)

lemma set_payload [simp]:
  "nkey (set_next h a p x) = nkey (h x)" "ndata (set_next h a p x) = ndata (h x)"
  "nexpiresAt (set_next h a p x) = nexpiresAt (h x)"
  "nkey (set_prev h a p x) = nkey (h x)" "ndata (set_prev h a p x) = ndata (h x)"
  "nexpiresAt (set_prev h a p x) = nexpiresAt (h x)"
  by (simp_all add: set_next_def set_prev_def)

lemma dseg_set_outside [simp]:
  "a \<notin> set xs \<Longrightarrow> dseg (set_next h a r) p xs q = dseg h p xs q"
  "a \<notin> set xs \<Longrightarrow> dseg (set_prev h a r) p xs q = dseg h p xs q"
  by (rule dseg_cong; auto)+

lemma dseg_set_last_next:
  "distinct (xs @ [a]) \<Longrightarrow> dseg h p (xs @ [a]) q \<Longrightarrow> dseg (set_next h a r) p (xs @ [a]) r"
  by (auto simp: dseg_append)

lemma dseg_set_first_prev:
  "distinct (a # xs) \<Longrightarrow> dseg h p (a # xs) q \<Longrightarrow> dseg (set_prev h a r) r (a # xs) q"
  by simp

lemma dseg_member_next:
  "dseg h p (as @ n # bs) q \<Longrightarrow> nnext (h n) = first_or q bs"
  by (simp add: dseg_append)

lemma dseg_member_prev:
  "dseg h p (as @ n # bs) q \<Longrightarrow> nprev (h n) = last_or p as"
  by (simp add: dseg_append)

section \<open>Push moves to the front\<close>

text \<open>Unlinking leaves a proper list of the other nodes.\<close>

lemma push_unlink_middle:
  assumes ok: "lru_list b h ((as @ [pv]) @ n # nx # bs) q"
  shows "push_unlink n b h = (b, set_next (set_prev h nx (Some pv)) pv (Some nx))"
    and "dseg (set_next (set_prev h nx (Some pv)) pv (Some nx)) None ((as @ [pv]) @ nx # bs) q"
proof -
  from ok have seg: "dseg h None ((as @ [pv]) @ n # nx # bs) q"
    and dist: "distinct ((as @ [pv]) @ n # nx # bs)" by (auto simp: lru_list_def)
  from seg have n: "nnext (h n) = Some nx" "nprev (h n) = Some pv"
    by (simp_all add: dseg_append)
  from dist n show "push_unlink n b h = (b, set_next (set_prev h nx (Some pv)) pv (Some nx))"
    by (auto simp: push_unlink_def Let_def)
  show "dseg (set_next (set_prev h nx (Some pv)) pv (Some nx)) None ((as @ [pv]) @ nx # bs) q"
    using seg dist by (auto simp: dseg_append)
qed

lemma push_unlink_tail:
  assumes ok: "lru_list b h ((as @ [pv]) @ [n]) None"
  shows "push_unlink n b h = (b\<lparr>bTail := Some pv\<rparr>, set_next h pv None)"
    and "dseg (set_next h pv None) None (as @ [pv]) None"
proof -
  from ok have seg: "dseg h None ((as @ [pv]) @ [n]) None" and dist: "distinct ((as @ [pv]) @ [n])"
    by (auto simp: lru_list_def)
  from seg have n: "nnext (h n) = None" "nprev (h n) = Some pv" by (simp_all add: dseg_append)
  then show "push_unlink n b h = (b\<lparr>bTail := Some pv\<rparr>, set_next h pv None)"
    by (simp add: push_unlink_def Let_def)
  show "dseg (set_next h pv None) None (as @ [pv]) None"
    using seg dist by (auto simp: dseg_append)
qed

lemma push_unlink_new:
  assumes "nnext (h n) = None" and "nprev (h n) = None"
  shows "push_unlink n b h = (b\<lparr>bLen := bLen b + 1\<rparr>, h)"
  using assms by (simp add: push_unlink_def)

lemma push_front_nonempty:
  assumes seg: "dseg h None (x # ys) q" and dist: "distinct (n # x # ys)" and q: "q \<noteq> Some n"
    and head: "bHead b = Some x"
  shows "push_front n b h = (b\<lparr>bHead := Some n\<rparr>,
      set_prev (set_next (set_prev h x (Some n)) n (Some x)) n None)"
    and "dseg (set_prev (set_next (set_prev h x (Some n)) n (Some x)) n None) None (n # x # ys) q"
  using assms by (auto simp: push_front_def)

text \<open>Push changes links only, never what a node holds.\<close>

lemma push_unlink_payload [simp]:
  "nkey (snd (push_unlink n b h) a) = nkey (h a)"
  "ndata (snd (push_unlink n b h) a) = ndata (h a)"
  "nexpiresAt (snd (push_unlink n b h) a) = nexpiresAt (h a)"
  by (auto simp: push_unlink_def Let_def split: option.splits)

lemma push_front_payload [simp]:
  "nkey (snd (push_front n b h) a) = nkey (h a)"
  "ndata (snd (push_front n b h) a) = ndata (h a)"
  "nexpiresAt (snd (push_front n b h) a) = nexpiresAt (h a)"
  by (auto simp: push_front_def split: option.splits)

lemma Push_payload [simp]:
  "nkey (snd (Push n b h) a) = nkey (h a)"
  "ndata (snd (Push n b h) a) = ndata (h a)"
  "nexpiresAt (snd (Push n b h) a) = nexpiresAt (h a)"
  using push_front_payload [of n "fst (push_unlink n b h)" "snd (push_unlink n b h)" a]
  by (auto simp: Push_def split: prod.splits simp del: push_front_payload)

lemma Push_config [simp]:
  "bType (fst (Push n b h)) = bType b" "bPrecisions (fst (Push n b h)) = bPrecisions b"
  "bMaxLen (fst (Push n b h)) = bMaxLen b" "bDefaultTtl (fst (Push n b h)) = bDefaultTtl b"
  by (auto simp: Push_def push_unlink_def push_front_def Let_def split: option.splits prod.splits)

lemma Push_len: "bLen (fst (Push n b h)) \<le> bLen b + 1"
  by (auto simp: Push_def push_unlink_def push_front_def Let_def split: option.splits prod.splits)

lemma Push_new:
  assumes ok: "lru_list b h xs q" and n: "n \<notin> set xs" "q \<noteq> Some n"
    and links: "nnext (h n) = None" "nprev (h n) = None"
  shows "lru_list (fst (Push n b h)) (snd (Push n b h)) (n # xs) q"
    and "a \<notin> insert n (set xs) \<Longrightarrow> snd (Push n b h) a = h a"
proof -
  let ?b = "b\<lparr>bLen := bLen b + 1\<rparr>"
  from ok n have "bHead b \<noteq> Some n" by (cases xs) (auto simp: lru_list_def)
  then have push: "Push n b h = push_front n ?b h"
    using links by (simp add: Push_def push_unlink_new)
  have "lru_list (fst (Push n b h)) (snd (Push n b h)) (n # xs) q
    \<and> (a \<notin> insert n (set xs) \<longrightarrow> snd (Push n b h) a = h a)"
  proof (cases xs)
    case Nil
    with ok push links show ?thesis by (simp add: push_front_def lru_list_def)
  next
    case (Cons x ys)
    with ok n have "dseg h None (x # ys) q" "distinct (n # x # ys)" "bHead ?b = Some x"
      by (auto simp: lru_list_def)
    note front = push_front_nonempty [OF this(1,2) n(2) this(3)]
    show ?thesis
      using ok n Cons front(2) unfolding push front(1)
      by (auto simp: lru_list_def set_next_def set_prev_def)
  qed
  then show "lru_list (fst (Push n b h)) (snd (Push n b h)) (n # xs) q"
    and "a \<notin> insert n (set xs) \<Longrightarrow> snd (Push n b h) a = h a" by blast+
qed

lemma lru_listI_front:
  assumes "dseg h None (n # x # ys) q" and "distinct (n # x # ys)"
    and "\<And>z. q = Some z \<Longrightarrow> z \<notin> set (n # x # ys)" and "bHead b = Some n"
    and "bTail b = last_or None (x # ys)" and "bLen b = int (length (n # x # ys))"
  shows "lru_list b h (n # x # ys) q"
  using assms unfolding lru_list_def by simp

lemma in_list_split:
  "n \<in> set xs \<Longrightarrow> distinct xs \<Longrightarrow> \<exists>as bs. xs = as @ n # bs \<and> remove1 n xs = as @ bs"
  by (metis in_set_conv_decomp distinct.simps(2) distinct_append remove1_append remove1.simps(2)
      not_distinct_conv_prefix in_set_conv_decomp_first)

lemma Push_old:
  assumes ok: "lru_list b h xs q" and n: "n \<in> set xs" and last: "q = None \<or> n \<noteq> last xs"
  shows "lru_list (fst (Push n b h)) (snd (Push n b h)) (n # remove1 n xs) q"
    and "a \<notin> set xs \<Longrightarrow> snd (Push n b h) a = h a"
proof -
  from ok have "distinct xs" by (simp add: lru_list_def)
  with n obtain as bs where xs: "xs = as @ n # bs" and rem: "remove1 n xs = as @ bs"
    using in_list_split by metis
  have "lru_list (fst (Push n b h)) (snd (Push n b h)) (n # as @ bs) q
    \<and> (a \<notin> set xs \<longrightarrow> snd (Push n b h) a = h a)"
  proof (cases as rule: rev_cases)
    case Nil
    with ok xs have "Push n b h = (b, h)" by (simp add: Push_def lru_list_def)
    with Nil ok xs show ?thesis by simp
  next
    case (snoc as' pv)
    have "as \<noteq> []" using snoc by simp
    then obtain x ys where hd: "as = x # ys" by (auto simp: neq_Nil_conv)
    from ok xs hd have head: "bHead b = Some x" and nx: "n \<noteq> x" by (auto simp: lru_list_def)
    show ?thesis
    proof (cases bs)
      case Nil
      with last xs have q: "q = None" by simp
      from ok xs snoc Nil q have "lru_list b h ((as' @ [pv]) @ [n]) None" by simp
      note un = push_unlink_tail [OF this]
      let ?b = "b\<lparr>bTail := Some pv\<rparr>" and ?h = "set_next h pv None"
      from un(2) snoc hd have seg: "dseg ?h None (x # ys) None" by simp
      have dist: "distinct (n # x # ys)" using ok xs hd by (auto simp: lru_list_def)
      note front = push_front_nonempty [OF seg dist, of ?b]
      have push: "Push n b h = push_front n ?b ?h" using head nx un(1) by (simp add: Push_def)
      from head have "push_front n ?b ?h = (?b\<lparr>bHead := Some n\<rparr>,
          set_prev (set_next (set_prev ?h x (Some n)) n (Some x)) n None)"
        using front(1) by simp
      note res = this
      have tail: "last_or None (x # ys) = Some pv" using snoc hd by (metis last_or.simps last_or_append)
      have "pv \<in> set as" using snoc by simp
      with xs have pv: "pv \<in> set xs" by simp
      have len: "bLen b = int (length (n # x # ys))" and out: "x \<in> set xs"
        using ok xs hd Nil by (auto simp: lru_list_def)
      have "lru_list (fst (Push n b h)) (snd (Push n b h)) (n # x # ys) q"
        unfolding push res by (rule lru_listI_front) (use front(2) head q dist tail len in auto)
      moreover have "a \<notin> set xs \<longrightarrow> snd (Push n b h) a = h a"
        using n out pv unfolding push res by (auto simp: set_next_def set_prev_def)
      ultimately show ?thesis using hd Nil by simp
    next
      case (Cons nxt bs')
      from ok xs snoc Cons have "lru_list b h ((as' @ [pv]) @ n # nxt # bs') q" by simp
      note un = push_unlink_middle [OF this]
      let ?h = "set_next (set_prev h nxt (Some pv)) pv (Some nxt)"
      have "x # ys @ bs = (as' @ [pv]) @ nxt # bs'" using snoc hd Cons by simp
      with un(2) have seg: "dseg ?h None (x # ys @ bs) q" by metis
      have dist: "distinct (n # x # ys @ bs)" using ok xs hd by (auto simp: lru_list_def)
      have qn: "q \<noteq> Some n" using ok xs by (auto simp: lru_list_def)
      note front = push_front_nonempty [OF seg dist qn head]
      have push: "Push n b h = push_front n b ?h" using head nx un(1) by (simp add: Push_def)
      have "pv \<in> set as" using snoc by simp
      with xs have pv: "pv \<in> set xs" by simp
      have tail: "bTail b = last_or None (x # ys @ bs)" and len: "bLen b = int (length (n # x # ys @ bs))"
        and out: "x \<in> set xs" "nxt \<in> set xs" and qs: "\<forall>z. q = Some z \<longrightarrow> z \<notin> set xs"
        using ok xs hd Cons by (auto simp: lru_list_def)
      have "lru_list (fst (Push n b h)) (snd (Push n b h)) (n # x # ys @ bs) q"
        unfolding push front(1)
        by (rule lru_listI_front) (use front(2) dist tail len qs xs hd in auto)
      moreover have "a \<notin> set xs \<longrightarrow> snd (Push n b h) a = h a"
        using n out pv unfolding push front(1) by (auto simp: set_next_def set_prev_def)
      ultimately show ?thesis using hd by simp
    qed
  qed
  with rem show "lru_list (fst (Push n b h)) (snd (Push n b h)) (n # remove1 n xs) q"
    and "a \<notin> set xs \<Longrightarrow> snd (Push n b h) a = h a" by auto
qed

section \<open>Walking the list\<close>

text \<open>
  The traversals of the eviction worker and of the rebalancer: all nodes from \<open>p\<close> on along
  \<open>next\<close>, \<open>None\<close> if the walk does not end.
\<close>

partial_function (option) walk :: "heap \<Rightarrow> addr option \<Rightarrow> addr list option" where
  "walk h p =
     (case p of None \<Rightarrow> Some []
      | Some n \<Rightarrow> Option.bind (walk h (nnext (h n))) (\<lambda>ns. Some (n # ns)))"

lemma walk_None [simp]: "walk h None = Some []"
  by (simp add: walk.simps)

lemma walk_Some: "walk h (Some n) = map_option ((#) n) (walk h (nnext (h n)))"
  by (subst walk.simps) (simp add: map_conv_bind_option o_def)

lemma find_node_None [simp]: "find_node h key None = Some None"
  by (simp add: find_node.simps)

lemma find_node_Some:
  "find_node h key (Some n) =
     (if nkey (h n) = key then Some (Some n) else find_node h key (nnext (h n)))"
  by (subst find_node.simps) simp

lemma walk_dseg:
  "dseg h p xs q \<Longrightarrow> walk h (first_or q xs) = map_option ((@) xs) (walk h q)"
proof (induction xs arbitrary: p)
  case Nil
  then show ?case by (simp add: option.map_ident)
next
  case (Cons x xs)
  then have "walk h (nnext (h x)) = map_option ((@) xs) (walk h q)" by auto
  then show ?case by (simp add: walk_Some option.map_comp o_def)
qed

lemma walk_list: "lru_list b h xs None \<Longrightarrow> walk h (bHead b) = Some xs"
  using walk_dseg [of h None xs None] by (simp add: lru_list_def)

lemma find_node_dseg:
  "dseg h p xs q \<Longrightarrow> find_node h key (first_or q xs) =
     (case find (\<lambda>a. nkey (h a) = key) xs of
        Some a \<Rightarrow> Some (Some a) | None \<Rightarrow> find_node h key q)"
  by (induction xs arbitrary: p) (auto simp: find_node_Some)

section \<open>Delete removes one node\<close>

lemma delete_node_payload [simp]:
  assumes "a \<noteq> n"
  shows "nkey (snd (delete_node n b h) a) = nkey (h a)"
    "ndata (snd (delete_node n b h) a) = ndata (h a)"
    "nexpiresAt (snd (delete_node n b h) a) = nexpiresAt (h a)"
  using assms by (auto simp: delete_node_def Let_def split: option.splits)

lemma delete_node_self [simp]:
  "nkey (snd (delete_node n b h) n) = nkey (h n)"
  "nnext (snd (delete_node n b h) n) = None"
  "nprev (snd (delete_node n b h) n) = None"
  "ndata (snd (delete_node n b h) n) = ANil"
  by (auto simp: delete_node_def Let_def split: option.splits)

lemma delete_node_config [simp]:
  "bType (fst (delete_node n b h)) = bType b"
  "bPrecisions (fst (delete_node n b h)) = bPrecisions b"
  "bMaxLen (fst (delete_node n b h)) = bMaxLen b"
  "bDefaultTtl (fst (delete_node n b h)) = bDefaultTtl b"
  by (auto simp: delete_node_def Let_def split: option.splits prod.splits)

lemma dseg_upd_outside [simp]:
  "a \<notin> set xs \<Longrightarrow> dseg (h(a := v)) p xs q = dseg h p xs q"
  by (rule dseg_cong) auto

text \<open>The four positions a node can have, in the order of the code's cases.\<close>

lemma delete_only:
  assumes "nnext (h n) = None" and "nprev (h n) = None"
  shows "delete_node n b h = (b\<lparr>bHead := None, bTail := None, bLen := bLen b - 1\<rparr>,
    h(n := (h n)\<lparr>nnext := None, nprev := None, ndata := ANil\<rparr>))"
  using assms by (simp add: delete_node_def)

lemma delete_head:
  assumes "nnext (h n) = Some x" and "nprev (h n) = None" and "x \<noteq> n"
  shows "delete_node n b h = (b\<lparr>bHead := Some x, bLen := bLen b - 1\<rparr>,
    (set_prev h x None)(n := (h n)\<lparr>nnext := None, nprev := None, ndata := ANil\<rparr>))"
  using assms by (auto simp: delete_node_def set_prev_def)

lemma delete_tail:
  assumes "nnext (h n) = None" and "nprev (h n) = Some y" and "y \<noteq> n"
  shows "delete_node n b h = (b\<lparr>bTail := Some y, bLen := bLen b - 1\<rparr>,
    (set_next h y None)(n := (h n)\<lparr>nnext := None, nprev := None, ndata := ANil\<rparr>))"
  using assms by (auto simp: delete_node_def set_next_def)

lemma delete_middle:
  assumes "nnext (h n) = Some x" and "nprev (h n) = Some y" and "x \<noteq> n" and "y \<noteq> n"
  shows "delete_node n b h = (b\<lparr>bLen := bLen b - 1\<rparr>,
    (set_next (set_prev h x (Some y)) y (Some x))
      (n := (h n)\<lparr>nnext := None, nprev := None, ndata := ANil\<rparr>))"
  using assms by (auto simp: delete_node_def set_next_def set_prev_def)

lemma delete_node_list:
  assumes ok: "lru_list b h xs None" and n: "n \<in> set xs"
  shows "lru_list (fst (delete_node n b h)) (snd (delete_node n b h)) (remove1 n xs) None"
    and "a \<notin> set xs \<Longrightarrow> snd (delete_node n b h) a = h a"
proof -
  from ok have dist: "distinct xs" by (simp add: lru_list_def)
  with n obtain as bs where xs: "xs = as @ n # bs" and rem: "remove1 n xs = as @ bs"
    using in_list_split by metis
  have seg: "dseg h None (as @ n # bs) None" using ok xs by (simp add: lru_list_def)
  have nx: "nnext (h n) = first_or None bs" and pv: "nprev (h n) = last_or None as"
    using seg by (simp_all add: dseg_append)
  have "lru_list (fst (delete_node n b h)) (snd (delete_node n b h)) (as @ bs) None
    \<and> (a \<notin> set xs \<longrightarrow> snd (delete_node n b h) a = h a)"
  proof (cases as rule: rev_cases)
    case Nil
    then show ?thesis
      using ok xs nx pv dist seg
      by (cases bs) (auto simp: lru_list_def delete_only delete_head set_prev_def)
  next
    case (snoc as' y)
    then show ?thesis
      using ok xs nx pv dist seg
      by (cases bs) (auto simp: lru_list_def delete_tail delete_middle dseg_append
          set_prev_def set_next_def)
  qed
  with rem show "lru_list (fst (delete_node n b h)) (snd (delete_node n b h)) (remove1 n xs) None"
    and "a \<notin> set xs \<Longrightarrow> snd (delete_node n b h) a = h a" by auto
qed

lemma Delete_list:
  assumes "lru_list b h xs None"
  shows "Delete key b h = (case find (\<lambda>a. nkey (h a) = key) xs of
      None \<Rightarrow> Some (False, b, h)
    | Some n \<Rightarrow> Some (True, fst (delete_node n b h), snd (delete_node n b h)))"
  using assms find_node_dseg [of h None xs None key]
  by (auto simp: Delete_def lru_list_def split: option.splits prod.splits)

section \<open>Recency as an interface\<close>

text \<open>
  What the cache relies on: an element that is in the structure moves to the front when it is
  pushed, one that is not is added at the front. A client that pushes a sequence of elements
  finds them by last use, before all elements it did not push.
\<close>

definition by_recency :: "'a list \<Rightarrow> 'a list \<Rightarrow> 'a list" where
  "by_recency ns xs = rev (remdups ns) @ filter (\<lambda>x. x \<notin> set ns) xs"

lemma by_recency_Nil [simp]: "by_recency [] xs = xs"
  by (simp add: by_recency_def)

lemma remove1_filter: "distinct xs \<Longrightarrow> remove1 n xs = filter (\<lambda>x. x \<noteq> n) xs"
  by (rule distinct_remove1_removeAll [THEN trans]) (auto simp: removeAll_filter_not_eq intro: filter_cong)

lemma remdups_snoc: "remdups (xs @ [x]) = remdups (filter (\<lambda>y. y \<noteq> x) xs) @ [x]"
  by (induction xs) auto

lemma by_recency_snoc:
  "distinct xs \<Longrightarrow> by_recency (ns @ [n]) xs = n # filter (\<lambda>x. x \<noteq> n) (by_recency ns xs)"
  by (auto simp: by_recency_def remdups_snoc remdups_filter rev_filter intro!: filter_cong)

lemma distinct_by_recency: "distinct xs \<Longrightarrow> distinct (by_recency ns xs)"
  by (auto simp: by_recency_def)

lemma set_by_recency: "set (by_recency ns xs) = set ns \<union> set xs"
  by (auto simp: by_recency_def)

locale recency_list =
  fixes holds :: "'s \<Rightarrow> 'a list \<Rightarrow> bool"
    and push :: "'a \<Rightarrow> 's \<Rightarrow> 's"
    and unlinked :: "'s \<Rightarrow> 'a \<Rightarrow> bool"
  assumes holds_distinct: "holds s xs \<Longrightarrow> distinct xs"
    and push_member: "holds s xs \<Longrightarrow> x \<in> set xs \<Longrightarrow> holds (push x s) (x # remove1 x xs)"
    and push_fresh: "holds s xs \<Longrightarrow> x \<notin> set xs \<Longrightarrow> unlinked s x \<Longrightarrow> holds (push x s) (x # xs)"
begin

lemma push_all_members:
  assumes "holds s xs" and "set ns \<subseteq> set xs"
  shows "holds (fold push ns s) (by_recency ns xs)"
  using assms(2)
proof (induction ns rule: rev_induct)
  case Nil
  with assms(1) show ?case by simp
next
  case (snoc n ns)
  then have IH: "holds (fold push ns s) (by_recency ns xs)" and n: "n \<in> set (by_recency ns xs)"
    by (auto simp: set_by_recency)
  have dist: "distinct xs" using assms(1) by (rule holds_distinct)
  from push_member [OF IH n] show ?case
    using dist by (simp add: by_recency_snoc remove1_filter distinct_by_recency)
qed

lemma push_all_head:
  assumes "holds s xs" and "set (ns @ [n]) \<subseteq> set xs"
  shows "\<exists>ys. holds (fold push (ns @ [n]) s) (n # ys) \<and> set (n # ys) = set xs"
proof -
  have eq: "by_recency (ns @ [n]) xs = n # filter (\<lambda>x. x \<noteq> n) (by_recency ns xs)"
    using holds_distinct [OF assms(1)] by (rule by_recency_snoc)
  show ?thesis
    using push_all_members [OF assms] set_by_recency [of "ns @ [n]" xs] assms(2) unfolding eq
    by blast
qed

end

definition push_state :: "addr \<Rightarrow> lruBucket \<times> heap \<Rightarrow> lruBucket \<times> heap" where
  "push_state n = (\<lambda>(b, h). Push n b h)"

definition proper_list :: "lruBucket \<times> heap \<Rightarrow> addr list \<Rightarrow> bool" where
  "proper_list = (\<lambda>(b, h) xs. lru_list b h xs None)"

definition no_neighbours :: "lruBucket \<times> heap \<Rightarrow> addr \<Rightarrow> bool" where
  "no_neighbours = (\<lambda>(b, h) n. nnext (h n) = None \<and> nprev (h n) = None)"

interpretation lru: recency_list proper_list push_state no_neighbours
proof
  fix s :: "lruBucket \<times> heap" and xs x
  assume ok: "proper_list s xs"
  obtain b h where s: "s = (b, h)" by fastforce
  from ok s have l: "lru_list b h xs None" by (simp add: proper_list_def)
  show "distinct xs" using l by (simp add: lru_list_def)
  show "proper_list (push_state x s) (x # remove1 x xs)" if "x \<in> set xs"
    using Push_old(1) [OF l that] s by (simp add: proper_list_def push_state_def case_prod_beta)
  show "proper_list (push_state x s) (x # xs)" if "x \<notin> set xs" "no_neighbours s x"
    using Push_new(1) [OF l that(1)] that(2) s
    by (simp add: proper_list_def push_state_def no_neighbours_def case_prod_beta)
qed

section \<open>Properties\<close>

text \<open>
  \<open>Push\<close> keeps the doubly linked list well formed and is move-to-front: a node of the
  bucket goes to the front with the others in their order, a new node is added and counted;
  head, tail, length and both link directions agree afterwards, no node outside the list is
  written, and no key, value or expiry changes.
\<close>

theorem Push_moves_to_front:
  assumes "lru_list b h xs None"
    and "n \<in> set xs \<or> nnext (h n) = None \<and> nprev (h n) = None"
  shows "lru_list (fst (Push n b h)) (snd (Push n b h)) (n # remove1 n xs) None
    \<and> (\<forall>a. a \<notin> insert n (set xs) \<longrightarrow> snd (Push n b h) a = h a)
    \<and> (\<forall>a. nkey (snd (Push n b h) a) = nkey (h a) \<and> ndata (snd (Push n b h) a) = ndata (h a)
          \<and> nexpiresAt (snd (Push n b h) a) = nexpiresAt (h a))"
proof (cases "n \<in> set xs")
  case True
  with Push_old [OF assms(1) True] show ?thesis by auto
next
  case False
  with assms Push_new [OF assms(1) False] show ?thesis by (auto simp: remove1_idem)
qed

definition example_bucket :: lruBucket where
  "example_bucket = \<lparr>bType = bucketTypeRegular, bPrecisions = [], bHead = Some 0, bTail = Some 1,
     bLen = 2, bMaxLen = 2, bDefaultTtl = 0\<rparr>"

definition example_heap :: heap where
  "example_heap = (\<lambda>_. nil_node)
     (0 := \<lparr>nnext = Some 1, nprev = None, nkey = ''a'', ndata = AInt 1, nexpiresAt = None\<rparr>,
      1 := \<lparr>nnext = None, nprev = Some 0, nkey = ''b'', ndata = AInt 2, nexpiresAt = Some 9\<rparr>)"

lemma example_list: "lru_list example_bucket example_heap [0, 1] None"
  by (simp add: lru_list_def example_bucket_def example_heap_def)

theorem Push_moves_to_front_witness:
  "lru_list (fst (Push 1 example_bucket example_heap)) (snd (Push 1 example_bucket example_heap))
     [1, 0] None"
  using Push_moves_to_front [OF example_list, of 1] by simp

text \<open>
  After any sequence of accesses to nodes of a bucket the list is ordered by last use: the
  accessed nodes by their latest access, then all others in their previous order; so the
  tail, the node an eviction takes, is the least recently used one.
\<close>

theorem list_is_by_recency:
  assumes "lru_list b h xs None" and "set ns \<subseteq> set xs"
  shows "proper_list (fold push_state ns (b, h)) (rev (remdups ns) @ filter (\<lambda>x. x \<notin> set ns) xs)"
  using lru.push_all_members [of "(b, h)" xs ns] assms by (simp add: proper_list_def by_recency_def)

theorem list_is_by_recency_witness:
  "proper_list (fold push_state [1, 0, 1] (example_bucket, example_heap)) [1, 0]"
  using list_is_by_recency [OF example_list, of "[1, 0, 1]"] by simp

text \<open>
  \<open>Delete\<close> on a well-formed bucket always returns; it reports whether a node has the key,
  changes nothing if there is none, and otherwise takes out exactly the first such node: the
  remaining list is well formed and in order, the length is one less, nodes outside the list
  are untouched, and no other node's key, value or expiry changes.
\<close>

theorem Delete_removes_key:
  assumes "lru_list b h xs None"
  shows "\<exists>found b' h'. Delete key b h = Some (found, b', h')
    \<and> (found \<longleftrightarrow> key \<in> (\<lambda>a. nkey (h a)) ` set xs)
    \<and> (\<not> found \<longrightarrow> b' = b \<and> h' = h)
    \<and> (found \<longrightarrow> (\<exists>n. find (\<lambda>a. nkey (h a) = key) xs = Some n \<and> lru_list b' h' (remove1 n xs) None
         \<and> (\<forall>a. a \<notin> set xs \<longrightarrow> h' a = h a)
         \<and> (\<forall>a. a \<noteq> n \<longrightarrow> nkey (h' a) = nkey (h a) \<and> ndata (h' a) = ndata (h a)
              \<and> nexpiresAt (h' a) = nexpiresAt (h a))))"
proof (cases "find (\<lambda>a. nkey (h a) = key) xs")
  case None
  then have "key \<notin> (\<lambda>a. nkey (h a)) ` set xs" by (auto simp: find_None_iff)
  with None show ?thesis using Delete_list [OF assms, of key] by auto
next
  case (Some n)
  then have n: "n \<in> set xs" "nkey (h n) = key" by (auto simp: find_Some_iff)
  show ?thesis
    using Delete_list [OF assms, of key] Some n delete_node_list [OF assms n(1)]
    by (intro exI [of _ True] exI [of _ "fst (delete_node n b h)"]
        exI [of _ "snd (delete_node n b h)"]) auto
qed

theorem Delete_removes_key_witness:
  "\<exists>b' h'. Delete ''a'' example_bucket example_heap = Some (True, b', h') \<and> lru_list b' h' [1] None"
  using Delete_removes_key [OF example_list, of "''a''"]
  by (auto simp: example_heap_def)

end
