(* ===== verification/Local_Cache.thy ===== *)
theory Local_Cache
  imports Lru_List "HOL-Library.Sublist"
begin

text \<open>
  The node-local store (\<open>internal/mycel/local.go\<close>, and the bucket and \<open>keyVal\<close> maps of
  \<open>ds.go\<close>): creation of buckets, \<open>getLocal\<close>, \<open>setLocal\<close> with its LRU eviction,
  \<open>deleteLocal\<close> and \<open>setTtlLocal\<close>; the invariant that ties the \<open>keyVal\<close> map to the bucket
  lists; the abstract store (per bucket a list of entries, most recent first) and the proof
  that the operations implement it; and what happens where they do not.

  Every operation takes the instant \<open>time.Now()\<close> returns as \<open>now\<close>. Locks are not modelled:
  each operation runs alone.
\<close>

section \<open>The operations\<close>

definition GetBucket :: "string \<Rightarrow> cache \<Rightarrow> error + lruBucket" where
  "GetBucket name c = (case lruBuckets c name of None \<Rightarrow> Inl ErrBucketNotFound | Some b \<Rightarrow> Inr b)"

definition CreateBucket ::
    "string \<Rightarrow> duration \<Rightarrow> int \<Rightarrow> cache \<Rightarrow> (unit, cache) outcome" where
  "CreateBucket name ttl maxLen c =
     (if lruBuckets c name \<noteq> None then Ret (Inl ErrBucketExists) c
      else Ret (Inr ()) (c\<lparr>lruBuckets := (lruBuckets c)(name \<mapsto>
        \<lparr>bType = bucketTypeRegular, bPrecisions = [], bHead = None, bTail = None, bLen = 0,
         bMaxLen = maxLen, bDefaultTtl = ttl\<rparr>)\<rparr>))"

definition CreateGeoBucketInternal ::
    "string \<Rightarrow> duration \<Rightarrow> int \<Rightarrow> nat list \<Rightarrow> cache \<Rightarrow> (unit, cache) outcome" where
  "CreateGeoBucketInternal name ttl maxLen precs c =
     (if lruBuckets c name \<noteq> None then Ret (Inl ErrBucketExists) c
      else Ret (Inr ()) (c\<lparr>lruBuckets := (lruBuckets c)(name \<mapsto>
        \<lparr>bType = bucketTypeGeo, bPrecisions = precs, bHead = None, bTail = None, bLen = 0,
         bMaxLen = maxLen, bDefaultTtl = ttl\<rparr>)\<rparr>))"

definition keyVal_Get :: "string \<Rightarrow> cache \<Rightarrow> addr option" where
  "keyVal_Get k c = keyVal c k"

definition keyVal_Set :: "string \<Rightarrow> addr \<Rightarrow> cache \<Rightarrow> cache" where
  "keyVal_Set k n c = c\<lparr>keyVal := (keyVal c)(k \<mapsto> n)\<rparr>"

definition keyVal_Delete :: "string \<Rightarrow> cache \<Rightarrow> cache" where
  "keyVal_Delete k c = c\<lparr>keyVal := (keyVal c)(k := None)\<rparr>"

definition recordBucketSize :: "string \<Rightarrow> int \<Rightarrow> cache \<Rightarrow> cache" where
  "recordBucketSize bucket delta c =
     c\<lparr>sizeGauge := (sizeGauge c)(bucket := sizeGauge c bucket + delta)\<rparr>"

definition recordLruEviction :: "string \<Rightarrow> cache \<Rightarrow> cache" where
  "recordLruEviction bucket c =
     c\<lparr>lruEvictions := (lruEvictions c)(bucket := Suc (lruEvictions c bucket))\<rparr>"

text \<open>Store a bucket and the heap back after an operation on its list.\<close>

definition put_list :: "string \<Rightarrow> lruBucket \<times> heap \<Rightarrow> cache \<Rightarrow> cache" where
  "put_list bucket bh c =
     c\<lparr>heapOf := snd bh, lruBuckets := (lruBuckets c)(bucket \<mapsto> fst bh)\<rparr>"

definition getLocal :: "string \<Rightarrow> string \<Rightarrow> cache \<Rightarrow> (goany, cache) outcome" where
  "getLocal bucket key c =
     (case keyVal_Get (bucket @ key) c of
        None \<Rightarrow> Ret (Inl ERR_NOT_FOUND) c
      | Some n \<Rightarrow> (case GetBucket bucket c of
            Inl e \<Rightarrow> Ret (Inl e) c
          | Inr b \<Rightarrow> let c' = put_list bucket (Push n b (heapOf c)) c
                     in Ret (Inr (ndata (heapOf c' n))) c'))"

text \<open>
  The eviction block of \<open>setLocal\<close>. It detaches the tail node from the bucket's \<open>tail\<close>
  pointer and clears it, but does not write the \<open>next\<close> pointer of the new tail.
\<close>

definition evictTail :: "string \<Rightarrow> string \<Rightarrow> lruBucket \<Rightarrow> cache \<Rightarrow> (unit, cache) outcome" where
  "evictTail bucket key b c =
     (case bTail b of
        None \<Rightarrow> Panic
      | Some e \<Rightarrow>
          let h = heapOf c;
              b' = b\<lparr>bTail := nprev (h e), bLen := bLen b - 1\<rparr>;
              h' = h(e := (h e)\<lparr>nnext := None, nprev := None, ndata := ANil\<rparr>);
              c1 = keyVal_Delete (bucket @ nkey (h e)) (put_list bucket (b', h') c);
              c2 = c1\<lparr>nodeScoreHashMap := (nodeScoreHashMap c1)(bucket @ key := None)\<rparr>
          in Ret (Inr ()) (recordBucketSize bucket (-1) (recordLruEviction bucket c2)))"

definition expiry :: "instant \<Rightarrow> duration \<Rightarrow> gotime" where
  "expiry now ttl = (if ttl \<noteq> 0 then Some (now + ttl) else zero_time)"

definition setLocal ::
    "instant \<Rightarrow> string \<Rightarrow> string \<Rightarrow> goany \<Rightarrow> duration \<Rightarrow> cache \<Rightarrow> (unit, cache) outcome" where
  "setLocal now bucket key v ttl c =
     (case GetBucket bucket c of
        Inl e \<Rightarrow> Ret (Inl e) c
      | Inr b \<Rightarrow>
        (case keyVal_Get (bucket @ key) c of
           Some n \<Rightarrow>
             let h = (heapOf c)(n := (heapOf c n)\<lparr>ndata := v, nexpiresAt := expiry now ttl\<rparr>)
             in Ret (Inr ()) (put_list bucket (Push n b h) c)
         | None \<Rightarrow>
             let n = freshAddr c;
                 h = (heapOf c)(n := \<lparr>nnext = None, nprev = None, nkey = key, ndata = v,
                                      nexpiresAt = expiry now ttl\<rparr>);
                 c1 = keyVal_Set (bucket @ key) n (c\<lparr>freshAddr := Suc n\<rparr>);
                 bh = Push n b h;
                 c2 = recordBucketSize bucket 1 (put_list bucket bh c1)
             in if bMaxLen (fst bh) < bLen (fst bh) then evictTail bucket key (fst bh) c2
                else Ret (Inr ()) c2))"

definition deleteLocal :: "string \<Rightarrow> string \<Rightarrow> cache \<Rightarrow> (unit, cache) outcome" where
  "deleteLocal bucket key c =
     (case GetBucket bucket c of
        Inl e \<Rightarrow> Ret (Inl e) c
      | Inr b \<Rightarrow>
        (case Delete key b (heapOf c) of
           None \<Rightarrow> Hang
         | Some (False, bh) \<Rightarrow> Ret (Inl ERR_NOT_FOUND) c
         | Some (True, bh) \<Rightarrow>
             let c1 = keyVal_Delete (bucket @ key) (put_list bucket bh c);
                 c2 = c1\<lparr>nodeScoreHashMap := (nodeScoreHashMap c1)(bucket @ key := None)\<rparr>
             in Ret (Inr ()) (recordBucketSize bucket (-1) c2)))"

definition setTtlLocal ::
    "instant \<Rightarrow> string \<Rightarrow> string \<Rightarrow> duration \<Rightarrow> cache \<Rightarrow> (unit, cache) outcome" where
  "setTtlLocal now bucket key ttl c =
     (case keyVal_Get (bucket @ key) c of
        None \<Rightarrow> Ret (Inl ERR_NOT_FOUND) c
      | Some n \<Rightarrow> Ret (Inr ()) (keyVal_Set (bucket @ key) n
          (c\<lparr>heapOf := (heapOf c)(n := (heapOf c n)\<lparr>nexpiresAt := Some (now + ttl)\<rparr>)\<rparr>)))"

lemmas cache_updates =
  keyVal_Get_def keyVal_Set_def keyVal_Delete_def recordBucketSize_def recordLruEviction_def
  put_list_def

lemma GetBucket_simps [simp]:
  "lruBuckets c bn = Some b \<Longrightarrow> GetBucket bn c = Inr b"
  "lruBuckets c bn = None \<Longrightarrow> GetBucket bn c = Inl ErrBucketNotFound"
  by (simp_all add: GetBucket_def)

section \<open>The abstract store\<close>

text \<open>
  Per bucket a capacity and the entries, most recently used first. This is what the comments
  in \<open>ds.go\<close> promise: reads and writes move an entry to the top.
\<close>

type_synonym entry = "string \<times> goany \<times> gotime"
type_synonym store = "string \<rightharpoonup> int \<times> entry list"

definition keys_of :: "entry list \<Rightarrow> string set" where
  "keys_of es = fst ` set es"

definition lookup :: "string \<Rightarrow> entry list \<Rightarrow> (goany \<times> gotime) option" where
  "lookup k es = map_of es k"

definition a_without :: "string \<Rightarrow> entry list \<Rightarrow> entry list" where
  "a_without k es = filter (\<lambda>e. fst e \<noteq> k) es"

definition a_set :: "string \<Rightarrow> goany \<Rightarrow> gotime \<Rightarrow> entry list \<Rightarrow> entry list" where
  "a_set k v t es = (k, v, t) # a_without k es"

definition a_touch :: "string \<Rightarrow> entry list \<Rightarrow> entry list" where
  "a_touch k es = (case lookup k es of None \<Rightarrow> es | Some vt \<Rightarrow> (k, vt) # a_without k es)"

definition a_expire :: "string \<Rightarrow> gotime \<Rightarrow> entry list \<Rightarrow> entry list" where
  "a_expire k t es = map (\<lambda>(k', v, t'). if k' = k then (k', v, t) else (k', v, t')) es"

section \<open>The invariant\<close>

text \<open>
  \<open>keyVal\<close> is indexed by bucket name and key put together, so two buckets do not interfere
  only if no bucket name is a prefix of another one.
\<close>

definition prefix_free :: "string set \<Rightarrow> bool" where
  "prefix_free S \<longleftrightarrow> (\<forall>x \<in> S. \<forall>y \<in> S. prefix x y \<longrightarrow> x = y)"

definition entry_of :: "heap \<Rightarrow> addr \<Rightarrow> entry" where
  "entry_of h a = (nkey (h a), ndata (h a), nexpiresAt (h a))"

text \<open>
  \<open>L\<close> gives the nodes of every bucket. Each bucket is a proper list of its nodes, within its
  capacity; the lists are disjoint; \<open>keyVal\<close> is exactly the index of the listed nodes; and the size
  instrument counts them.
\<close>

definition cache_ok :: "cache \<Rightarrow> (string \<Rightarrow> addr list) \<Rightarrow> bool" where
  "cache_ok c L \<longleftrightarrow>
     prefix_free (dom (lruBuckets c)) \<and>
     (\<forall>bn b. lruBuckets c bn = Some b \<longrightarrow>
        lru_list b (heapOf c) (L bn) None \<and> bLen b \<le> bMaxLen b) \<and>
     (\<forall>bn. lruBuckets c bn = None \<longrightarrow> L bn = []) \<and>
     (\<forall>bn bn'. bn \<noteq> bn' \<longrightarrow> set (L bn) \<inter> set (L bn') = {}) \<and>
     (\<forall>bn a. a \<in> set (L bn) \<longrightarrow> a < freshAddr c) \<and>
     (\<forall>k a. keyVal c k = Some a \<longleftrightarrow> (\<exists>bn. a \<in> set (L bn) \<and> k = bn @ nkey (heapOf c a))) \<and>
     (\<forall>bn. sizeGauge c bn = int (length (L bn)))"

definition store_of :: "cache \<Rightarrow> (string \<Rightarrow> addr list) \<Rightarrow> store" where
  "store_of c L bn =
     map_option (\<lambda>b. (bMaxLen b, map (entry_of (heapOf c)) (L bn))) (lruBuckets c bn)"

definition refines :: "cache \<Rightarrow> store \<Rightarrow> bool" where
  "refines c A \<longleftrightarrow> (\<exists>L. cache_ok c L \<and> A = store_of c L)"

lemma cache_okD:
  assumes "cache_ok c L"
  shows "prefix_free (dom (lruBuckets c))"
    and "lruBuckets c bn = Some b \<Longrightarrow> lru_list b (heapOf c) (L bn) None"
    and "lruBuckets c bn = Some b \<Longrightarrow> bLen b \<le> bMaxLen b"
    and "lruBuckets c bn = None \<Longrightarrow> L bn = []"
    and "bn \<noteq> bn' \<Longrightarrow> set (L bn) \<inter> set (L bn') = {}"
    and "a \<in> set (L bn) \<Longrightarrow> a < freshAddr c"
    and "keyVal c k = Some a \<longleftrightarrow> (\<exists>bn. a \<in> set (L bn) \<and> k = bn @ nkey (heapOf c a))"
    and "sizeGauge c bn = int (length (L bn))"
  using assms unfolding cache_ok_def by blast+

lemma cache_ok_distinct:
  assumes "cache_ok c L"
  shows "distinct (L bn)"
proof (cases "lruBuckets c bn")
  case None
  with cache_okD(4) [OF assms] show ?thesis by simp
next
  case (Some b)
  with cache_okD(2) [OF assms] show ?thesis by (simp add: lru_list_def)
qed

lemma cache_ok_disjoint:
  "cache_ok c L \<Longrightarrow> a \<in> set (L bn) \<Longrightarrow> a \<in> set (L bn') \<Longrightarrow> bn = bn'"
  using cache_okD(5) by blast

lemma prefix_free_append:
  "prefix_free S \<Longrightarrow> x \<in> S \<Longrightarrow> y \<in> S \<Longrightarrow> x @ s = y @ t \<Longrightarrow> x = y"
  unfolding prefix_free_def by (metis prefixI prefix_same_cases)

text \<open>Within a bucket \<open>keyVal\<close> finds the node with the key.\<close>

lemma keyVal_in_bucket:
  assumes ok: "cache_ok c L" and b: "lruBuckets c bn = Some b"
    and kv: "keyVal c (bn @ key) = Some a"
  shows "a \<in> set (L bn) \<and> nkey (heapOf c a) = key"
proof -
  from cache_okD(7) [OF ok] kv obtain bn' where a: "a \<in> set (L bn')"
    and eq: "bn @ key = bn' @ nkey (heapOf c a)" by metis
  from a cache_okD(4) [OF ok] have "bn' \<in> dom (lruBuckets c)" by fastforce
  with b eq cache_okD(1) [OF ok] have "bn = bn'"
    by (metis domI prefix_free_append)
  with a eq show ?thesis by simp
qed

lemma keyVal_find:
  assumes ok: "cache_ok c L" and b: "lruBuckets c bn = Some b"
  shows "keyVal c (bn @ key) = find (\<lambda>a. nkey (heapOf c a) = key) (L bn)"
proof (cases "keyVal c (bn @ key)")
  case None
  then have "\<And>a. a \<in> set (L bn) \<Longrightarrow> nkey (heapOf c a) \<noteq> key"
    using cache_okD(7) [OF ok] by (metis option.distinct(1))
  with None show ?thesis by (simp add: find_None_iff find_None_iff2)
next
  case (Some a)
  then have a: "a \<in> set (L bn)" "nkey (heapOf c a) = key"
    using keyVal_in_bucket [OF ok b] by auto
  then obtain a' where a': "find (\<lambda>a. nkey (heapOf c a) = key) (L bn) = Some a'"
    by (metis (mono_tags, lifting) find_None_iff not_Some_eq)
  then have "a' \<in> set (L bn)" "nkey (heapOf c a') = key" by (auto simp: find_Some_iff)
  then have "keyVal c (bn @ key) = Some a'" using cache_okD(7) [OF ok] by metis
  with Some a' show ?thesis by simp
qed

text \<open>An operation on one bucket keeps the invariant if it keeps its own list and the index.\<close>

lemma cache_ok_update:
  assumes ok: "cache_ok c L" and b: "lruBuckets c bn = Some b"
    and bs: "lruBuckets c' = (lruBuckets c)(bn \<mapsto> b')"
    and l: "lru_list b' (heapOf c') xs None" and cap: "bLen b' \<le> bMaxLen b'"
    and frame: "\<And>bn' a. bn' \<noteq> bn \<Longrightarrow> a \<in> set (L bn') \<Longrightarrow> heapOf c' a = heapOf c a"
    and old: "\<And>a. a \<in> set xs \<Longrightarrow> a < freshAddr c' \<and> (\<forall>bn'. bn' \<noteq> bn \<longrightarrow> a \<notin> set (L bn'))"
    and fresh: "freshAddr c \<le> freshAddr c'"
    and idx: "\<And>k a. keyVal c' k = Some a \<longleftrightarrow>
        (\<exists>bn'. a \<in> set ((L(bn := xs)) bn') \<and> k = bn' @ nkey (heapOf c' a))"
    and gauge: "sizeGauge c' = (sizeGauge c)(bn := int (length xs))"
  shows "cache_ok c' (L(bn := xs))"
proof -
  have other: "lru_list b2 (heapOf c') (L bn2) None"
    if "bn2 \<noteq> bn" "lruBuckets c bn2 = Some b2" for bn2 b2
  proof -
    have "dseg (heapOf c') None (L bn2) None = dseg (heapOf c) None (L bn2) None"
      using frame [OF that(1)] by (intro dseg_cong) simp
    with cache_okD(2) [OF ok that(2)] show ?thesis by (simp add: lru_list_def)
  qed
  have dom: "dom (lruBuckets c') = dom (lruBuckets c)" using b bs by auto
  show ?thesis
    unfolding cache_ok_def
  proof (intro conjI allI impI)
    show "prefix_free (dom (lruBuckets c'))" using cache_okD(1) [OF ok] dom by simp
  next
    fix bn2 b2 assume "lruBuckets c' bn2 = Some b2"
    then show "lru_list b2 (heapOf c') ((L(bn := xs)) bn2) None" and "bLen b2 \<le> bMaxLen b2"
      using bs l cap other cache_okD(3) [OF ok] by (auto split: if_splits)
  next
    fix bn2 assume "lruBuckets c' bn2 = None"
    then show "(L(bn := xs)) bn2 = []" using bs cache_okD(4) [OF ok] by (auto split: if_splits)
  next
    fix b1 b2 :: string assume "b1 \<noteq> b2"
    then show "set ((L(bn := xs)) b1) \<inter> set ((L(bn := xs)) b2) = {}"
      using old cache_okD(5) [OF ok] by (auto split: if_splits)
  next
    fix bn2 a assume "a \<in> set ((L(bn := xs)) bn2)"
    then show "a < freshAddr c'" using old fresh cache_okD(6) [OF ok, of a bn2]
      by (auto split: if_splits)
  next
    fix k a show "(keyVal c' k = Some a) = (\<exists>bn'. a \<in> set ((L(bn := xs)) bn') \<and> k = bn' @ nkey (heapOf c' a))"
      by (rule idx)
  next
    fix bn2 show "sizeGauge c' bn2 = int (length ((L(bn := xs)) bn2))"
      using gauge cache_okD(8) [OF ok] by simp
  qed
qed

text \<open>How the abstract store changes when one list changes.\<close>

lemma store_of_update:
  assumes ok: "cache_ok c L" and b: "lruBuckets c bn = Some b"
    and bs: "lruBuckets c' = (lruBuckets c)(bn \<mapsto> b')" and max: "bMaxLen b' = bMaxLen b"
    and frame: "\<And>bn' a. bn' \<noteq> bn \<Longrightarrow> a \<in> set (L bn') \<Longrightarrow> entry_of (heapOf c') a = entry_of (heapOf c) a"
  shows "store_of c' (L(bn := xs))
    = (store_of c L)(bn \<mapsto> (bMaxLen b, map (entry_of (heapOf c')) xs))"
proof
  fix bn'
  show "store_of c' (L(bn := xs)) bn'
      = ((store_of c L)(bn \<mapsto> (bMaxLen b, map (entry_of (heapOf c')) xs))) bn'"
    using bs max frame [of bn']
    by (cases "bn' = bn"; cases "lruBuckets c bn'") (auto simp: store_of_def)
qed

section \<open>Entries of a list\<close>

lemma entry_of_simps [simp]:
  "fst (entry_of h a) = nkey (h a)" "snd (entry_of h a) = (ndata (h a), nexpiresAt (h a))"
  by (simp_all add: entry_of_def)

lemma lookup_entries:
  "lookup k (map (entry_of h) xs) =
     map_option (\<lambda>a. (ndata (h a), nexpiresAt (h a))) (find (\<lambda>a. nkey (h a) = k) xs)"
  by (induction xs) (auto simp: lookup_def entry_of_def)

lemma keys_of_entries: "keys_of (map (entry_of h) xs) = (\<lambda>a. nkey (h a)) ` set xs"
  by (force simp: keys_of_def)

lemma inj_on_keys:
  assumes "cache_ok c L"
  shows "inj_on (\<lambda>a. nkey (heapOf c a)) (set (L bn))"
  using cache_okD(7) [OF assms] by (intro inj_onI) (metis option.inject)

lemma entries_remove1:
  assumes "distinct xs" and "inj_on (\<lambda>a. nkey (h a)) (set xs)" and "n \<in> set xs"
  shows "map (entry_of h) (remove1 n xs) = a_without (nkey (h n)) (map (entry_of h) xs)"
proof -
  have "filter (\<lambda>a. nkey (h a) \<noteq> nkey (h n)) xs = filter (\<lambda>a. a \<noteq> n) xs"
    using assms(2,3) by (intro filter_cong) (auto dest: inj_onD)
  then show ?thesis
    using assms(1) by (simp add: a_without_def filter_map o_def remove1_filter)
qed

lemma lru_list_links:
  assumes "lru_list b h xs q" and "\<And>a. nnext (h' a) = nnext (h a) \<and> nprev (h' a) = nprev (h a)"
  shows "lru_list b h' xs q"
  using assms dseg_cong [of xs h' h None q] by (simp add: lru_list_def)

lemma put_list_simps [simp]:
  "heapOf (put_list bn bh c) = snd bh" "lruBuckets (put_list bn bh c) = (lruBuckets c)(bn \<mapsto> fst bh)"
  "keyVal (put_list bn bh c) = keyVal c" "freshAddr (put_list bn bh c) = freshAddr c"
  "sizeGauge (put_list bn bh c) = sizeGauge c"
  "nodeId (put_list bn bh c) = nodeId c" "replicas (put_list bn bh c) = replicas c"
  "nodeScoreHashMap (put_list bn bh c) = nodeScoreHashMap c"
  "replicaLocalityCache (put_list bn bh c) = replicaLocalityCache c"
  by (simp_all add: put_list_def)

section \<open>Reads and updates of a stored entry\<close>

text \<open>Write value and expiry of a listed node and push it: the node is first, all else stays.\<close>

lemma touch_node:
  assumes ok: "cache_ok c L" and b: "lruBuckets c bn = Some b" and n: "n \<in> set (L bn)"
    and h: "h = (heapOf c)(n := (heapOf c n)\<lparr>ndata := v, nexpiresAt := t\<rparr>)"
  defines "c' \<equiv> put_list bn (Push n b h) c" and "xs \<equiv> n # remove1 n (L bn)"
  shows "cache_ok c' (L(bn := xs))"
    and "store_of c' (L(bn := xs)) = (store_of c L)(bn \<mapsto> (bMaxLen b,
      a_set (nkey (heapOf c n)) v t (map (entry_of (heapOf c)) (L bn))))"
proof -
  have l: "lru_list b h (L bn) None"
    using cache_okD(2) [OF ok b] by (rule lru_list_links) (simp add: h)
  note push = Push_old [OF l n]
  have set: "set xs = set (L bn)"
    using n cache_ok_distinct [OF ok, of bn] by (auto simp: xs_def)
  have key: "nkey (heapOf c' a) = nkey (heapOf c a)" for a by (simp add: c'_def h)
  have frame: "heapOf c' a = heapOf c a" if "bn' \<noteq> bn" "a \<in> set (L bn')" for bn' a
  proof -
    have "a \<notin> set (L bn)" using cache_okD(5) [OF ok that(1)] that(2) by blast
    then show ?thesis using push(2) [of a] n by (auto simp: c'_def h)
  qed
  show "cache_ok c' (L(bn := xs))"
  proof (rule cache_ok_update [OF ok b])
    show "lruBuckets c' = (lruBuckets c)(bn \<mapsto> fst (Push n b h))" by (simp add: c'_def)
    show l': "lru_list (fst (Push n b h)) (heapOf c') xs None"
      using push(1) by (simp add: c'_def xs_def)
    have "length xs = length (L bn)" using length_pos_if_in_set [OF n] n by (simp add: xs_def length_remove1)
    then show "bLen (fst (Push n b h)) \<le> bMaxLen (fst (Push n b h))"
      and "sizeGauge c' = (sizeGauge c)(bn := int (length xs))"
      using l' l cache_okD(3) [OF ok b] cache_okD(8) [OF ok] by (auto simp: lru_list_def c'_def)
    show "heapOf c' a = heapOf c a" if "bn' \<noteq> bn" "a \<in> set (L bn')" for bn' a
      using that by (rule frame)
    show "a < freshAddr c' \<and> (\<forall>bn'. bn' \<noteq> bn \<longrightarrow> a \<notin> set (L bn'))" if "a \<in> set xs" for a
      using that cache_okD(5,6) [OF ok] by (auto simp: set c'_def)
    show "freshAddr c \<le> freshAddr c'" by (simp add: c'_def)
    show "(keyVal c' k = Some a) = (\<exists>bn'. a \<in> set ((L(bn := xs)) bn') \<and> k = bn' @ nkey (heapOf c' a))"
      for k a
    proof -
      have "a \<in> set ((L(bn := xs)) bn') \<longleftrightarrow> a \<in> set (L bn')" for bn' by (simp add: set)
      then show ?thesis unfolding key by (simp add: cache_okD(7) [OF ok] c'_def)
    qed
  qed
  have "map (entry_of (heapOf c')) (remove1 n (L bn)) = map (entry_of (heapOf c)) (remove1 n (L bn))"
    using cache_ok_distinct [OF ok, of bn] by (auto simp: c'_def h entry_of_def)
  moreover have "entry_of (heapOf c') n = (nkey (heapOf c n), v, t)"
    by (simp add: c'_def h entry_of_def)
  moreover have "store_of c' (L(bn := xs))
      = (store_of c L)(bn \<mapsto> (bMaxLen b, map (entry_of (heapOf c')) xs))"
    by (rule store_of_update [OF ok b, of c' "fst (Push n b h)"])
      (use frame in \<open>auto simp: c'_def entry_of_def\<close>)
  ultimately show "store_of c' (L(bn := xs)) = (store_of c L)(bn \<mapsto> (bMaxLen b,
      a_set (nkey (heapOf c n)) v t (map (entry_of (heapOf c)) (L bn))))"
    using entries_remove1 [OF cache_ok_distinct [OF ok] inj_on_keys [OF ok] n]
    by (simp add: xs_def a_set_def)
qed

section \<open>Insertion of a new entry\<close>

text \<open>
  The state of \<open>setLocal\<close> after it pushed the node for a new key and before it looks at the
  capacity.
\<close>

definition inserted :: "instant \<Rightarrow> string \<Rightarrow> string \<Rightarrow> goany \<Rightarrow> duration \<Rightarrow> lruBucket \<Rightarrow> cache
    \<Rightarrow> (lruBucket \<times> heap) \<times> cache" where
  "inserted now bn key v ttl b c =
     (let n = freshAddr c;
          h = (heapOf c)(n := \<lparr>nnext = None, nprev = None, nkey = key, ndata = v,
                               nexpiresAt = expiry now ttl\<rparr>);
          bh = Push n b h
      in (bh, recordBucketSize bn 1 (put_list bn bh (keyVal_Set (bn @ key) n (c\<lparr>freshAddr := Suc n\<rparr>)))))"

lemma setLocal_new:
  assumes "lruBuckets c bn = Some b" and "keyVal c (bn @ key) = None"
  shows "setLocal now bn key v ttl c =
     (case inserted now bn key v ttl b c of (bh, c2) \<Rightarrow>
        if bMaxLen (fst bh) < bLen (fst bh) then evictTail bn key (fst bh) c2
        else Ret (Inr ()) c2)"
  using assms by (simp add: setLocal_def inserted_def keyVal_Get_def Let_def)

lemma inserted_list:
  assumes ok: "cache_ok c L" and b: "lruBuckets c bn = Some b"
    and ins: "inserted now bn key v ttl b c = (bh, c')"
  shows "lru_list (fst bh) (snd bh) (freshAddr c # L bn) None"
    and "a \<notin> insert (freshAddr c) (set (L bn)) \<Longrightarrow> snd bh a = heapOf c a"
    and "entry_of (snd bh) (freshAddr c) = (key, v, expiry now ttl)"
    and "a \<noteq> freshAddr c \<Longrightarrow> entry_of (snd bh) a = entry_of (heapOf c) a"
    and "bMaxLen (fst bh) = bMaxLen b"
proof -
  let ?n = "freshAddr c"
  let ?h = "(heapOf c)(?n := \<lparr>nnext = None, nprev = None, nkey = key, ndata = v,
      nexpiresAt = expiry now ttl\<rparr>)"
  have bh: "bh = Push ?n b ?h" using ins by (auto simp: inserted_def Let_def)
  have n: "?n \<notin> set (L bn)" using cache_okD(6) [OF ok] by blast
  have "lru_list b ?h (L bn) None"
    using cache_okD(2) [OF ok b] n by (simp add: lru_list_def)
  note push = Push_new [OF this n]
  show "lru_list (fst bh) (snd bh) (?n # L bn) None" using push(1) by (simp add: bh)
  show "snd bh a = heapOf c a" if "a \<notin> insert ?n (set (L bn))"
    using push(2) [of a] that by (simp add: bh)
  show "entry_of (snd bh) ?n = (key, v, expiry now ttl)" by (simp add: bh entry_of_def)
  show "entry_of (snd bh) a = entry_of (heapOf c) a" if "a \<noteq> ?n"
    using that by (simp add: bh entry_of_def)
  show "bMaxLen (fst bh) = bMaxLen b" by (simp add: bh)
qed

lemma insert_node:
  fixes now :: instant and v :: goany and ttl :: duration
  assumes ok: "cache_ok c L" and b: "lruBuckets c bn = Some b"
    and none: "keyVal c (bn @ key) = None" and room: "int (length (L bn)) < bMaxLen b"
  defines "c' \<equiv> snd (inserted now bn key v ttl b c)"
  shows "setLocal now bn key v ttl c = Ret (Inr ()) c'"
    and "cache_ok c' (L(bn := freshAddr c # L bn))"
    and "store_of c' (L(bn := freshAddr c # L bn)) = (store_of c L)(bn \<mapsto> (bMaxLen b,
      a_set key v (expiry now ttl) (map (entry_of (heapOf c)) (L bn))))"
proof -
  let ?n = "freshAddr c"
  obtain bh where ins: "inserted now bn key v ttl b c = (bh, c')"
    unfolding c'_def by (metis prod.collapse)
  then have c': "c' = recordBucketSize bn 1 (put_list bn bh (keyVal_Set (bn @ key) ?n (c\<lparr>freshAddr := Suc ?n\<rparr>)))"
    by (auto simp: inserted_def Let_def)
  note I = inserted_list [OF ok b ins]
  have heap: "heapOf c' = snd bh" and kv: "keyVal c' = (keyVal c)(bn @ key \<mapsto> ?n)"
    and bs: "lruBuckets c' = (lruBuckets c)(bn \<mapsto> fst bh)" and fa: "freshAddr c' = Suc ?n"
    and gauge: "sizeGauge c' = (sizeGauge c)(bn := sizeGauge c bn + 1)"
    by (simp_all add: c' cache_updates)
  have len: "bLen (fst bh) = int (length (?n # L bn))" using I(1) by (simp add: lru_list_def)
  show "setLocal now bn key v ttl c = Ret (Inr ()) c'"
    using setLocal_new [OF b none] ins len I(5) room by simp
  have new: "a \<noteq> ?n" if "a \<in> set (L bn')" for a bn' using that cache_okD(6) [OF ok] by blast
  have key: "nkey (snd bh a) = nkey (heapOf c a)" if "a \<noteq> ?n" for a
    using I(4) [OF that] by (simp add: entry_of_def)
  have key_new: "nkey (snd bh ?n) = key" using I(3) by (simp add: entry_of_def)
  show "cache_ok c' (L(bn := ?n # L bn))"
  proof (rule cache_ok_update [OF ok b bs])
    show "lru_list (fst bh) (heapOf c') (?n # L bn) None" using I(1) heap by simp
    show "bLen (fst bh) \<le> bMaxLen (fst bh)" using len I(5) room by simp
    show "heapOf c' a = heapOf c a" if "bn' \<noteq> bn" "a \<in> set (L bn')" for bn' a
      using I(2) [of a] new [OF that(2)] cache_okD(5) [OF ok that(1)] that(2) heap by auto
    show "a < freshAddr c' \<and> (\<forall>bn'. bn' \<noteq> bn \<longrightarrow> a \<notin> set (L bn'))" if "a \<in> set (?n # L bn)" for a
      using that new cache_ok_disjoint [OF ok] cache_okD(6) [OF ok, of a bn] fa by fastforce
    show "freshAddr c \<le> freshAddr c'" by (simp add: fa)
    show "sizeGauge c' = (sizeGauge c)(bn := int (length (?n # L bn)))"
      using gauge cache_okD(8) [OF ok] by (simp add: add.commute)
    show "(keyVal c' k = Some a) =
        (\<exists>bn'. a \<in> set ((L(bn := ?n # L bn)) bn') \<and> k = bn' @ nkey (heapOf c' a))" for k a
    proof (cases "a = ?n")
      case True
      have "keyVal c k \<noteq> Some ?n" using cache_okD(7) [OF ok] new by metis
      with True show ?thesis using new key_new none by (auto simp: kv heap)
    next
      case False
      then have "a \<in> set ((L(bn := ?n # L bn)) bn') \<longleftrightarrow> a \<in> set (L bn')" for bn' by simp
      moreover have "keyVal c' k = Some a \<longleftrightarrow> keyVal c k = Some a"
        using False none by (cases "k = bn @ key") (simp_all add: kv)
      ultimately show ?thesis
        using cache_okD(7) [OF ok, of k a] by (simp add: heap key [OF False])
    qed
  qed
  have "map (entry_of (snd bh)) (L bn) = map (entry_of (heapOf c)) (L bn)"
    using I(4) new by (auto simp: entry_of_def)
  moreover have "key \<notin> keys_of (map (entry_of (heapOf c)) (L bn))"
    using none keyVal_find [OF ok b, of key] by (auto simp: keys_of_entries find_None_iff)
  then have "a_without key (map (entry_of (heapOf c)) (L bn)) = map (entry_of (heapOf c)) (L bn)"
    by (auto simp: a_without_def keys_of_def intro!: filter_True)
  moreover have "store_of c' (L(bn := ?n # L bn))
      = (store_of c L)(bn \<mapsto> (bMaxLen b, map (entry_of (heapOf c')) (?n # L bn)))"
    by (rule store_of_update [OF ok b bs I(5)]) (use I(4) new heap in auto)
  ultimately show "store_of c' (L(bn := ?n # L bn)) = (store_of c L)(bn \<mapsto> (bMaxLen b,
      a_set key v (expiry now ttl) (map (entry_of (heapOf c)) (L bn))))"
    using I(3) by (simp add: a_set_def heap del: map_eq_conv)
qed

section \<open>Deletion and expiry\<close>

lemma deleteLocal_absent:
  assumes ok: "cache_ok c L" and b: "lruBuckets c bn = Some b" and none: "keyVal c (bn @ key) = None"
  shows "deleteLocal bn key c = Ret (Inl ERR_NOT_FOUND) c"
proof -
  from none keyVal_find [OF ok b] have "find (\<lambda>a. nkey (heapOf c a) = key) (L bn) = None" by simp
  then show ?thesis
    using Delete_list [OF cache_okD(2) [OF ok b], of key] b by (simp add: deleteLocal_def)
qed

lemma delete_node_ok:
  assumes ok: "cache_ok c L" and b: "lruBuckets c bn = Some b" and kv: "keyVal c (bn @ key) = Some n"
  shows "\<exists>c'. deleteLocal bn key c = Ret (Inr ()) c' \<and> cache_ok c' (L(bn := remove1 n (L bn)))
    \<and> store_of c' (L(bn := remove1 n (L bn))) = (store_of c L)(bn \<mapsto> (bMaxLen b,
        a_without key (map (entry_of (heapOf c)) (L bn))))"
proof -
  from keyVal_in_bucket [OF ok b kv] have n: "n \<in> set (L bn)" and key: "nkey (heapOf c n) = key" by auto
  from kv keyVal_find [OF ok b] have "find (\<lambda>a. nkey (heapOf c a) = key) (L bn) = Some n" by simp
  with Delete_list [OF cache_okD(2) [OF ok b], of key]
  have del: "Delete key b (heapOf c) = Some (True, delete_node n b (heapOf c))" by simp
  obtain b' h' where bh: "delete_node n b (heapOf c) = (b', h')" by fastforce
  note D = delete_node_list [OF cache_okD(2) [OF ok b] n, unfolded bh fst_conv snd_conv]
  have conf: "bMaxLen b' = bMaxLen b" using delete_node_config(3) [of n b "heapOf c"] bh by simp
  have keys: "nkey (h' a) = nkey (heapOf c a)" for a
    using delete_node_payload(1) [of a n b "heapOf c"] delete_node_self(1) [of n b "heapOf c"] bh
    by (cases "a = n") auto
  have ent: "entry_of h' a = entry_of (heapOf c) a" if "a \<noteq> n" for a
    using delete_node_payload [OF that, of b "heapOf c"] bh by (simp add: entry_of_def)
  obtain c' where run: "deleteLocal bn key c = Ret (Inr ()) c'" and heap: "heapOf c' = h'"
    and kv': "keyVal c' = (keyVal c)(bn @ key := None)"
    and bs: "lruBuckets c' = (lruBuckets c)(bn \<mapsto> b')" and fa: "freshAddr c' = freshAddr c"
    and gauge: "sizeGauge c' = (sizeGauge c)(bn := sizeGauge c bn - 1)"
    using b del bh by (simp add: deleteLocal_def cache_updates Let_def)
  let ?xs = "remove1 n (L bn)"
  have dist: "distinct (L bn)" by (rule cache_ok_distinct [OF ok])
  have "Suc (length ?xs) = length (L bn)"
    using n length_pos_if_in_set [OF n] by (simp add: length_remove1)
  then have len: "int (length ?xs) = int (length (L bn)) - 1" by simp
  have ok': "cache_ok c' (L(bn := ?xs))"
  proof (rule cache_ok_update [OF ok b bs])
    show "lru_list b' (heapOf c') ?xs None" using D(1) heap by simp
    show "bLen b' \<le> bMaxLen b'"
      using D(1) len conf cache_okD(2,3) [OF ok b] by (simp add: lru_list_def)
    show "heapOf c' a = heapOf c a" if "bn' \<noteq> bn" "a \<in> set (L bn')" for bn' a
      using D(2) [of a] cache_okD(5) [OF ok that(1)] that(2) heap by blast
    show "a < freshAddr c' \<and> (\<forall>bn'. bn' \<noteq> bn \<longrightarrow> a \<notin> set (L bn'))" if "a \<in> set ?xs" for a
    proof -
      from that have "a \<in> set (L bn)" by (metis notin_set_remove1)
      then show ?thesis
        using cache_ok_disjoint [OF ok, of a bn] cache_okD(6) [OF ok, of a bn] fa by metis
    qed
    show "freshAddr c \<le> freshAddr c'" by (simp add: fa)
    show "sizeGauge c' = (sizeGauge c)(bn := int (length ?xs))"
      using gauge cache_okD(8) [OF ok] len by simp
    show "(keyVal c' k = Some a) = (\<exists>bn'. a \<in> set ((L(bn := ?xs)) bn') \<and> k = bn' @ nkey (heapOf c' a))"
      for k a
    proof (cases "a = n")
      case True
      have "n \<notin> set ((L(bn := ?xs)) bn')" for bn'
        using dist cache_ok_disjoint [OF ok n, of bn'] by auto
      moreover have "keyVal c' k \<noteq> Some n"
        using cache_okD(7) [OF ok, of k n] cache_ok_disjoint [OF ok n] key kv'
        by (metis fun_upd_apply option.distinct(1))
      ultimately show ?thesis using True by simp
    next
      case False
      then have "a \<in> set ((L(bn := ?xs)) bn') \<longleftrightarrow> a \<in> set (L bn')" for bn' using dist by simp
      moreover have "keyVal c' k = Some a \<longleftrightarrow> keyVal c k = Some a"
        using False kv kv' by (cases "k = bn @ key") simp_all
      ultimately show ?thesis using cache_okD(7) [OF ok, of k a] by (simp add: heap keys)
    qed
  qed
  have "map (entry_of h') ?xs = map (entry_of (heapOf c)) ?xs"
    using ent dist by simp
  moreover have "store_of c' (L(bn := ?xs))
      = (store_of c L)(bn \<mapsto> (bMaxLen b, map (entry_of (heapOf c')) ?xs))"
    by (rule store_of_update [OF ok b bs conf])
      (metis ent heap cache_ok_disjoint [OF ok n])
  ultimately have "store_of c' (L(bn := ?xs)) = (store_of c L)(bn \<mapsto> (bMaxLen b,
      a_without key (map (entry_of (heapOf c)) (L bn))))"
    using entries_remove1 [OF dist inj_on_keys [OF ok] n] key heap by simp
  with run ok' show ?thesis by blast
qed

lemma setTtl_ok:
  assumes ok: "cache_ok c L" and b: "lruBuckets c bn = Some b" and kv: "keyVal c (bn @ key) = Some n"
  shows "\<exists>c'. setTtlLocal now bn key ttl c = Ret (Inr ()) c' \<and> cache_ok c' L
    \<and> store_of c' L = (store_of c L)(bn \<mapsto> (bMaxLen b,
        a_expire key (Some (now + ttl)) (map (entry_of (heapOf c)) (L bn))))"
proof -
  from keyVal_in_bucket [OF ok b kv] have n: "n \<in> set (L bn)" and key: "nkey (heapOf c n) = key" by auto
  let ?h = "(heapOf c)(n := (heapOf c n)\<lparr>nexpiresAt := Some (now + ttl)\<rparr>)"
  let ?c' = "c\<lparr>heapOf := ?h\<rparr>"
  have run: "setTtlLocal now bn key ttl c = Ret (Inr ()) ?c'"
    using kv by (simp add: setTtlLocal_def cache_updates fun_upd_idem)
  have keys: "nkey (?h a) = nkey (heapOf c a)" for a by simp
  have lists: "lru_list b2 ?h xs None = lru_list b2 (heapOf c) xs None" for b2 xs
    by (rule iffI; erule lru_list_links; simp)
  have ok': "cache_ok ?c' L"
    using ok unfolding cache_ok_def by (simp add: lists keys del: fun_upd_apply)
  have "entry_of ?h a = (let (k', v, t') = entry_of (heapOf c) a
      in if k' = key then (k', v, Some (now + ttl)) else (k', v, t'))" if "a \<in> set (L bn)" for a
    using that n key inj_on_keys [OF ok, of bn] by (auto simp: entry_of_def inj_on_def)
  then have "map (entry_of ?h) (L bn) = a_expire key (Some (now + ttl)) (map (entry_of (heapOf c)) (L bn))"
    by (simp add: a_expire_def o_def case_prod_beta Let_def)
  moreover have "store_of ?c' (L(bn := L bn)) = (store_of c L)(bn \<mapsto> (bMaxLen b, map (entry_of ?h) (L bn)))"
    by (rule store_of_update [OF ok b, of ?c' b, simplified])
      (use b cache_ok_disjoint [OF ok n] in \<open>auto simp: entry_of_def fun_upd_idem\<close>)
  ultimately show ?thesis using run ok' by auto
qed

section \<open>Eviction at capacity\<close>

text \<open>
  A bucket after an eviction: the live nodes \<open>xs\<close> are linked properly, but the last one still
  points to the evicted node \<open>e\<close>, which is cleared and no longer indexed.
\<close>

lemma evict_result:
  assumes ok: "cache_ok c L" and b: "lruBuckets c bn = Some b" and none: "keyVal c (bn @ key) = None"
    and full: "int (length (L bn)) = bMaxLen b" and Lbn: "L bn = xs @ [e]"
  shows "\<exists>c' b'. setLocal now bn key v ttl c = Ret (Inr ()) c'
    \<and> lruBuckets c' = (lruBuckets c)(bn \<mapsto> b') \<and> bMaxLen b' = bMaxLen b
    \<and> lru_list b' (heapOf c') (freshAddr c # xs) (Some e)
    \<and> nnext (heapOf c' e) = None \<and> nprev (heapOf c' e) = None
    \<and> ndata (heapOf c' e) = ANil \<and> nkey (heapOf c' e) = nkey (heapOf c e)
    \<and> nexpiresAt (heapOf c' e) = nexpiresAt (heapOf c e)
    \<and> entry_of (heapOf c') (freshAddr c) = (key, v, expiry now ttl)
    \<and> (\<forall>a. a \<noteq> e \<longrightarrow> a \<noteq> freshAddr c \<longrightarrow> entry_of (heapOf c') a = entry_of (heapOf c) a)
    \<and> keyVal c' = (keyVal c)(bn @ key \<mapsto> freshAddr c, bn @ nkey (heapOf c e) := None)
    \<and> sizeGauge c' = sizeGauge c
    \<and> lruEvictions c' = (lruEvictions c)(bn := Suc (lruEvictions c bn))"
proof -
  let ?n = "freshAddr c"
  obtain bh c2 where ins: "inserted now bn key v ttl b c = (bh, c2)" by fastforce
  note I = inserted_list [OF ok b ins]
  have c2: "c2 = recordBucketSize bn 1 (put_list bn bh (keyVal_Set (bn @ key) ?n (c\<lparr>freshAddr := Suc ?n\<rparr>)))"
    using ins by (auto simp: inserted_def Let_def)
  have n: "?n \<notin> set (L bn)" using cache_okD(6) [OF ok] by blast
  have l: "lru_list (fst bh) (snd bh) ((?n # xs) @ [e]) None" using I(1) Lbn by simp
  then have tail: "bTail (fst bh) = Some e" and len: "bLen (fst bh) = bMaxLen b + 1"
    and dist: "distinct ((?n # xs) @ [e])" and links: "nprev (snd bh e) = last_or None (?n # xs)"
    and seg: "dseg (snd bh) None (?n # xs) (Some e)"
    using full Lbn by (auto simp: lru_list_def dseg_append)
  let ?b' = "(fst bh)\<lparr>bTail := nprev (snd bh e), bLen := bLen (fst bh) - 1\<rparr>"
  let ?h' = "(snd bh)(e := (snd bh e)\<lparr>nnext := None, nprev := None, ndata := ANil\<rparr>)"
  have ke: "nkey (snd bh e) = nkey (heapOf c e)" "nexpiresAt (snd bh e) = nexpiresAt (heapOf c e)"
    using I(4) [of e] n Lbn by (auto simp: entry_of_def)
  have "setLocal now bn key v ttl c = evictTail bn key (fst bh) c2"
    using setLocal_new [OF b none] ins len I(5) by simp
  moreover have "\<exists>c'. evictTail bn key (fst bh) c2 = Ret (Inr ()) c' \<and> heapOf c' = ?h'
      \<and> lruBuckets c' = (lruBuckets c)(bn \<mapsto> ?b')
      \<and> keyVal c' = (keyVal c)(bn @ key \<mapsto> ?n, bn @ nkey (heapOf c e) := None)
      \<and> sizeGauge c' = sizeGauge c \<and> lruEvictions c' = (lruEvictions c)(bn := Suc (lruEvictions c bn))"
    using tail ke by (auto simp: evictTail_def c2 cache_updates Let_def)
  ultimately obtain c' where run: "setLocal now bn key v ttl c = Ret (Inr ()) c'"
    and c': "heapOf c' = ?h'" "lruBuckets c' = (lruBuckets c)(bn \<mapsto> ?b')"
      "keyVal c' = (keyVal c)(bn @ key \<mapsto> ?n, bn @ nkey (heapOf c e) := None)"
      "sizeGauge c' = sizeGauge c" "lruEvictions c' = (lruEvictions c)(bn := Suc (lruEvictions c bn))"
    by auto
  have "dseg ?h' None (?n # xs) (Some e)" using seg dist by simp
  then have "lru_list ?b' ?h' (?n # xs) (Some e)"
    using l dist links by (auto simp: lru_list_def)
  with run c' ke I(3,4,5) n Lbn show ?thesis
    by (intro exI [of _ c'] exI [of _ ?b']) (auto simp: entry_of_def)
qed

section \<open>Histories\<close>

text \<open>The calls of a client on one node, and what the abstract store answers to them.\<close>

datatype local_op =
    OpCreate string duration int
  | OpGet string string
  | OpSet instant string string goany duration
  | OpDelete string string
  | OpSetTtl instant string string duration

definition as_value :: "(unit, cache) outcome \<Rightarrow> (goany, cache) outcome" where
  "as_value out = (case out of Ret (Inl e) c \<Rightarrow> Ret (Inl e) c | Ret (Inr _) c \<Rightarrow> Ret (Inr ANil) c
     | Panic \<Rightarrow> Panic | Hang \<Rightarrow> Hang)"

fun exec :: "local_op \<Rightarrow> cache \<Rightarrow> (goany, cache) outcome" where
  "exec (OpCreate bn ttl m) c = as_value (CreateBucket bn ttl m c)"
| "exec (OpGet bn k) c = getLocal bn k c"
| "exec (OpSet now bn k v ttl) c = as_value (setLocal now bn k v ttl c)"
| "exec (OpDelete bn k) c = as_value (deleteLocal bn k c)"
| "exec (OpSetTtl now bn k ttl) c = as_value (setTtlLocal now bn k ttl c)"

definition returned :: "('r, 's) outcome \<Rightarrow> ((error + 'r) \<times> 's) option" where
  "returned out = (case out of Ret r s \<Rightarrow> Some (r, s) | Panic \<Rightarrow> None | Hang \<Rightarrow> None)"

definition local_step :: "local_op \<Rightarrow> cache \<Rightarrow> ((error + goany) \<times> cache) option" where
  "local_step op c = returned (exec op c)"

definition entries :: "store \<Rightarrow> string \<Rightarrow> entry list" where
  "entries A bn = (case A bn of None \<Rightarrow> [] | Some (cap, es) \<Rightarrow> es)"

definition put_entries :: "store \<Rightarrow> string \<Rightarrow> entry list \<Rightarrow> store" where
  "put_entries A bn es = A(bn := map_option (\<lambda>(cap, _). (cap, es)) (A bn))"

fun a_exec :: "local_op \<Rightarrow> store \<Rightarrow> (error + goany) \<times> store" where
  "a_exec (OpCreate bn ttl m) A =
     (if A bn \<noteq> None then (Inl ErrBucketExists, A) else (Inr ANil, A(bn \<mapsto> (m, []))))"
| "a_exec (OpGet bn k) A =
     (case lookup k (entries A bn) of None \<Rightarrow> (Inl ERR_NOT_FOUND, A)
      | Some (v, t) \<Rightarrow> (Inr v, put_entries A bn (a_touch k (entries A bn))))"
| "a_exec (OpSet now bn k v ttl) A =
     (Inr ANil, put_entries A bn (a_set k v (expiry now ttl) (entries A bn)))"
| "a_exec (OpDelete bn k) A =
     (if lookup k (entries A bn) = None then (Inl ERR_NOT_FOUND, A)
      else (Inr ANil, put_entries A bn (a_without k (entries A bn))))"
| "a_exec (OpSetTtl now bn k ttl) A =
     (if lookup k (entries A bn) = None then (Inl ERR_NOT_FOUND, A)
      else (Inr ANil, put_entries A bn (a_expire k (Some (now + ttl)) (entries A bn))))"

text \<open>
  The histories the refinement covers: a new bucket's name is prefix-free with the others and
  its capacity is not negative, the other operations name an existing bucket, and a new key is
  only inserted below the capacity (\<open>evict_result\<close> says what happens at it).
\<close>

fun admissible :: "local_op \<Rightarrow> store \<Rightarrow> bool" where
  "admissible (OpCreate bn ttl m) A = (0 \<le> m \<and> prefix_free (insert bn (dom A)))"
| "admissible (OpGet bn k) A = (A bn \<noteq> None)"
| "admissible (OpSet now bn k v ttl) A =
     (case A bn of None \<Rightarrow> False
      | Some (cap, es) \<Rightarrow> lookup k es \<noteq> None \<or> int (length es) < cap)"
| "admissible (OpDelete bn k) A = (A bn \<noteq> None)"
| "admissible (OpSetTtl now bn k ttl) A = (A bn \<noteq> None)"

lemma store_of_Some:
  "store_of c L bn = Some (cap, es) \<longleftrightarrow>
     (\<exists>b. lruBuckets c bn = Some b \<and> cap = bMaxLen b \<and> es = map (entry_of (heapOf c)) (L bn))"
  by (auto simp: store_of_def)

lemma dom_store_of: "dom (store_of c L) = dom (lruBuckets c)"
  by (auto simp: store_of_def)

lemma store_entries:
  assumes "lruBuckets c bn = Some b"
  shows "entries (store_of c L) bn = map (entry_of (heapOf c)) (L bn)"
    and "put_entries (store_of c L) bn es = (store_of c L)(bn \<mapsto> (bMaxLen b, es))"
  using assms by (simp_all add: entries_def put_entries_def store_of_def)

lemma lookup_index:
  assumes "cache_ok c L" and "lruBuckets c bn = Some b"
  shows "lookup key (map (entry_of (heapOf c)) (L bn)) =
    map_option (\<lambda>a. (ndata (heapOf c a), nexpiresAt (heapOf c a))) (keyVal c (bn @ key))"
  using keyVal_find [OF assms, of key] by (simp add: lookup_entries)

lemma refines_initCache: "refines (initCache self r) Map.empty"
  unfolding refines_def
  by (rule exI [of _ "\<lambda>_. []"])
    (auto simp: cache_ok_def initCache_def prefix_free_def store_of_def fun_eq_iff)

lemma refinesI: "cache_ok c L \<Longrightarrow> store_of c L = A \<Longrightarrow> refines c A"
  by (auto simp: refines_def)

lemma create_refines:
  assumes ref: "refines c A" and adm: "admissible (OpCreate bn ttl m) A"
  shows "\<exists>r c'. exec (OpCreate bn ttl m) c = Ret r c'
    \<and> a_exec (OpCreate bn ttl m) A = (r, snd (a_exec (OpCreate bn ttl m) A))
    \<and> refines c' (snd (a_exec (OpCreate bn ttl m) A))"
proof -
  from ref obtain L where ok: "cache_ok c L" and A: "A = store_of c L" by (auto simp: refines_def)
  show ?thesis
  proof (cases "lruBuckets c bn")
    case (Some b)
    with ref A show ?thesis by (simp add: CreateBucket_def as_value_def store_of_def)
  next
    case None
    let ?b = "\<lparr>bType = bucketTypeRegular, bPrecisions = [], bHead = None, bTail = None, bLen = 0,
      bMaxLen = m, bDefaultTtl = ttl\<rparr>"
    let ?c' = "c\<lparr>lruBuckets := (lruBuckets c)(bn \<mapsto> ?b)\<rparr>"
    have L: "L bn = []" using cache_okD(4) [OF ok None] .
    have "cache_ok ?c' L"
      using ok adm L unfolding cache_ok_def
      by (auto simp: A dom_store_of lru_list_def insert_absorb) fastforce
    moreover have "store_of ?c' L = A(bn \<mapsto> (m, []))"
      by (auto simp: A store_of_def L fun_eq_iff)
    moreover have "A bn = None" using None by (simp add: A store_of_def)
    ultimately show ?thesis
      using None by (auto simp: CreateBucket_def as_value_def refines_def)
  qed
qed

lemma op_refines:
  assumes ref: "refines c A" and adm: "admissible op A"
  shows "\<exists>r c'. exec op c = Ret r c' \<and> a_exec op A = (r, snd (a_exec op A))
    \<and> refines c' (snd (a_exec op A))"
proof (cases "\<exists>bn ttl m. op = OpCreate bn ttl m")
  case True
  then show ?thesis using create_refines ref adm by blast
next
  case False
  from ref obtain L where ok: "cache_ok c L" and A: "A = store_of c L" by (auto simp: refines_def)
  define bn where "bn = (case op of OpGet bn k \<Rightarrow> bn | OpSet now bn k v ttl \<Rightarrow> bn
    | OpDelete bn k \<Rightarrow> bn | OpSetTtl now bn k ttl \<Rightarrow> bn | OpCreate bn ttl m \<Rightarrow> bn)"
  have "A bn \<noteq> None" using adm False by (cases op) (auto simp: bn_def split: option.splits)
  then obtain b where b: "lruBuckets c bn = Some b" by (auto simp: A store_of_def)
  let ?es = "map (entry_of (heapOf c)) (L bn)"
  have ent: "entries A bn = ?es" and put: "\<And>es. put_entries A bn es = A(bn \<mapsto> (bMaxLen b, es))"
    using store_entries [OF b] by (auto simp: A)
  note look = lookup_index [OF ok b]
  show ?thesis
  proof (cases op)
    case (OpGet bn' k)
    then have bn': "bn' = bn" by (simp add: bn_def)
    show ?thesis
    proof (cases "keyVal c (bn @ k)")
      case None
      with ref look show ?thesis by (simp add: OpGet bn' ent getLocal_def keyVal_Get_def)
    next
      case (Some n)
      from keyVal_in_bucket [OF ok b Some] have n: "n \<in> set (L bn)" and k: "nkey (heapOf c n) = k" by auto
      note T = touch_node [OF ok b n refl, where v = "ndata (heapOf c n)" and t = "nexpiresAt (heapOf c n)"]
      have "getLocal bn k c = Ret (Inr (ndata (heapOf c n))) (put_list bn (Push n b (heapOf c)) c)"
        using Some b by (simp add: getLocal_def keyVal_Get_def)
      moreover have "refines (put_list bn (Push n b (heapOf c)) c)
          (A(bn \<mapsto> (bMaxLen b, a_touch k ?es)))"
        using T Some look [of k] k unfolding refines_def
        by (auto simp: A a_touch_def a_set_def)
      ultimately show ?thesis
        using Some look [of k] by (simp add: OpGet bn' ent put)
    qed
  next
    case (OpSet now bn' k v ttl)
    then have bn': "bn' = bn" by (simp add: bn_def)
    show ?thesis
    proof (cases "keyVal c (bn @ k)")
      case None
      with adm look [of k] have room: "int (length (L bn)) < bMaxLen b"
        using b by (simp add: OpSet bn' A store_of_def)
      note N = insert_node [OF ok b None room, of now v ttl]
      show ?thesis
        using N by (auto simp: OpSet bn' ent put as_value_def A [symmetric]
          intro: refinesI)
    next
      case (Some n)
      from keyVal_in_bucket [OF ok b Some] have n: "n \<in> set (L bn)" and k: "nkey (heapOf c n) = k" by auto
      note T = touch_node [OF ok b n refl, where v = v and t = "expiry now ttl"]
      show ?thesis
        using T Some b k by (auto simp: OpSet bn' ent put as_value_def A [symmetric] setLocal_def
            keyVal_Get_def Let_def intro: refinesI)
    qed
  next
    case (OpDelete bn' k)
    then have bn': "bn' = bn" by (simp add: bn_def)
    show ?thesis
    proof (cases "keyVal c (bn @ k)")
      case None
      with ref look deleteLocal_absent [OF ok b None] show ?thesis
        by (simp add: OpDelete bn' ent as_value_def)
    next
      case (Some n)
      with delete_node_ok [OF ok b Some] look [of k] show ?thesis
        by (auto simp: OpDelete bn' ent put as_value_def A [symmetric]
          intro: refinesI)
    qed
  next
    case (OpSetTtl now bn' k ttl)
    then have bn': "bn' = bn" by (simp add: bn_def)
    show ?thesis
    proof (cases "keyVal c (bn @ k)")
      case None
      with ref look show ?thesis
        by (simp add: OpSetTtl bn' ent as_value_def setTtlLocal_def keyVal_Get_def)
    next
      case (Some n)
      with setTtl_ok [OF ok b Some, of now ttl] look [of k] show ?thesis
        by (auto simp: OpSetTtl bn' ent put as_value_def A [symmetric]
          intro: refinesI)
    qed
  qed (use False in auto)
qed

interpretation local_store: simulation refines local_step a_exec admissible
proof
  fix c A op
  assume "refines c A" and "admissible op A"
  from op_refines [OF this]
  show "\<exists>c'. local_step op c = Some (fst (a_exec op A), c') \<and> refines c' (snd (a_exec op A))"
    by (auto simp: local_step_def returned_def) (metis fst_conv)
qed

text \<open>A stored entry is read back through \<open>keyVal\<close>, whatever the list looks like.\<close>

lemma getLocal_hit:
  assumes "lruBuckets c bn = Some b" and "keyVal c (bn @ k) = Some n"
  shows "getLocal bn k c = Ret (Inr (ndata (heapOf c n))) (put_list bn (Push n b (heapOf c)) c)"
  using assms by (simp add: getLocal_def keyVal_Get_def)

lemma getLocal_refined:
  assumes "refines c A" and "A bn = Some (cap, es)" and "lookup k es = Some (v, t)"
  shows "\<exists>c'. getLocal bn k c = Ret (Inr v) c'"
proof -
  from assms(1) obtain L where ok: "cache_ok c L" and A: "A = store_of c L" by (auto simp: refines_def)
  with assms(2) obtain b where b: "lruBuckets c bn = Some b"
    and es: "es = map (entry_of (heapOf c)) (L bn)" by (auto simp: store_of_Some)
  with lookup_index [OF ok b, of k] assms(3) obtain n where "keyVal c (bn @ k) = Some n"
    "ndata (heapOf c n) = v" by auto
  with getLocal_hit [OF b] show ?thesis by blast
qed

text \<open>The state a full bucket is in, with its least recently used entry last.\<close>

lemma full_bucket:
  assumes "refines c A" and "A bn = Some (cap, es @ [(lk, lv, lt)])"
  shows "\<exists>L b xs e. cache_ok c L \<and> A = store_of c L \<and> lruBuckets c bn = Some b \<and> cap = bMaxLen b
    \<and> L bn = xs @ [e] \<and> es = map (entry_of (heapOf c)) xs \<and> entry_of (heapOf c) e = (lk, lv, lt)"
proof -
  from assms obtain L b where L: "cache_ok c L" "A = store_of c L" "lruBuckets c bn = Some b"
    "cap = bMaxLen b" and es: "es @ [(lk, lv, lt)] = map (entry_of (heapOf c)) (L bn)"
    by (auto simp: refines_def store_of_Some)
  obtain xs e where "L bn = xs @ [e]"
    using es by (metis append_is_Nil_conv list.map_disc_iff not_Cons_self2 rev_exhaust)
  with L es show ?thesis
    by (intro exI [of _ L] exI [of _ b] exI [of _ xs] exI [of _ e]) auto
qed

section \<open>Properties\<close>

text \<open>
  C1: The local store implements its specification, as long as its buckets do not collide and do not
  evict. From an empty cache, take any history of bucket creations, reads, writes, deletions and
  expiry updates in which no capacity is negative, no bucket name is a prefix of another, every operation names a bucket
  that exists, and new keys are only inserted below the capacity of their bucket
  (\<open>admissible\<close>). It returns (no panic, no endless walk) exactly the answers of the abstract
  store (per bucket a list of entries, most recently used first), and ends in a state that
  represents the abstract one: lists well formed, \<open>keyVal\<close> the exact index of the listed
  nodes, lengths and the size instrument right. The restrictions are needed: see
  \<open>keyVal_collision\<close> for the names and \<open>Eviction\<close> for what follows an eviction.
\<close>

theorem local_history_refines:
  assumes "guarded admissible a_exec ops Map.empty"
  shows "\<exists>c. run local_step ops (initCache self r) = Some (fst (spec_run a_exec ops Map.empty), c)
    \<and> refines c (snd (spec_run a_exec ops Map.empty))"
  using refines_initCache assms by (rule local_store.run_simulates)

theorem local_history_refines_witness:
  "\<exists>c. run local_step [OpCreate ''s'' 0 2, OpSet 5 ''s'' ''k'' (AInt 1) 0, OpGet ''s'' ''k'',
       OpDelete ''s'' ''k'', OpGet ''s'' ''k''] (initCache ''n'' 3)
     = Some ([Inr ANil, Inr ANil, Inr (AInt 1), Inr ANil, Inl ERR_NOT_FOUND], c)"
  using local_history_refines
    [of "[OpCreate ''s'' 0 2, OpSet 5 ''s'' ''k'' (AInt 1) 0, OpGet ''s'' ''k'',
       OpDelete ''s'' ''k'', OpGet ''s'' ''k'']" "''n''" 3]
  by (auto simp: prefix_free_def lookup_def entries_def put_entries_def a_set_def a_without_def
      a_touch_def simp del: run.simps)

text \<open>
  What was written is read. After \<open>setLocal\<close> on a stored key or below the capacity,
  \<open>getLocal\<close> returns the new value for this key and the previous answer for every other key
  of every bucket.
\<close>

theorem setLocal_then_getLocal:
  assumes ref: "refines c A" and adm: "admissible (OpSet now bn k v ttl) A"
  shows "\<exists>c'. setLocal now bn k v ttl c = Ret (Inr ()) c'
    \<and> (\<exists>c2. getLocal bn k c' = Ret (Inr v) c2)
    \<and> (\<forall>bn' k' r c1. (bn', k') \<noteq> (bn, k) \<longrightarrow> A bn' \<noteq> None \<longrightarrow> getLocal bn' k' c = Ret r c1 \<longrightarrow>
         (\<exists>c2. getLocal bn' k' c' = Ret r c2))"
proof -
  from op_refines [OF ref adm] obtain c' where
    run: "setLocal now bn k v ttl c = Ret (Inr ()) c'"
    and ref': "refines c' (snd (a_exec (OpSet now bn k v ttl) A))"
    by (auto simp: as_value_def split: outcome.splits sum.splits)
  obtain cap es where A: "A bn = Some (cap, es)" using adm by (auto split: option.splits)
  let ?B = "A(bn \<mapsto> (cap, a_set k v (expiry now ttl) es))"
  have ref': "refines c' ?B" using ref' by (simp add: A put_entries_def entries_def)
  have read: "\<exists>c2. getLocal bn' k' d = Ret (case lookup k' (entries B bn') of
      None \<Rightarrow> Inl ERR_NOT_FOUND | Some (v', t') \<Rightarrow> Inr v') c2"
    if "refines d B" "B bn' \<noteq> None" for d B bn' k'
    using op_refines [OF that(1), of "OpGet bn' k'"] that(2) by (auto split: option.splits)
  have look: "lookup k' (a_set k v t es) = (if k' = k then Some (v, t) else lookup k' es)" for k' t
    by (induction es) (auto simp: lookup_def a_set_def a_without_def)
  have "\<exists>c2. getLocal bn k c' = Ret (Inr v) c2"
    using read [OF ref', of bn k] by (simp add: entries_def look)
  moreover have "\<exists>c2. getLocal bn' k' c' = Ret r c2"
    if "(bn', k') \<noteq> (bn, k)" "A bn' \<noteq> None" "getLocal bn' k' c = Ret r c1" for bn' k' r c1
  proof -
    have "lookup k' (entries ?B bn') = lookup k' (entries A bn')"
      using that(1) A by (auto simp: entries_def look)
    moreover have "?B bn' \<noteq> None" using that(2) by auto
    ultimately show ?thesis
      using read [OF ref', of bn' k'] read [OF ref that(2), of k'] that(3) by auto
  qed
  ultimately show ?thesis using run by blast
qed

text \<open>
  C21: The first eviction. In a cache none of whose buckets has evicted so far, and no bucket name of
  which is a prefix of another, \<open>setLocal\<close> of a new key into a bucket that is full drops exactly the least recently used entry: the new key and all
  other keys of the bucket read their values, the dropped key is not found, and the length
  stays at the capacity. (Later evictions of the bucket need not hit the least recently
  used entry: \<open>second_eviction_evicts_recent\<close>.)
\<close>

theorem setLocal_evicts_lru:
  assumes ref: "refines c A" and A: "A bn = Some (cap, es @ [(lk, lv, lt)])"
    and full: "int (length es) + 1 = cap" and new: "lookup k (es @ [(lk, lv, lt)]) = None"
  shows "\<exists>c' b'. setLocal now bn k v ttl c = Ret (Inr ()) c'
    \<and> lruBuckets c' bn = Some b' \<and> bLen b' = cap
    \<and> (\<exists>c2. getLocal bn k c' = Ret (Inr v) c2)
    \<and> getLocal bn lk c' = Ret (Inl ERR_NOT_FOUND) c'
    \<and> (\<forall>k' v' t'. lookup k' es = Some (v', t') \<longrightarrow> (\<exists>c2. getLocal bn k' c' = Ret (Inr v') c2))
    \<and> lruEvictions c' bn = Suc (lruEvictions c bn)"
proof -
  from full_bucket [OF ref A] obtain L b xs e where ok: "cache_ok c L" and AL: "A = store_of c L"
    and b: "lruBuckets c bn = Some b" and cap: "cap = bMaxLen b" and Lbn: "L bn = xs @ [e]"
    and es: "es = map (entry_of (heapOf c)) xs" and e: "entry_of (heapOf c) e = (lk, lv, lt)" by blast
  let ?n = "freshAddr c"
  note look = lookup_index [OF ok b]
  have ents: "es @ [(lk, lv, lt)] = map (entry_of (heapOf c)) (L bn)" using es e Lbn by simp
  from new look [of k] have none: "keyVal c (bn @ k) = None" unfolding ents by simp
  have "int (length (L bn)) = bMaxLen b" using full cap es Lbn by simp
  from evict_result [OF ok b none this Lbn, of now v ttl] obtain c' b' where
    run: "setLocal now bn k v ttl c = Ret (Inr ()) c'" and b': "lruBuckets c' bn = Some b'"
    and l: "lru_list b' (heapOf c') (?n # xs) (Some e)"
    and ent_n: "entry_of (heapOf c') ?n = (k, v, expiry now ttl)"
    and ent: "\<And>a. a \<noteq> e \<Longrightarrow> a \<noteq> ?n \<Longrightarrow> entry_of (heapOf c') a = entry_of (heapOf c) a"
    and kv: "keyVal c' = (keyVal c)(bn @ k \<mapsto> ?n, bn @ nkey (heapOf c e) := None)"
    and ev: "lruEvictions c' = (lruEvictions c)(bn := Suc (lruEvictions c bn))"
    by auto
  have lk: "nkey (heapOf c e) = lk" using e by (simp add: entry_of_def)
  have lk_idx: "keyVal c (bn @ lk) = Some e" using cache_okD(7) [OF ok] Lbn lk by fastforce
  with none have klk: "k \<noteq> lk" by auto
  have "bLen b' = cap" using l full es by (simp add: lru_list_def)
  moreover have "\<exists>c2. getLocal bn k c' = Ret (Inr v) c2"
    using getLocal_hit [OF b', of k ?n] kv klk ent_n lk by (simp add: entry_of_def)
  moreover have "getLocal bn lk c' = Ret (Inl ERR_NOT_FOUND) c'"
    using kv lk by (simp add: getLocal_def keyVal_Get_def)
  moreover have "\<exists>c2. getLocal bn k' c' = Ret (Inr v') c2" if "lookup k' es = Some (v', t')" for k' v' t'
  proof -
    have dist: "distinct (L bn)" using cache_ok_distinct [OF ok] .
    from that obtain a where a: "a \<in> set xs" "nkey (heapOf c a) = k'" "ndata (heapOf c a) = v'"
      unfolding es lookup_entries by (auto dest!: find_SomeD)
    then have idx: "keyVal c (bn @ k') = Some a" using cache_okD(7) [OF ok] Lbn by fastforce
    have ne: "a \<noteq> e" "a \<noteq> ?n" using a dist Lbn cache_okD(6) [OF ok, of ?n bn] by auto
    then have "k' \<noteq> lk" "k' \<noteq> k" using idx lk_idx none by auto
    with kv idx lk have "keyVal c' (bn @ k') = Some a" by simp
    moreover have "ndata (heapOf c' a) = v'" using ent [OF ne] a by (simp add: entry_of_def)
    ultimately show ?thesis using getLocal_hit [OF b'] by metis
  qed
  moreover have "lruEvictions c' bn = Suc (lruEvictions c bn)" using ev by simp
  ultimately show ?thesis using run b' by blast
qed

text \<open>States for the witnesses: what a history leaves behind.\<close>

definition state_after :: "local_op list \<Rightarrow> cache \<Rightarrow> cache" where
  "state_after ops c = snd (the (run local_step ops c))"

lemma refines_state_after:
  assumes "guarded admissible a_exec ops Map.empty"
  shows "refines (state_after ops (initCache self r)) (snd (spec_run a_exec ops Map.empty))"
  using local_store.run_simulates [OF refines_initCache assms, of self r]
  by (auto simp: state_after_def)

lemmas spec_eval = prefix_free_def lookup_def entries_def put_entries_def a_set_def a_without_def
  a_touch_def expiry_def

definition full_demo :: cache where
  "full_demo = state_after [OpCreate ''s'' 0 2, OpSet 5 ''s'' ''a'' (AInt 1) 0,
     OpSet 6 ''s'' ''b'' (AInt 2) 0] (initCache ''n'' 3)"

lemma refines_full_demo:
  "refines full_demo [''s'' \<mapsto> (2, [(''b'', AInt 2, None)] @ [(''a'', AInt 1, None)])]"
  using refines_state_after [of "[OpCreate ''s'' 0 2, OpSet 5 ''s'' ''a'' (AInt 1) 0,
     OpSet 6 ''s'' ''b'' (AInt 2) 0]" "''n''" 3]
  by (simp add: full_demo_def spec_eval)

theorem setLocal_then_getLocal_witness:
  "\<exists>c' c2. setLocal 9 ''s'' ''a'' (AInt 7) 0 full_demo = Ret (Inr ()) c'
     \<and> getLocal ''s'' ''a'' c' = Ret (Inr (AInt 7)) c2"
  using setLocal_then_getLocal [OF refines_full_demo, of 9 "''s''" "''a''" "AInt 7" 0]
  by (auto simp: lookup_def)

lemma setLocal_full_returns:
  assumes ref: "refines c A" and A: "A bn = Some (cap, es @ [(lk, lv, lt)])"
    and full: "int (length es) + 1 = cap" and new: "lookup k (es @ [(lk, lv, lt)]) = None"
  shows "\<exists>c'. setLocal now bn k v ttl c = Ret (Inr ()) c'"
proof -
  from full_bucket [OF ref A] obtain L b xs e where ok: "cache_ok c L"
    and b: "lruBuckets c bn = Some b" and cap: "cap = bMaxLen b" and Lbn: "L bn = xs @ [e]"
    and es: "es = map (entry_of (heapOf c)) xs" and e: "entry_of (heapOf c) e = (lk, lv, lt)" by blast
  have ents: "es @ [(lk, lv, lt)] = map (entry_of (heapOf c)) (L bn)" using es e Lbn by simp
  from new lookup_index [OF ok b, of k] have none: "keyVal c (bn @ k) = None" unfolding ents by simp
  have "int (length (L bn)) = bMaxLen b" using full cap es Lbn by simp
  from evict_result [OF ok b none this Lbn] show ?thesis by blast
qed

theorem setLocal_evicts_lru_witness:
  "\<exists>c'. setLocal 9 ''s'' ''c'' (AInt 3) 0 full_demo = Ret (Inr ()) c'
     \<and> getLocal ''s'' ''a'' c' = Ret (Inl ERR_NOT_FOUND) c'"
  using setLocal_evicts_lru [OF refines_full_demo, of "''s''" 2 "[(''b'', AInt 2, None)]"
      "''a''" "AInt 1" None "''c''" 9 "AInt 3" 0]
  by (auto simp: lookup_def)

lemma stale_after_eviction:
  assumes ref: "refines c A" and A: "A bn = Some (cap, es @ [(lk, lv, lt)])"
    and full: "int (length es) + 1 = cap" and new: "lookup k (es @ [(lk, lv, lt)]) = None"
  shows "\<exists>c' b' ns e. setLocal now bn k v ttl c = Ret (Inr ()) c' \<and> lruBuckets c' bn = Some b'
    \<and> walk (heapOf c') (bHead b') = Some (ns @ [e])
    \<and> map (\<lambda>a. nkey (heapOf c' a)) ns = k # map fst es \<and> bLen b' = int (length ns)
    \<and> nkey (heapOf c' e) = lk \<and> ndata (heapOf c' e) = ANil \<and> nexpiresAt (heapOf c' e) = lt
    \<and> keyVal c' (bn @ lk) = None"
proof -
  from full_bucket [OF ref A] obtain L b xs e where ok: "cache_ok c L"
    and b: "lruBuckets c bn = Some b" and cap: "cap = bMaxLen b" and Lbn: "L bn = xs @ [e]"
    and es: "es = map (entry_of (heapOf c)) xs" and e: "entry_of (heapOf c) e = (lk, lv, lt)" by blast
  let ?n = "freshAddr c"
  have ents: "es @ [(lk, lv, lt)] = map (entry_of (heapOf c)) (L bn)" using es e Lbn by simp
  from new lookup_index [OF ok b, of k] have none: "keyVal c (bn @ k) = None" unfolding ents by simp
  have "int (length (L bn)) = bMaxLen b" using full cap es Lbn by simp
  from evict_result [OF ok b none this Lbn, of now v ttl] obtain c' b' where
    run: "setLocal now bn k v ttl c = Ret (Inr ()) c'" and b': "lruBuckets c' bn = Some b'"
    and l: "lru_list b' (heapOf c') (?n # xs) (Some e)"
    and stale: "nnext (heapOf c' e) = None" "ndata (heapOf c' e) = ANil"
      "nkey (heapOf c' e) = nkey (heapOf c e)" "nexpiresAt (heapOf c' e) = nexpiresAt (heapOf c e)"
    and ent_n: "entry_of (heapOf c') ?n = (k, v, expiry now ttl)"
    and ent: "\<And>a. a \<noteq> e \<Longrightarrow> a \<noteq> ?n \<Longrightarrow> entry_of (heapOf c') a = entry_of (heapOf c) a"
    and kv: "keyVal c' = (keyVal c)(bn @ k \<mapsto> ?n, bn @ nkey (heapOf c e) := None)"
    by auto
  have "walk (heapOf c') (bHead b') = Some ((?n # xs) @ [e])"
    using l walk_dseg [of "heapOf c'" None "?n # xs" "Some e"] stale(1)
    by (simp add: lru_list_def walk_Some)
  moreover have "map (\<lambda>a. nkey (heapOf c' a)) (?n # xs) = k # map fst es"
  proof -
    have "nkey (heapOf c' a) = nkey (heapOf c a)" if "a \<in> set xs" for a
      using ent [of a] that cache_ok_distinct [OF ok, of bn] Lbn cache_okD(6) [OF ok, of ?n bn]
      by (auto simp: entry_of_def)
    then show ?thesis using ent_n by (simp add: es entry_of_def o_def)
  qed
  moreover have "bLen b' = int (length (?n # xs))" using l by (simp add: lru_list_def)
  moreover have "keyVal c' (bn @ lk) = None" using kv e by (simp add: entry_of_def)
  ultimately show ?thesis using run b' stale e by (auto simp: entry_of_def)
qed

text \<open>
  After an eviction the bucket's list still reaches the evicted entry. \<open>setLocal\<close> does not
  clear the \<open>next\<close> pointer of the new tail, so every walk from the head (expiry worker,
  rebalancer, \<open>Delete\<close>) ends with a node that carries the evicted key and a \<open>nil\<close> value,
  although the length does not count it and \<open>keyVal\<close> does not hold it.
\<close>

theorem eviction_leaves_stale_node:
  assumes ref: "refines c A" and A: "A bn = Some (cap, es @ [(lk, lv, lt)])"
    and full: "int (length es) + 1 = cap" and new: "lookup k (es @ [(lk, lv, lt)]) = None"
  shows "\<exists>c' b' ns e. setLocal now bn k v ttl c = Ret (Inr ()) c' \<and> lruBuckets c' bn = Some b'
    \<and> walk (heapOf c') (bHead b') = Some (ns @ [e])
    \<and> map (\<lambda>a. nkey (heapOf c' a)) ns = k # map fst es \<and> bLen b' = int (length ns)
    \<and> nkey (heapOf c' e) = lk \<and> ndata (heapOf c' e) = ANil \<and> nexpiresAt (heapOf c' e) = lt
    \<and> keyVal c' (bn @ lk) = None"
  using assms by (rule stale_after_eviction)

theorem eviction_leaves_stale_node_witness:
  "\<exists>c' b' ns e. setLocal 9 ''s'' ''c'' (AInt 3) 0 full_demo = Ret (Inr ()) c'
     \<and> lruBuckets c' ''s'' = Some b' \<and> bLen b' = 2
     \<and> walk (heapOf c') (bHead b') = Some (ns @ [e]) \<and> length ns = 2"
  using eviction_leaves_stale_node [OF refines_full_demo, of "''s''" 2 "[(''b'', AInt 2, None)]"
      "''a''" "AInt 1" None "''c''" 9 "AInt 3" 0]
  by (force simp: lookup_def)

text \<open>
  Deleting the key that was just evicted empties the bucket's list. The walk of \<open>Delete\<close>
  reaches the stale node, takes it for the only node (it has no neighbours) and sets head and
  tail to \<open>nil\<close>; the call reports success. All live entries stay indexed in \<open>keyVal\<close>, so they
  are read, but they are no longer in the list: neither eviction nor expiry nor the
  rebalancer sees them, and deleting one of them reports not found and leaves it readable.
\<close>

theorem delete_evicted_key_empties_list:
  assumes ref: "refines c A" and A: "A bn = Some (cap, es @ [(lk, lv, lt)])"
    and full: "int (length es) + 1 = cap" and new: "lookup k (es @ [(lk, lv, lt)]) = None"
    and set: "setLocal now bn k v ttl c = Ret (Inr ()) c'"
  shows "\<exists>c'' b''. deleteLocal bn lk c' = Ret (Inr ()) c'' \<and> lruBuckets c'' bn = Some b''
    \<and> walk (heapOf c'') (bHead b'') = Some [] \<and> bTail b'' = None \<and> bLen b'' = cap - 1
    \<and> (\<forall>k' \<in> insert k (fst ` set es). keyVal c'' (bn @ k') \<noteq> None)
    \<and> (\<forall>k'. deleteLocal bn k' c'' = Ret (Inl ERR_NOT_FOUND) c'')"
proof -
  from full_bucket [OF ref A] obtain L b xs e where ok: "cache_ok c L"
    and b: "lruBuckets c bn = Some b" and cap: "cap = bMaxLen b" and Lbn: "L bn = xs @ [e]"
    and es: "es = map (entry_of (heapOf c)) xs" and e: "entry_of (heapOf c) e = (lk, lv, lt)" by blast
  let ?n = "freshAddr c"
  have ents: "es @ [(lk, lv, lt)] = map (entry_of (heapOf c)) (L bn)" using es e Lbn by simp
  from new lookup_index [OF ok b, of k] have none: "keyVal c (bn @ k) = None" unfolding ents by simp
  have "int (length (L bn)) = bMaxLen b" using full cap es Lbn by simp
  from evict_result [OF ok b none this Lbn, of now v ttl] set obtain b' where
    b': "lruBuckets c' bn = Some b'" and l: "lru_list b' (heapOf c') (?n # xs) (Some e)"
    and stale: "nnext (heapOf c' e) = None" "nprev (heapOf c' e) = None"
      "nkey (heapOf c' e) = nkey (heapOf c e)"
    and ent_n: "entry_of (heapOf c') ?n = (k, v, expiry now ttl)"
    and ent: "\<And>a. a \<noteq> e \<Longrightarrow> a \<noteq> ?n \<Longrightarrow> entry_of (heapOf c') a = entry_of (heapOf c) a"
    and kv: "keyVal c' = (keyVal c)(bn @ k \<mapsto> ?n, bn @ nkey (heapOf c e) := None)"
    by auto
  have lk: "nkey (heapOf c e) = lk" using e by (simp add: entry_of_def)
  have lk_idx: "keyVal c (bn @ lk) = Some e" using cache_okD(7) [OF ok] Lbn lk by fastforce
  have klk: "k \<noteq> lk" using none lk_idx by auto
  have xs: "e \<notin> set xs" "?n \<notin> set xs" "e \<noteq> ?n"
    using cache_ok_distinct [OF ok, of bn] Lbn cache_okD(6) [OF ok, of ?n bn] by auto
  have other: "nkey (heapOf c a) \<noteq> lk \<and> keyVal c (bn @ nkey (heapOf c a)) = Some a" if "a \<in> set xs" for a
    using that xs(1) cache_okD(7) [OF ok, of "bn @ nkey (heapOf c a)" a] Lbn lk_idx
    by (metis Un_iff option.inject set_append)
  have keys: "nkey (heapOf c' a) \<noteq> lk" if "a \<in> set (?n # xs)" for a
  proof (cases "a = ?n")
    case True
    then show ?thesis using ent_n klk by (simp add: entry_of_def)
  next
    case False
    with that have a: "a \<in> set xs" by simp
    then have "a \<noteq> e" using xs by blast
    from ent [OF this False] other [OF a] show ?thesis by (simp add: entry_of_def)
  qed
  then have "find (\<lambda>a. nkey (heapOf c' a) = lk) (?n # xs) = None" by (auto simp: find_None_iff)
  then have "find_node (heapOf c') lk (first_or (Some e) (?n # xs)) = Some (Some e)"
    using find_node_dseg [of "heapOf c'" None "?n # xs" "Some e" lk] l stale lk
    by (simp add: lru_list_def find_node_Some del: first_or.simps)
  then have found: "find_node (heapOf c') lk (bHead b') = Some (Some e)"
    using l by (simp add: lru_list_def)
  have len: "bLen b' = cap" using l full es by (simp add: lru_list_def)
  obtain c'' where run: "deleteLocal bn lk c' = Ret (Inr ()) c''"
    and b'': "lruBuckets c'' bn = Some (b'\<lparr>bHead := None, bTail := None, bLen := bLen b' - 1\<rparr>)"
    and kv'': "keyVal c'' = (keyVal c')(bn @ lk := None)"
    using b' found delete_only [of "heapOf c'" e b'] stale(1,2)
    by (simp add: deleteLocal_def Delete_def cache_updates Let_def)
  have "keyVal c'' (bn @ k') \<noteq> None" if "k' \<in> insert k (fst ` set es)" for k'
  proof -
    from that consider "k' = k" | a where "a \<in> set xs" "k' = nkey (heapOf c a)"
      by (auto simp: es)
    then show ?thesis
    proof cases
      case 1
      with klk lk show ?thesis by (simp add: kv'' kv)
    next
      case 2
      with other [OF 2(1)] none lk show ?thesis by (auto simp: kv'' kv)
    qed
  qed
  moreover have "deleteLocal bn k' c'' = Ret (Inl ERR_NOT_FOUND) c''" for k'
    using b'' by (simp add: deleteLocal_def Delete_def)
  ultimately show ?thesis using run b'' len by auto
qed

theorem delete_evicted_key_empties_list_witness:
  "\<exists>c' c'' b''. setLocal 9 ''s'' ''c'' (AInt 3) 0 full_demo = Ret (Inr ()) c'
     \<and> deleteLocal ''s'' ''a'' c' = Ret (Inr ()) c'' \<and> lruBuckets c'' ''s'' = Some b''
     \<and> walk (heapOf c'') (bHead b'') = Some [] \<and> keyVal c'' (''s'' @ ''b'') \<noteq> None"
proof -
  obtain c' where c': "setLocal 9 ''s'' ''c'' (AInt 3) 0 full_demo = Ret (Inr ()) c'"
    using setLocal_full_returns [OF refines_full_demo, of "''s''" 2 "[(''b'', AInt 2, None)]"
        "''a''" "AInt 1" None "''c''" 9 "AInt 3" 0]
    by (auto simp: lookup_def)
  show ?thesis
    using delete_evicted_key_empties_list [OF refines_full_demo _ _ _ c', of 2
        "[(''b'', AInt 2, None)]" "''a''" "AInt 1" None] c'
    by (force simp: lookup_def)
qed

text \<open>
  Two buckets interfere when their names and keys run together. \<open>keyVal\<close> is indexed by
  the plain concatenation of bucket name and key: if \<open>bn @ k = bn' @ k'\<close>, a value written to
  key \<open>k\<close> of bucket \<open>bn\<close> is returned for key \<open>k'\<close> of bucket \<open>bn'\<close>, which never stored it.
\<close>

theorem keyVal_collision:
  assumes "lruBuckets c bn = Some b" and "lruBuckets c bn' = Some b'"
    and "bn @ k = bn' @ k'" and "keyVal c (bn @ k) = None" and "bLen b < bMaxLen b"
  shows "\<exists>c1 c2. setLocal now bn k v ttl c = Ret (Inr ()) c1 \<and> getLocal bn' k' c1 = Ret (Inr v) c2"
proof -
  let ?n = "freshAddr c"
  obtain bh c1 where ins: "inserted now bn k v ttl b c = (bh, c1)" by fastforce
  then have bh: "bh = Push ?n b ((heapOf c)(?n := \<lparr>nnext = None, nprev = None, nkey = k, ndata = v,
      nexpiresAt = expiry now ttl\<rparr>))"
    and c1: "c1 = recordBucketSize bn 1 (put_list bn bh (keyVal_Set (bn @ k) ?n (c\<lparr>freshAddr := Suc ?n\<rparr>)))"
    by (auto simp: inserted_def Let_def)
  have "\<not> bMaxLen (fst bh) < bLen (fst bh)"
    using Push_len [of ?n b "(heapOf c)(?n := \<lparr>nnext = None, nprev = None, nkey = k, ndata = v,
      nexpiresAt = expiry now ttl\<rparr>)"] assms(5) by (simp add: bh Push_config)
  then have "setLocal now bn k v ttl c = Ret (Inr ()) c1"
    using setLocal_new [OF assms(1,4)] ins by simp
  moreover have "ndata (heapOf c1 ?n) = v" by (simp add: c1 cache_updates bh)
  moreover have "keyVal c1 (bn' @ k') = Some ?n" using assms(3) by (simp add: c1 cache_updates)
  moreover obtain b2 where "lruBuckets c1 bn' = Some b2"
    using assms(2) by (cases "bn' = bn") (simp_all add: c1 cache_updates)
  ultimately show ?thesis using getLocal_hit by metis
qed

definition two_buckets :: cache where
  "two_buckets = state_after [OpCreate ''ab'' 0 2] (state_after [OpCreate ''a'' 0 2] (initCache ''n'' 3))"

theorem keyVal_collision_witness:
  "\<exists>c1 c2. setLocal 1 ''a'' ''bc'' (AInt 7) 0 two_buckets = Ret (Inr ()) c1
     \<and> getLocal ''ab'' ''c'' c1 = Ret (Inr (AInt 7)) c2"
  by (rule keyVal_collision)
    (auto simp: two_buckets_def state_after_def local_step_def returned_def as_value_def
      CreateBucket_def initCache_def)

end
