(* ===== verification/Routing.thy ===== *)
theory Routing
  imports Cache_Types "HOL-Library.Multiset"
begin

text \<open>
  Routing (\<open>ds.go\<close>: \<open>scoreRegular\<close>, \<open>getReplicas\<close>; \<open>cache.go\<close>: \<open>routingKey\<close>,
  \<open>getReplicaNodes\<close>, \<open>getPrimaryNode\<close>, \<open>isLocal\<close>, \<open>invalidateCaches\<close>): which nodes hold a
  key, and the two caches of routing decisions.

  The hash function (\<open>xxhash\<close>, not part of the repository) is the parameter \<open>hash\<close>, from the
  bytes written to the 64-bit sum. The nodes a cache sees (\<open>c.app.Nodes()\<close>, the keys of the
  map of connections in Go's unspecified map order) are the parameter \<open>peers\<close>. \<open>sort.Slice\<close> is
  modelled by the stable \<open>sort_key\<close>, which is what its insertion sort computes for up to 12
  elements; where no two scores are equal the result is the only sorted permutation, so the
  properties that assume distinct scores do not depend on the algorithm.
\<close>

section \<open>Keys and scores\<close>

definition routingKey :: "string \<Rightarrow> string \<Rightarrow> string" where
  "routingKey bucket key = itoa (length bucket) @ '':'' @ bucket @ key"

type_synonym hash = "byte list \<Rightarrow> 64 word"

record replicaNode =
  rnId :: string
  rnScore :: "64 word"

definition scoreRegular :: "hash \<Rightarrow> string \<Rightarrow> string \<Rightarrow> 64 word" where
  "scoreRegular hash key node = hash (bytes_of key @ bytes_of node)"

text \<open>\<open>nodes = append(c.app.Nodes(), c.nodeId)\<close>.\<close>

definition members :: "string list \<Rightarrow> cache \<Rightarrow> string list" where
  "members peers c = peers @ [nodeId c]"

definition scoreNodes :: "hash \<Rightarrow> string \<Rightarrow> string list \<Rightarrow> replicaNode list" where
  "scoreNodes hash key nodes = map (\<lambda>n. \<lparr>rnId = n, rnScore = scoreRegular hash key n\<rparr>) nodes"

definition getReplicas :: "hash \<Rightarrow> string list \<Rightarrow> cache \<Rightarrow> string \<Rightarrow> replicaNode list" where
  "getReplicas hash peers c key =
     sort_key (\<lambda>r. - uint (rnScore r)) (scoreNodes hash key (members peers c))"

section \<open>Replica sets and routing caches\<close>

definition getReplicaNodes ::
    "hash \<Rightarrow> string list \<Rightarrow> cache \<Rightarrow> string \<Rightarrow> string \<Rightarrow> replicaNode list" where
  "getReplicaNodes hash peers c bucket key =
     (let rs = getReplicas hash peers c (routingKey bucket key) in
      take (min (replicas c) (length rs)) rs)"

text \<open>
  \<open>getPrimaryNode\<close> and \<open>isLocal\<close> read their cache, compute the answer on a miss, and store it.
  The read and the store take the cache's lock separately, so they are two steps:
  \<open>Inl\<close> is a hit (or the empty id, which is not stored), \<open>Inr\<close> an answer still to be stored.
\<close>

definition primary_read :: "hash \<Rightarrow> string list \<Rightarrow> string \<Rightarrow> string \<Rightarrow> cache \<Rightarrow> string + string" where
  "primary_read hash peers bucket key c =
     (let fullKey = routingKey bucket key in
      case nodeScoreHashMap c fullKey of
        Some i \<Rightarrow> Inl i
      | None \<Rightarrow> (case getReplicas hash peers c fullKey of [] \<Rightarrow> Inl [] | r # _ \<Rightarrow> Inr (rnId r)))"

definition primary_store :: "string \<Rightarrow> string \<Rightarrow> string \<Rightarrow> cache \<Rightarrow> cache" where
  "primary_store bucket key i c =
     c\<lparr>nodeScoreHashMap := (nodeScoreHashMap c)(routingKey bucket key \<mapsto> i)\<rparr>"

definition getPrimaryNode ::
    "hash \<Rightarrow> string list \<Rightarrow> string \<Rightarrow> string \<Rightarrow> cache \<Rightarrow> string \<times> cache" where
  "getPrimaryNode hash peers bucket key c =
     (case primary_read hash peers bucket key c of
        Inl i \<Rightarrow> (i, c) | Inr i \<Rightarrow> (i, primary_store bucket key i c))"

definition local_read :: "hash \<Rightarrow> string list \<Rightarrow> string \<Rightarrow> string \<Rightarrow> cache \<Rightarrow> bool + bool" where
  "local_read hash peers bucket key c =
     (let fullKey = routingKey bucket key in
      case replicaLocalityCache c fullKey of
        Some l \<Rightarrow> Inl l
      | None \<Rightarrow>
          let rs = getReplicas hash peers c fullKey;
              limit = (if length rs < replicas c then length rs else replicas c)
          in Inr (list_ex (\<lambda>r. rnId r = nodeId c) (take limit rs)))"

definition local_store_answer :: "string \<Rightarrow> string \<Rightarrow> bool \<Rightarrow> cache \<Rightarrow> cache" where
  "local_store_answer bucket key l c =
     c\<lparr>replicaLocalityCache := (replicaLocalityCache c)(routingKey bucket key \<mapsto> l)\<rparr>"

definition isLocal :: "hash \<Rightarrow> string list \<Rightarrow> string \<Rightarrow> string \<Rightarrow> cache \<Rightarrow> bool \<times> cache" where
  "isLocal hash peers bucket key c =
     (case local_read hash peers bucket key c of
        Inl l \<Rightarrow> (l, c) | Inr l \<Rightarrow> (l, local_store_answer bucket key l c))"

definition invalidateCaches :: "cache \<Rightarrow> cache" where
  "invalidateCaches c = c\<lparr>nodeScoreHashMap := Map.empty, replicaLocalityCache := Map.empty\<rparr>"

text \<open>\<open>invalidateCaches\<close> empties the two caches one after the other, each under its own lock.\<close>

definition clear_primaries :: "cache \<Rightarrow> cache" where
  "clear_primaries c = c\<lparr>nodeScoreHashMap := Map.empty\<rparr>"

definition clear_localities :: "cache \<Rightarrow> cache" where
  "clear_localities c = c\<lparr>replicaLocalityCache := Map.empty\<rparr>"

lemma invalidateCaches_sections: "invalidateCaches c = clear_localities (clear_primaries c)"
  by (simp add: invalidateCaches_def clear_localities_def clear_primaries_def)

section \<open>Lemmas on the ranking\<close>

lemma routingKey_eq: "routingKey b k = routingKey b' k' \<longleftrightarrow> b = b' \<and> k = k'"
proof
  assume "routingKey b k = routingKey b' k'"
  then have "itoa (length b) @ CHR '':'' # (b @ k) = itoa (length b') @ CHR '':'' # (b' @ k')"
    by (simp add: routingKey_def)
  from split_at_separator [OF this colon_notin_itoa colon_notin_itoa]
  have "itoa (length b) = itoa (length b')" and eq: "b @ k = b' @ k'" by auto
  then have "length b = length b'" using itoa_inject by blast
  with eq show "b = b' \<and> k = k'" by simp
qed simp

text \<open>The ids in rank order: the members sorted by score, highest first.\<close>

definition ranking :: "hash \<Rightarrow> string \<Rightarrow> string list \<Rightarrow> string list" where
  "ranking hash key ms = sort_key (\<lambda>n. - uint (scoreRegular hash key n)) ms"

definition well_scored :: "hash \<Rightarrow> string \<Rightarrow> string list \<Rightarrow> bool" where
  "well_scored hash key ms \<longleftrightarrow> distinct ms \<and> distinct (map (scoreRegular hash key) ms)"

lemma insort_key_map: "insort_key f (g x) (map g xs) = map g (insort_key (\<lambda>y. f (g y)) x xs)"
  by (induction xs) auto

lemma sort_key_map: "sort_key f (map g xs) = map g (sort_key (\<lambda>y. f (g y)) xs)"
  by (induction xs) (simp_all add: insort_key_map)

lemma getReplicas_ranking:
  "getReplicas hash peers c key = scoreNodes hash key (ranking hash key (members peers c))"
  by (simp add: getReplicas_def scoreNodes_def ranking_def sort_key_map)

lemma map_rnId_scoreNodes [simp]: "map rnId (scoreNodes hash key ns) = ns"
  by (simp add: scoreNodes_def o_def)

lemma length_scoreNodes [simp]: "length (scoreNodes hash key ns) = length ns"
  by (simp add: scoreNodes_def)

lemma length_ranking [simp]: "length (ranking hash key ms) = length ms"
  by (simp add: ranking_def)

lemma set_ranking [simp]: "set (ranking hash key ms) = set ms"
  by (simp add: ranking_def)

lemma take_scoreNodes: "take n (scoreNodes hash key ns) = scoreNodes hash key (take n ns)"
  by (simp add: scoreNodes_def take_map)

lemma getReplicaNodes_ranking:
  "getReplicaNodes hash peers c b k =
     scoreNodes hash (routingKey b k)
       (take (replicas c) (ranking hash (routingKey b k) (members peers c)))"
  by (simp add: getReplicaNodes_def getReplicas_ranking take_scoreNodes Let_def min_def)

lemma well_scored_ranking: "well_scored hash key ms \<Longrightarrow> distinct (ranking hash key ms)"
  by (simp add: well_scored_def ranking_def)

lemma sorted_ranking: "sorted (map (\<lambda>n. - uint (scoreRegular hash key n)) (ranking hash key ms))"
  by (simp add: ranking_def)

lemma ranking_unique:
  assumes "well_scored hash key ms" and "distinct ns" and "set ns = set ms"
  shows "ranking hash key ns = ranking hash key ms"
proof (rule map_sorted_distinct_set_unique [of "\<lambda>n. - uint (scoreRegular hash key n)"])
  have "inj_on (scoreRegular hash key) (set ms)"
    using assms(1) by (simp add: well_scored_def distinct_map)
  then have inj: "inj_on (\<lambda>n. - uint (scoreRegular hash key n)) (set ms)"
    by (auto simp: inj_on_def word_uint_eq_iff [symmetric])
  then show "inj_on (\<lambda>n. - uint (scoreRegular hash key n))
      (set (ranking hash key ns) \<union> set (ranking hash key ms))" using assms(3) by simp
  show "distinct (map (\<lambda>n. - uint (scoreRegular hash key n)) (ranking hash key ns))"
    using inj assms(2,3) by (simp add: distinct_map ranking_def)
  show "distinct (map (\<lambda>n. - uint (scoreRegular hash key n)) (ranking hash key ms))"
    using inj well_scored_ranking [OF assms(1)] by (simp add: distinct_map)
qed (use assms(3) in \<open>simp_all add: sorted_ranking\<close>)

lemma ranking_filter: "ranking hash key (filter P ms) = filter P (ranking hash key ms)"
  by (simp add: ranking_def filter_sort)

text \<open>A node is in the first \<open>n\<close> ranks when fewer than \<open>n\<close> members beat it.\<close>

lemma take_rank:
  fixes f :: "'a \<Rightarrow> int"
  assumes "distinct xs" and "sorted (map f xs)" and "inj_on f (set xs)" and "x \<in> set xs"
  shows "x \<in> set (take n xs) \<longleftrightarrow> card {y \<in> set xs. f y < f x} < n"
proof -
  from assms(4) obtain i where i: "i < length xs" "xs ! i = x" by (auto simp: in_set_conv_nth)
  have lt: "f (xs ! j) < f x \<longleftrightarrow> j < i" if j: "j < length xs" for j
  proof
    assume "f (xs ! j) < f x"
    then show "j < i"
      using sorted_nth_mono [OF assms(2), of i j] i j by (cases "i \<le> j") auto
  next
    assume ji: "j < i"
    then have "f (xs ! j) \<le> f x" using sorted_nth_mono [OF assms(2), of j i] i by simp
    moreover have "xs ! j \<noteq> xs ! i" using nth_eq_iff_index_eq [OF assms(1) j i(1)] ji by simp
    then have "f (xs ! j) \<noteq> f x" using assms(3) i j by (auto simp: inj_on_def)
    ultimately show "f (xs ! j) < f x" by simp
  qed
  have "{y \<in> set xs. f y < f x} = (!) xs ` {..<i}"
  proof -
    have "{y \<in> set xs. f y < f x} = {xs ! j | j. j < length xs \<and> f (xs ! j) < f x}"
      by (auto simp: set_conv_nth)
    also have "\<dots> = {xs ! j | j. j < i}" using lt i(1) by (metis (no_types, lifting) order.strict_trans)
    also have "\<dots> = (!) xs ` {..<i}" by auto
    finally show ?thesis .
  qed
  moreover have "inj_on ((!) xs) {..<i}"
    using assms(1) i by (auto simp: inj_on_def nth_eq_iff_index_eq)
  ultimately have "card {y \<in> set xs. f y < f x} = i" by (simp add: card_image)
  moreover have "x \<in> set (take n xs) \<longleftrightarrow> i < n"
    using i assms(1) by (auto simp: in_set_conv_nth nth_eq_iff_index_eq)
  ultimately show ?thesis by simp
qed

text \<open>Removing one element from a list shifts at most one element into its first \<open>n\<close>.\<close>

lemma take_removed:
  "distinct xs \<Longrightarrow> x \<notin> set (take n xs) \<Longrightarrow> take n (filter (\<lambda>y. y \<noteq> x) xs) = take n xs"
proof (induction xs arbitrary: n)
  case (Cons a xs)
  then show ?case by (cases n) auto
qed simp

lemma take_removed_hit:
  "distinct xs \<Longrightarrow> x \<in> set (take n xs) \<Longrightarrow>
     take n (filter (\<lambda>y. y \<noteq> x) xs)
       = filter (\<lambda>y. y \<noteq> x) (take n xs) @ take 1 (drop n xs)"
proof (induction xs arbitrary: n)
  case (Cons a xs)
  then obtain m where n: "n = Suc m" by (cases n) auto
  show ?case
  proof (cases "a = x")
    case True
    with Cons.prems have "filter (\<lambda>y. y \<noteq> x) xs = xs" by (auto simp: filter_id_conv)
    moreover from True Cons.prems have "filter (\<lambda>y. y \<noteq> x) (take m xs) = take m xs"
      by (auto simp: filter_id_conv dest: in_set_takeD)
    ultimately show ?thesis using True by (simp add: n take_add [symmetric])
  next
    case False
    with Cons n show ?thesis by simp
  qed
qed simp

section \<open>The routing caches against recomputation\<close>

text \<open>The cached answers are those of ranking the members again.\<close>

definition coherent :: "hash \<Rightarrow> string list \<Rightarrow> cache \<Rightarrow> bool" where
  "coherent hash peers c \<longleftrightarrow>
     (\<forall>fk i. nodeScoreHashMap c fk = Some i \<longrightarrow> i = hd (ranking hash fk (members peers c))) \<and>
     (\<forall>fk l. replicaLocalityCache c fk = Some l \<longrightarrow>
        l = (nodeId c \<in> set (take (replicas c) (ranking hash fk (members peers c)))))"

lemma ranking_not_Nil [simp]: "ranking hash key (members peers c) \<noteq> []"
  by (metis length_ranking list.size(3) length_0_conv members_def snoc_eq_iff_butlast)

lemma primary_read_eq:
  "primary_read hash peers b k c =
     (case nodeScoreHashMap c (routingKey b k) of Some i \<Rightarrow> Inl i
      | None \<Rightarrow> Inr (hd (ranking hash (routingKey b k) (members peers c))))"
proof -
  obtain n ns where "ranking hash (routingKey b k) (members peers c) = n # ns"
    using ranking_not_Nil list.exhaust by metis
  then show ?thesis
    by (simp add: primary_read_def getReplicas_ranking scoreNodes_def split: option.split)
qed

lemma local_read_eq:
  "local_read hash peers b k c =
     (case replicaLocalityCache c (routingKey b k) of Some l \<Rightarrow> Inl l
      | None \<Rightarrow> Inr (nodeId c \<in>
          set (take (replicas c) (ranking hash (routingKey b k) (members peers c)))))"
proof -
  have "list_ex (\<lambda>r. rnId r = x) (scoreNodes hash fk ns) \<longleftrightarrow> x \<in> set ns" for x fk ns
    by (auto simp: list_ex_iff scoreNodes_def)
  then show ?thesis
    by (simp add: local_read_def getReplicas_ranking take_scoreNodes Let_def split: option.split)
qed

lemma getPrimaryNode_coherent:
  assumes "coherent hash peers c"
  shows "\<exists>c'. getPrimaryNode hash peers b k c
      = (hd (ranking hash (routingKey b k) (members peers c)), c')
    \<and> coherent hash peers c' \<and> nodeId c' = nodeId c \<and> replicas c' = replicas c"
  using assms
  by (auto simp: getPrimaryNode_def primary_read_eq primary_store_def coherent_def members_def
      split: option.split)

lemma isLocal_coherent:
  assumes "coherent hash peers c"
  shows "\<exists>c'. isLocal hash peers b k c = (nodeId c \<in>
      set (take (replicas c) (ranking hash (routingKey b k) (members peers c))), c')
    \<and> coherent hash peers c' \<and> nodeId c' = nodeId c \<and> replicas c' = replicas c"
  using assms
  by (auto simp: isLocal_def local_read_eq local_store_answer_def coherent_def members_def
      split: option.split)

section \<open>Properties\<close>

text \<open>
  The routing key determines bucket and key: the length prefix excludes the collisions
  that plain concatenation has.
\<close>

theorem routingKey_injective:
  "routingKey b k = routingKey b' k' \<longleftrightarrow> b = b' \<and> k = k'"
  by (rule routingKey_eq)

text \<open>
  All nodes agree. Two nodes that see the same cluster (each its peers and itself, in any
  order) compute the same replica list for a key, scores included, whatever order the maps of
  connections are walked in.
\<close>

theorem replica_sets_agree:
  assumes "well_scored hash (routingKey b k) (members peers c)"
    and "mset (members peers' c') = mset (members peers c)" and "replicas c' = replicas c"
  shows "getReplicaNodes hash peers' c' b k = getReplicaNodes hash peers c b k"
proof -
  have "distinct (members peers' c')" "set (members peers' c') = set (members peers c)"
    using assms(1,2) by (auto simp: well_scored_def dest: mset_eq_imp_distinct_iff mset_eq_setD)
  then show ?thesis
    using ranking_unique [OF assms(1)] assms(3) by (simp add: getReplicaNodes_ranking)
qed

text \<open>
  C25: A node is a replica of a key exactly when it is a member and fewer than \<open>replicas\<close>
  members have a higher score; in particular every key has \<open>min N n\<close> replicas. Sorting and
  cutting computes the top \<open>N\<close> of rendezvous hashing.
\<close>

theorem replica_iff_top_score:
  assumes "well_scored hash (routingKey b k) (members peers c)"
  shows "(n \<in> set (map rnId (getReplicaNodes hash peers c b k)) \<longleftrightarrow>
      n \<in> set (members peers c) \<and>
      card {m \<in> set (members peers c).
        scoreRegular hash (routingKey b k) n < scoreRegular hash (routingKey b k) m} < replicas c)
    \<and> length (getReplicaNodes hash peers c b k) = min (replicas c) (length peers + 1)"
proof -
  let ?ms = "members peers c" and ?s = "scoreRegular hash (routingKey b k)"
  let ?rk = "ranking hash (routingKey b k) ?ms"
  have "inj_on ?s (set ?ms)" using assms by (simp add: well_scored_def distinct_map)
  then have inj: "inj_on (\<lambda>n. - uint (?s n)) (set ?rk)"
    by (auto simp: inj_on_def word_uint_eq_iff [symmetric])
  have "n \<in> set (take (replicas c) ?rk) \<longleftrightarrow>
      n \<in> set ?ms \<and> card {m \<in> set ?ms. ?s n < ?s m} < replicas c"
  proof (cases "n \<in> set ?ms")
    case True
    with take_rank [OF well_scored_ranking [OF assms] sorted_ranking inj, of n "replicas c"]
    show ?thesis by (simp add: word_less_def)
  qed (use in_set_takeD [of n "replicas c" ?rk] in auto)
  then show ?thesis by (simp add: getReplicaNodes_ranking members_def)
qed

text \<open>Three nodes and a toy hash for the witnesses: the sum of the bytes, weighted by position.\<close>

definition demo_hash :: hash where
  "demo_hash bs = fold (\<lambda>b h. 31 * h + ucast b) bs 7"

lemma demo_well_scored:
  "well_scored demo_hash (routingKey ''s'' ''k'') (members [''a'', ''b''] (initCache ''c'' 2))"
  by (simp add: well_scored_def members_def initCache_def scoreRegular_def demo_hash_def
      bytes_of_def routingKey_def itoa.simps digit_char_def)

theorem replica_sets_agree_witness:
  "getReplicaNodes demo_hash [''c'', ''a''] (initCache ''b'' 2) ''s'' ''k''
     = getReplicaNodes demo_hash [''a'', ''b''] (initCache ''c'' 2) ''s'' ''k''"
  by (rule replica_sets_agree [OF demo_well_scored])
    (simp_all add: members_def initCache_def)

theorem replica_iff_top_score_witness:
  "length (getReplicaNodes demo_hash [''a'', ''b''] (initCache ''c'' 2) ''s'' ''k'') = 2"
  using replica_iff_top_score [OF demo_well_scored, of "''a''"] by (simp add: initCache_def)

text \<open>
  C24: Topology changes move as little as possible. When a node leaves, the replica set of a
  key it did not hold is unchanged, and that of a key it held keeps all other replicas and
  gains at most one; read backwards, a node that joins displaces at most the last replica.
\<close>

theorem replica_change_is_minimal:
  assumes "well_scored hash (routingKey b k) (members peers c)" and "x \<noteq> nodeId c"
  defines "before \<equiv> map rnId (getReplicaNodes hash peers c b k)"
    and "after \<equiv> map rnId (getReplicaNodes hash (filter (\<lambda>n. n \<noteq> x) peers) c b k)"
  shows "(x \<notin> set before \<longrightarrow> after = before) \<and>
    (x \<in> set before \<longrightarrow> (\<exists>ns. length ns \<le> 1 \<and> after = filter (\<lambda>n. n \<noteq> x) before @ ns))"
proof -
  let ?rk = "ranking hash (routingKey b k) (members peers c)"
  have "members (filter (\<lambda>n. n \<noteq> x) peers) c = filter (\<lambda>n. n \<noteq> x) (members peers c)"
    using assms(2) by (simp add: members_def)
  then have after: "after = take (replicas c) (filter (\<lambda>n. n \<noteq> x) ?rk)"
    by (simp add: after_def getReplicaNodes_ranking ranking_filter)
  have before: "before = take (replicas c) ?rk" by (simp add: before_def getReplicaNodes_ranking)
  note d = well_scored_ranking [OF assms(1)]
  show ?thesis
    using take_removed [OF d, of x "replicas c"] take_removed_hit [OF d, of x "replicas c"]
    by (auto simp: after before)
qed

theorem replica_change_is_minimal_witness:
  "set (map rnId (getReplicaNodes demo_hash (filter (\<lambda>n. n \<noteq> ''a'') [''a'', ''b'']) (initCache ''c'' 2)
       ''s'' ''k''))
     = {''b'', ''c''}
   \<and> (\<exists>ns. length ns \<le> 1 \<and> map rnId (getReplicaNodes demo_hash [''b''] (initCache ''c'' 2) ''s'' ''k'')
     = filter (\<lambda>n. n \<noteq> ''a'')
         (map rnId (getReplicaNodes demo_hash [''a'', ''b''] (initCache ''c'' 2) ''s'' ''k'')) @ ns)"
  using replica_change_is_minimal [OF demo_well_scored, of "''a''"]
  by (auto simp: initCache_def getReplicaNodes_ranking members_def ranking_def filter_id_conv
      dest: in_set_takeD)

text \<open>
  Invalidation can be lost. \<open>getPrimaryNode\<close> stores its answer after releasing the lock it
  read under, so an invalidation in between is overwritten: the answer computed before the
  topology change (even a node that has left) is returned from then on, for every later
  look-up, until the next topology change.
\<close>

theorem stale_primary_after_race:
  assumes "primary_read hash peers b k c = Inr i"
    and "i \<notin> set (members peers' c)"
  defines "c' \<equiv> primary_store b k i (invalidateCaches c)"
  shows "getPrimaryNode hash peers' b k c' = (i, c') \<and> i \<notin> set (members peers' c')
    \<and> fst (getPrimaryNode hash peers' b k (invalidateCaches c)) \<in> set (members peers' c')"
proof -
  have "hd (ranking hash (routingKey b k) (members peers' c)) \<in> set (members peers' c)"
    using hd_in_set [OF ranking_not_Nil [of hash "routingKey b k" peers' c]] by simp
  moreover have "members peers' c' = members peers' c"
    "members peers' (invalidateCaches c) = members peers' c"
    by (simp_all add: c'_def members_def primary_store_def invalidateCaches_def)
  ultimately show ?thesis
    using assms(2)
    by (simp add: getPrimaryNode_def primary_read_eq c'_def)
      (simp add: primary_store_def invalidateCaches_def)
qed

theorem stale_primary_after_race_witness:
  "getPrimaryNode demo_hash [] ''s'' ''k''
     (primary_store ''s'' ''k'' ''b'' (invalidateCaches (initCache ''a'' 1)))
   = (''b'', primary_store ''s'' ''k'' ''b'' (invalidateCaches (initCache ''a'' 1)))"
  using stale_primary_after_race [of demo_hash "[''b'']" "''s''" "''k''" "initCache ''a'' 1" "''b''" "[]"]
  by (simp add: primary_read_eq initCache_def members_def ranking_def scoreRegular_def
      demo_hash_def bytes_of_def routingKey_def itoa.simps digit_char_def)

end
