(* ===== verification/Metrics.thy ===== *)
theory Metrics
  imports Cache_Types
begin

text \<open>
  The instruments of the cache (\<open>internal/mycel/otel.go\<close>). A counter is identified by its
  field in the \<open>metrics\<close> struct and the values of its attributes, and so is a histogram; of a
  duration only the fact that it was recorded is kept.
\<close>

definition localityLocal :: string where
  "localityLocal = ''local''"

definition localityRemote :: string where
  "localityRemote = ''remote''"

definition add_counter :: "string \<Rightarrow> string list \<Rightarrow> int \<Rightarrow> cache \<Rightarrow> cache" where
  "add_counter field attrs n c = c\<lparr>counters := (counters c)
     (field := (counters c field)(attrs := counters c field attrs + n))\<rparr>"

definition observe :: "string \<Rightarrow> string list \<Rightarrow> int option \<Rightarrow> cache \<Rightarrow> cache" where
  "observe field attrs v c = c\<lparr>observations := (observations c)
     (field := (observations c field)(attrs := v # observations c field attrs))\<rparr>"

section \<open>Operations of the cache\<close>

text \<open>
  Each \<open>track\<close> function counts the call and returns a closure that records how it ended; the
  closure is the second definition of each pair.
\<close>

definition trackGet :: "string \<Rightarrow> string \<Rightarrow> cache \<Rightarrow> cache" where
  "trackGet bucket locality = add_counter ''gets'' [bucket, locality] 1"

definition trackGet_done :: "string \<Rightarrow> string \<Rightarrow> bool \<Rightarrow> cache \<Rightarrow> cache" where
  "trackGet_done bucket locality hit c =
     add_counter (if hit then ''hits'' else ''misses'') [bucket, locality] 1
       (observe ''duration'' [bucket, locality] None c)"

definition track_done :: "string \<Rightarrow> string \<Rightarrow> error + unit \<Rightarrow> cache \<Rightarrow> cache" where
  "track_done bucket locality r c =
     (case r of Inr _ \<Rightarrow> (\<lambda>c. c) | Inl _ \<Rightarrow> add_counter ''errors'' [bucket, locality] 1)
       (observe ''duration'' [bucket, locality] None c)"

definition trackSet :: "string \<Rightarrow> string \<Rightarrow> cache \<Rightarrow> cache" where
  "trackSet bucket locality = add_counter ''sets'' [bucket, locality] 1"

definition trackDelete :: "string \<Rightarrow> string \<Rightarrow> cache \<Rightarrow> cache" where
  "trackDelete bucket locality = add_counter ''deletes'' [bucket, locality] 1"

definition trackSetTtl :: "string \<Rightarrow> string \<Rightarrow> cache \<Rightarrow> cache" where
  "trackSetTtl bucket locality = add_counter ''ttlUpdates'' [bucket, locality] 1"

definition recordTtlEviction :: "string \<Rightarrow> cache \<Rightarrow> cache" where
  "recordTtlEviction bucket = add_counter ''ttlEvictions'' [bucket] 1"

section \<open>Replication, rebalancing, topology\<close>

definition recordReplicaWrite :: "string \<Rightarrow> string \<Rightarrow> cache \<Rightarrow> cache" where
  "recordReplicaWrite bucket result = add_counter ''replicaWrites'' [bucket, result] 1"

definition recordQuorumFailure :: "string \<Rightarrow> cache \<Rightarrow> cache" where
  "recordQuorumFailure bucket = add_counter ''quorumFailures'' [bucket] 1"

definition recordRebalancerCycle :: "int \<Rightarrow> int \<Rightarrow> int \<Rightarrow> int \<Rightarrow> cache \<Rightarrow> cache" where
  "recordRebalancerCycle processed evicted attempts errors c =
     add_counter ''rebalancerReplicationErrors'' [] errors
       (add_counter ''rebalancerReplicationAttempts'' [] attempts
         (add_counter ''rebalancerKeysEvicted'' [] evicted
           (add_counter ''rebalancerKeysProcessed'' [] processed
             (observe ''rebalancerDuration'' [] None
               (add_counter ''rebalancerCycles'' [] 1 c)))))"

definition recordTopologyChange :: "bool \<Rightarrow> cache \<Rightarrow> cache" where
  "recordTopologyChange joined =
     add_counter ''topologyChanges'' [if joined then ''join'' else ''leave''] 1"

lemmas metric_defs =
  trackGet_def trackGet_done_def track_done_def trackSet_def trackDelete_def trackSetTtl_def
  recordTtlEviction_def recordReplicaWrite_def recordQuorumFailure_def
  recordRebalancerCycle_def recordTopologyChange_def

section \<open>Counting does not touch the store\<close>

lemma add_counter_simps [simp]:
  "nodeId (add_counter f a n c) = nodeId c" "heapOf (add_counter f a n c) = heapOf c"
  "freshAddr (add_counter f a n c) = freshAddr c" "keyVal (add_counter f a n c) = keyVal c"
  "lruBuckets (add_counter f a n c) = lruBuckets c"
  "nodeScoreHashMap (add_counter f a n c) = nodeScoreHashMap c"
  "replicaLocalityCache (add_counter f a n c) = replicaLocalityCache c"
  "replicas (add_counter f a n c) = replicas c" "sizeGauge (add_counter f a n c) = sizeGauge c"
  "lruEvictions (add_counter f a n c) = lruEvictions c"
  by (simp_all add: add_counter_def)

lemma observe_simps [simp]:
  "nodeId (observe f a v c) = nodeId c" "heapOf (observe f a v c) = heapOf c"
  "freshAddr (observe f a v c) = freshAddr c" "keyVal (observe f a v c) = keyVal c"
  "lruBuckets (observe f a v c) = lruBuckets c"
  "nodeScoreHashMap (observe f a v c) = nodeScoreHashMap c"
  "replicaLocalityCache (observe f a v c) = replicaLocalityCache c"
  "replicas (observe f a v c) = replicas c" "sizeGauge (observe f a v c) = sizeGauge c"
  "lruEvictions (observe f a v c) = lruEvictions c" "counters (observe f a v c) = counters c"
  "observations (add_counter f a n c) = observations c"
  by (simp_all add: observe_def add_counter_def)

lemma add_counter_same [simp]:
  "counters (add_counter f a n c) f a = counters c f a + n"
  by (simp add: add_counter_def)

lemma add_counter_other [simp]:
  "(f', a') \<noteq> (f, a) \<Longrightarrow> counters (add_counter f a n c) f' a' = counters c f' a'"
  by (auto simp: add_counter_def)

lemma add_counter_commute:
  "add_counter f a n (add_counter f' a' m c) = add_counter f' a' m (add_counter f a n c)"
  by (auto simp: add_counter_def fun_eq_iff intro!: cache.equality)

end
