(* ===== verification/Remote.thy ===== *)
theory Remote
  imports Local_Cache Routing Metrics
begin

text \<open>
  Requests between nodes: the payload (\<open>encoding.go\<close>), the request handler a node serves its
  peers with (\<open>task.go\<close>), and the client side (\<open>remote.go\<close>), over the application interface of
  \<open>nodosum\<close> (\<open>application.go\<close>, \<open>Request\<close>).

  \<open>encoding/gob\<close> is not part of the repository: it is the pair of functions \<open>e_enc\<close>, \<open>e_dec\<close> of
  the environment, and \<open>gob_laws\<close> is what the code relies on (what was encoded is decoded; only
  values of registered types encode inside an \<open>any\<close>). The network between two nodes is the
  state of the link at the time of the call.
\<close>

section \<open>Payloads\<close>

definition GET :: "8 word" where "GET = 0x00"
definition SET :: "8 word" where "SET = 0x01"
definition SETTTL :: "8 word" where "SETTTL = 0x02"
definition DELETE :: "8 word" where "DELETE = 0x03"
definition RESPONSE :: "8 word" where "RESPONSE = 0x04"
definition GEO_SET :: "8 word" where "GEO_SET = 0x05"

lemmas operation_codes = GET_def SET_def SETTTL_def DELETE_def RESPONSE_def GEO_SET_def

record remoteCachePayload =
  rpOperation :: "8 word"
  rpKey :: string
  rpBucket :: string
  rpValue :: goany
  rpTtl :: duration

text \<open>
  What a call depends on besides the state of the nodes: the hash function, the codec, the
  clock of every node, the peers \<open>Nodes()\<close> returns at every node, and the fate of a request
  on the link from the caller to a node. A request can be lost before it is handled, or its
  response can be lost after it was. \<open>e_sched\<close> is the order in which the goroutines of a
  fan-out run and report.
\<close>

datatype link = Up | WriteFails | RequestLost | ResponseLost

record env =
  e_hash :: hash
  e_enc :: "remoteCachePayload \<Rightarrow> byte list option"
  e_dec :: "byte list \<Rightarrow> remoteCachePayload option"
  e_clock :: "string \<Rightarrow> instant"
  e_peers :: "string \<Rightarrow> string list"
  e_link :: "string \<Rightarrow> link"
  e_sched :: "string list \<Rightarrow> string list"

definition gob_laws :: "env \<Rightarrow> bool" where
  "gob_laws env \<longleftrightarrow> (\<forall>p. case e_enc env p of
       None \<Rightarrow> \<not> gob_registered (rpValue p)
     | Some bs \<Rightarrow> gob_registered (rpValue p) \<and> bs \<noteq> [] \<and> e_dec env bs = Some p)"

definition gobEncode :: "env \<Rightarrow> remoteCachePayload \<Rightarrow> error + byte list" where
  "gobEncode env p = (case e_enc env p of None \<Rightarrow> Inl ErrGobEncode | Some bs \<Rightarrow> Inr bs)"

definition gobDecode :: "env \<Rightarrow> byte list \<Rightarrow> error + remoteCachePayload" where
  "gobDecode env bs = (case e_dec env bs of None \<Rightarrow> Inl ErrGobDecode | Some p \<Rightarrow> Inr p)"

lemma gob_roundtrip:
  assumes "gob_laws env"
  shows "gob_registered (rpValue p) \<Longrightarrow>
      \<exists>bs. gobEncode env p = Inr bs \<and> bs \<noteq> [] \<and> gobDecode env bs = Inr p"
    and "\<not> gob_registered (rpValue p) \<Longrightarrow> gobEncode env p = Inl ErrGobEncode"
  using assms [unfolded gob_laws_def, rule_format, of p]
  by (auto simp: gobEncode_def gobDecode_def split: option.splits)

section \<open>Serving a request\<close>

text \<open>Continue with the value of a call that returned without error.\<close>

fun and_then ::
    "('a, 's) outcome \<Rightarrow> ('a \<Rightarrow> 's \<Rightarrow> ('b, 's) outcome) \<Rightarrow> ('b, 's) outcome" where
  "and_then (Ret (Inl e) s) f = Ret (Inl e) s"
| "and_then (Ret (Inr v) s) f = f v s"
| "and_then Panic f = Panic"
| "and_then Hang f = Hang"

definition applicationRequestHandlerFunc ::
    "env \<Rightarrow> byte list \<Rightarrow> cache \<Rightarrow> (byte list, cache) outcome" where
  "applicationRequestHandlerFunc env payload c =
     (if payload = [] then Ret (Inl ErrEmptyPayload) c
      else case gobDecode env payload of
        Inl e \<Rightarrow> Ret (Inl e) c
      | Inr res \<Rightarrow>
          if rpOperation res = GET then
            and_then (getLocal (rpBucket res) (rpKey res) c)
              (\<lambda>val. Ret (gobEncode env \<lparr>rpOperation = RESPONSE, rpKey = rpKey res,
                 rpBucket = rpBucket res, rpValue = val, rpTtl = 0\<rparr>))
          else if rpOperation res = SET then
            and_then (setLocal (e_clock env (nodeId c)) (rpBucket res) (rpKey res) (rpValue res)
                (rpTtl res) c)
              (\<lambda>_. Ret (Inr (bytes_of ''REMOTE SET OK'')))
          else if rpOperation res = SETTTL then
            and_then (setTtlLocal (e_clock env (nodeId c)) (rpBucket res) (rpKey res) (rpTtl res) c)
              (\<lambda>_. Ret (Inr (bytes_of ''REMOTE SET TTL OK'')))
          else if rpOperation res = DELETE then
            and_then (deleteLocal (rpBucket res) (rpKey res) c)
              (\<lambda>_. Ret (Inr (bytes_of ''REMOTE DELETE OK'')))
          else Ret (Inl ErrUnknownOperation) c)"

section \<open>The cluster and requests\<close>

text \<open>
  The running nodes. A node whose handler panicked is gone; one whose handler never returns
  (it holds a bucket's lock) is counted as gone as well.
\<close>

type_synonym cluster = "string \<rightharpoonup> cache"

text \<open>
  \<open>Request\<close> of \<open>self\<close> to \<open>target\<close>. A stream can be opened to a connected node only
  (\<open>getOrOpenQuicStream\<close>). An error of the handler comes back as text, so it is another error
  for the caller. A request that is handled only after its timeout is not modelled. The mutexes of
  the stream table and of the connection table are taken to be free: if one of them has been left locked,
  the code blocks before it looks at its timeout (\<open>Stream_Locks\<close>), and no request returns.
\<close>

definition Request ::
    "env \<Rightarrow> string \<Rightarrow> byte list \<Rightarrow> string \<Rightarrow> cluster \<Rightarrow> (error + byte list) \<times> cluster" where
  "Request env self payload target cl =
     (if target \<notin> set (e_peers env self) \<or> e_link env target = WriteFails then (Inl ErrSend, cl)
      else if e_link env target = RequestLost then (Inl ErrTimeout, cl)
      else case cl target of
        None \<Rightarrow> (Inl ErrTimeout, cl)
      | Some d \<Rightarrow>
        (case applicationRequestHandlerFunc env payload d of
           Ret r d' \<Rightarrow>
             (if e_link env target = ResponseLost then Inl ErrTimeout
              else case r of Inl e \<Rightarrow> Inl (ErrRemote e) | Inr bs \<Rightarrow> Inr bs,
              cl(target \<mapsto> d'))
         | Panic \<Rightarrow> (Inl ErrTimeout, cl(target := None))
         | Hang \<Rightarrow> (Inl ErrTimeout, cl(target := None))))"

definition setRemoteToNode ::
    "env \<Rightarrow> string \<Rightarrow> string \<Rightarrow> string \<Rightarrow> goany \<Rightarrow> duration \<Rightarrow> string \<Rightarrow> cluster \<Rightarrow> (error + unit) \<times> cluster"
where
  "setRemoteToNode env self bucket key v ttl target cl =
     (case gobEncode env \<lparr>rpOperation = SET, rpKey = key, rpBucket = bucket, rpValue = v,
         rpTtl = ttl\<rparr> of
        Inl e \<Rightarrow> (Inl e, cl)
      | Inr payload \<Rightarrow>
        (case Request env self payload target cl of
           (Inl e, cl') \<Rightarrow> (Inl e, cl') | (Inr _, cl') \<Rightarrow> (Inr (), cl')))"

definition deleteRemoteFromNode ::
    "env \<Rightarrow> string \<Rightarrow> string \<Rightarrow> string \<Rightarrow> string \<Rightarrow> cluster \<Rightarrow> (error + unit) \<times> cluster" where
  "deleteRemoteFromNode env self bucket key target cl =
     (case gobEncode env \<lparr>rpOperation = DELETE, rpKey = key, rpBucket = bucket, rpValue = ANil,
         rpTtl = 0\<rparr> of
        Inl e \<Rightarrow> (Inl e, cl)
      | Inr payload \<Rightarrow>
        (case Request env self payload target cl of
           (Inl e, cl') \<Rightarrow> (Inl e, cl') | (Inr _, cl') \<Rightarrow> (Inr (), cl')))"

definition setTtlRemoteToNode ::
    "env \<Rightarrow> string \<Rightarrow> string \<Rightarrow> string \<Rightarrow> duration \<Rightarrow> string \<Rightarrow> cluster \<Rightarrow> (error + unit) \<times> cluster" where
  "setTtlRemoteToNode env self bucket key ttl target cl =
     (case gobEncode env \<lparr>rpOperation = SETTTL, rpKey = key, rpBucket = bucket, rpValue = ANil,
         rpTtl = ttl\<rparr> of
        Inl e \<Rightarrow> (Inl e, cl)
      | Inr payload \<Rightarrow>
        (case Request env self payload target cl of
           (Inl e, cl') \<Rightarrow> (Inl e, cl') | (Inr _, cl') \<Rightarrow> (Inr (), cl')))"

text \<open>\<open>getRemote\<close> asks the primary node; the caller's cache \<open>c\<close> is the one of \<open>self\<close>.\<close>

definition getRemote ::
    "env \<Rightarrow> string \<Rightarrow> string \<Rightarrow> string \<Rightarrow> cache \<Rightarrow> cluster \<Rightarrow> (error + goany) \<times> cluster" where
  "getRemote env self bucket key c cl =
     (case getPrimaryNode (e_hash env) (e_peers env self) bucket key c of
        (target, c') \<Rightarrow>
          let cl' = cl(self \<mapsto> c') in
          (case gobEncode env \<lparr>rpOperation = GET, rpKey = key, rpBucket = bucket,
              rpValue = ANil, rpTtl = 0\<rparr> of
             Inl e \<Rightarrow> (Inl e, cl')
           | Inr payload \<Rightarrow>
             (case Request env self payload target cl' of
                (Inl e, cl2) \<Rightarrow> (Inl e, cl2)
              | (Inr res, cl2) \<Rightarrow>
                 (case gobDecode env res of
                    Inl e \<Rightarrow> (Inl e, cl2) | Inr val \<Rightarrow> (Inr (rpValue val), cl2)))))"

text \<open>
  The writes to the primary node only. No caller in the repository uses them: the writes of the
  interface go to all replicas.
\<close>

definition setRemote ::
    "env \<Rightarrow> string \<Rightarrow> string \<Rightarrow> string \<Rightarrow> goany \<Rightarrow> duration \<Rightarrow> cache \<Rightarrow> cluster \<Rightarrow> (error + unit) \<times> cluster" where
  "setRemote env self bucket key v ttl c cl =
     (case getPrimaryNode (e_hash env) (e_peers env self) bucket key c of
        (target, c') \<Rightarrow> setRemoteToNode env self bucket key v ttl target (cl(self \<mapsto> c')))"

definition deleteRemote ::
    "env \<Rightarrow> string \<Rightarrow> string \<Rightarrow> string \<Rightarrow> cache \<Rightarrow> cluster \<Rightarrow> (error + unit) \<times> cluster" where
  "deleteRemote env self bucket key c cl =
     (case getPrimaryNode (e_hash env) (e_peers env self) bucket key c of
        (target, c') \<Rightarrow> deleteRemoteFromNode env self bucket key target (cl(self \<mapsto> c')))"

definition setTtlRemote ::
    "env \<Rightarrow> string \<Rightarrow> string \<Rightarrow> string \<Rightarrow> duration \<Rightarrow> cache \<Rightarrow> cluster \<Rightarrow> (error + unit) \<times> cluster" where
  "setTtlRemote env self bucket key ttl c cl =
     (case getPrimaryNode (e_hash env) (e_peers env self) bucket key c of
        (target, c') \<Rightarrow> setTtlRemoteToNode env self bucket key ttl target (cl(self \<mapsto> c')))"

section \<open>What a request does to its target\<close>

text \<open>
  A remote write is the local operation at the target, if the link lets it through; it touches
  no other node. \<open>deliver\<close> is that effect on the state of the target.
\<close>

definition deliver ::
    "env \<Rightarrow> string \<Rightarrow> string \<Rightarrow> (cache \<Rightarrow> (unit, cache) outcome) \<Rightarrow> cache option
      \<Rightarrow> (error + unit) \<times> cache option" where
  "deliver env self target f x =
     (if target \<notin> set (e_peers env self) \<or> e_link env target = WriteFails then (Inl ErrSend, x)
      else if e_link env target = RequestLost then (Inl ErrTimeout, x)
      else case x of
        None \<Rightarrow> (Inl ErrTimeout, None)
      | Some d \<Rightarrow> (case f d of
           Ret r d' \<Rightarrow> (if e_link env target = ResponseLost then Inl ErrTimeout
              else map_sum ErrRemote id r, Some d')
         | _ \<Rightarrow> (Inl ErrTimeout, None)))"

lemma Request_deliver:
  assumes "\<And>d. applicationRequestHandlerFunc env payload d = and_then (f d) (\<lambda>_. Ret (Inr bs))"
  shows "(case Request env self payload target cl of
       (Inl e, cl') \<Rightarrow> (Inl e, cl') | (Inr _, cl') \<Rightarrow> (Inr (), cl'))
     = (fst (deliver env self target f (cl target)),
        cl(target := snd (deliver env self target f (cl target))))"
proof (cases "cl target")
  case (Some d)
  show ?thesis
  proof (cases "f d")
    case (Ret r d')
    with Some assms [of d] show ?thesis by (cases r) (auto simp: Request_def deliver_def fun_upd_idem)
  qed (use Some assms [of d] in \<open>auto simp: Request_def deliver_def fun_upd_idem\<close>)
qed (auto simp: Request_def deliver_def fun_upd_idem)

lemma setRemoteToNode_deliver:
  assumes gob: "gob_laws env"
  shows "setRemoteToNode env self b k v ttl t cl =
     (if gob_registered v then
        let d = deliver env self t (\<lambda>c. setLocal (e_clock env (nodeId c)) b k v ttl c) (cl t)
        in (fst d, cl(t := snd d))
      else (Inl ErrGobEncode, cl))"
  using gob_roundtrip [OF gob, of "\<lparr>rpOperation = SET, rpKey = k, rpBucket = b, rpValue = v,
      rpTtl = ttl\<rparr>"]
  by (auto simp: setRemoteToNode_def Let_def applicationRequestHandlerFunc_def operation_codes
      intro!: Request_deliver [where bs = "bytes_of ''REMOTE SET OK''"])

lemma deleteRemoteFromNode_deliver:
  assumes gob: "gob_laws env"
  shows "deleteRemoteFromNode env self b k t cl =
     (let d = deliver env self t (deleteLocal b k) (cl t) in (fst d, cl(t := snd d)))"
  using gob_roundtrip [OF gob, of "\<lparr>rpOperation = DELETE, rpKey = k, rpBucket = b, rpValue = ANil,
      rpTtl = 0\<rparr>"]
  by (auto simp: deleteRemoteFromNode_def Let_def applicationRequestHandlerFunc_def operation_codes
      intro!: Request_deliver [where bs = "bytes_of ''REMOTE DELETE OK''"])

lemma setTtlRemoteToNode_deliver:
  assumes gob: "gob_laws env"
  shows "setTtlRemoteToNode env self b k ttl t cl =
     (let d = deliver env self t (\<lambda>c. setTtlLocal (e_clock env (nodeId c)) b k ttl c) (cl t)
      in (fst d, cl(t := snd d)))"
  using gob_roundtrip [OF gob, of "\<lparr>rpOperation = SETTTL, rpKey = k, rpBucket = b, rpValue = ANil,
      rpTtl = ttl\<rparr>"]
  by (auto simp: setTtlRemoteToNode_def Let_def applicationRequestHandlerFunc_def operation_codes
      intro!: Request_deliver [where bs = "bytes_of ''REMOTE SET TTL OK''"])

section \<open>A codec that satisfies the laws\<close>

text \<open>
  A concrete codec for the witnesses: a list of numbers, each in unary with a zero byte after
  it; values of unregistered types do not encode.
\<close>

definition unary :: "nat list \<Rightarrow> byte list" where
  "unary ns = concat (map (\<lambda>n. replicate n 1 @ [0]) ns)"

fun from_unary :: "nat \<Rightarrow> byte list \<Rightarrow> nat list" where
  "from_unary n [] = []"
| "from_unary n (b # bs) = (if b = 0 then n # from_unary 0 bs else from_unary (Suc n) bs)"

lemma from_unary_replicate: "from_unary m (replicate n 1 @ 0 # bs) = (m + n) # from_unary 0 bs"
  by (induction n arbitrary: m) auto

lemma from_unary_unary: "from_unary 0 (unary ns) = ns"
  by (induction ns) (simp_all add: unary_def from_unary_replicate)

fun value_nats :: "goany \<Rightarrow> nat list" where
  "value_nats (AString s) = 1 # map of_char s"
| "value_nats (AInt i) = [2, nat i, nat (- i)]"
| "value_nats (AUser r n) = [3, n]"
| "value_nats v = [0]"

fun nats_value :: "nat list \<Rightarrow> goany" where
  "nats_value (Suc 0 # cs) = AString (map char_of cs)"
| "nats_value [Suc (Suc 0), i, j] = AInt (int i - int j)"
| "nats_value [Suc (Suc (Suc 0)), n] = AUser True n"
| "nats_value ns = ANil"

lemma nats_value_nats: "gob_registered v \<Longrightarrow> nats_value (value_nats v) = v"
  by (cases v) (auto simp: numeral_eq_Suc o_def)

definition toy_enc :: "remoteCachePayload \<Rightarrow> byte list option" where
  "toy_enc p = (if gob_registered (rpValue p) then Some (unary
     ([unat (rpOperation p), nat (rpTtl p), nat (- rpTtl p), length (rpKey p), length (rpBucket p)]
      @ map of_char (rpKey p) @ map of_char (rpBucket p) @ value_nats (rpValue p))) else None)"

definition toy_dec :: "byte list \<Rightarrow> remoteCachePayload option" where
  "toy_dec bs = (case from_unary 0 bs of
     o' # t # t' # lk # lb # ns \<Rightarrow> Some \<lparr>rpOperation = word_of_nat o',
       rpKey = map char_of (take lk ns), rpBucket = map char_of (take lb (drop lk ns)),
       rpValue = nats_value (drop lb (drop lk ns)), rpTtl = int t - int t'\<rparr>
   | _ \<Rightarrow> None)"

definition toy_env ::
    "hash \<Rightarrow> (string \<Rightarrow> string list) \<Rightarrow> (string \<Rightarrow> link) \<Rightarrow> (string list \<Rightarrow> string list) \<Rightarrow> env" where
  "toy_env hash peers lnk sched = \<lparr>e_hash = hash, e_enc = toy_enc, e_dec = toy_dec,
     e_clock = (\<lambda>_. 0), e_peers = peers, e_link = lnk, e_sched = sched\<rparr>"

lemma toy_env_simps [simp]:
  "e_hash (toy_env hash peers lnk sched) = hash" "e_peers (toy_env hash peers lnk sched) = peers"
  "e_link (toy_env hash peers lnk sched) = lnk" "e_sched (toy_env hash peers lnk sched) = sched"
  "e_enc (toy_env hash peers lnk sched) = toy_enc" "e_dec (toy_env hash peers lnk sched) = toy_dec"
  by (simp_all add: toy_env_def)

lemma toy_gob_laws: "gob_laws (toy_env hash peers lnk sched)"
proof -
  have "bs \<noteq> [] \<and> toy_dec bs = Some p" if "toy_enc p = Some bs" for p bs
  proof -
    from that have v: "gob_registered (rpValue p)" by (simp add: toy_enc_def split: if_splits)
    from that have bs: "bs = unary ([unat (rpOperation p), nat (rpTtl p), nat (- rpTtl p),
        length (rpKey p), length (rpBucket p)] @ map of_char (rpKey p) @ map of_char (rpBucket p)
        @ value_nats (rpValue p))"
      by (simp add: toy_enc_def split: if_splits)
    have "bs \<noteq> []" by (simp add: bs unary_def)
    moreover have "toy_dec bs = Some p"
      unfolding toy_dec_def bs from_unary_unary
      by (cases p) (use v in \<open>simp add: nats_value_nats o_def\<close>)
    ultimately show ?thesis ..
  qed
  moreover have "toy_enc p = None \<longleftrightarrow> \<not> gob_registered (rpValue p)" for p
    by (simp add: toy_enc_def)
  ultimately show ?thesis
    by (auto simp: gob_laws_def split: option.split) (metis option.distinct(1))+
qed

end
