(* ===== verification/Replication.thy ===== *)
theory Replication
  imports Remote
begin

text \<open>
  The replicated operations (\<open>internal/mycel/cache.go\<close>): \<open>Get\<close>, \<open>Set\<close>, \<open>Delete\<close>, \<open>SetTtl\<close> and
  the quorum fan-outs \<open>setReplicated\<close>, \<open>deleteReplicated\<close>, \<open>setTtlReplicated\<close>, on a cluster
  of running nodes.

  A fan-out starts one goroutine per replica and waits for as many results. Every goroutine
  acts on its own node, and the properties show that the order they run and report in
  (\<open>e_sched\<close>) decides nothing but which failure is quoted in the error.
\<close>

section \<open>One replica\<close>

text \<open>Run a local operation at \<open>self\<close>; a panic ends the calling process.\<close>

definition at_self ::
    "string \<Rightarrow> (cache \<Rightarrow> ('a, cache) outcome) \<Rightarrow> cluster \<Rightarrow> ('a, cluster) outcome" where
  "at_self self f cl =
     (case cl self of
        None \<Rightarrow> Panic
      | Some c \<Rightarrow> (case f c of
          Ret r c' \<Rightarrow> Ret r (cl(self \<mapsto> c')) | Panic \<Rightarrow> Panic | Hang \<Rightarrow> Hang))"

definition set_on ::
    "env \<Rightarrow> string \<Rightarrow> string \<Rightarrow> string \<Rightarrow> goany \<Rightarrow> duration \<Rightarrow> string \<Rightarrow> cluster \<Rightarrow> (unit, cluster) outcome"
where
  "set_on env self bucket key v ttl n cl =
     (if n = self
      then at_self self (\<lambda>c. setLocal (e_clock env (nodeId c)) bucket key v ttl c) cl
      else case setRemoteToNode env self bucket key v ttl n cl of (r, cl') \<Rightarrow> Ret r cl')"

text \<open>\<open>errors.Is(err, ERR_NOT_FOUND)\<close>: an error that came over the wire is not that error.\<close>

fun forgive_not_found :: "(unit, 's) outcome \<Rightarrow> (unit, 's) outcome" where
  "forgive_not_found (Ret (Inl ERR_NOT_FOUND) s) = Ret (Inr ()) s"
| "forgive_not_found x = x"

definition delete_on ::
    "env \<Rightarrow> string \<Rightarrow> string \<Rightarrow> string \<Rightarrow> string \<Rightarrow> cluster \<Rightarrow> (unit, cluster) outcome" where
  "delete_on env self bucket key n cl = forgive_not_found
     (if n = self then at_self self (deleteLocal bucket key) cl
      else case deleteRemoteFromNode env self bucket key n cl of (r, cl') \<Rightarrow> Ret r cl')"

definition setTtl_on ::
    "env \<Rightarrow> string \<Rightarrow> string \<Rightarrow> string \<Rightarrow> duration \<Rightarrow> string \<Rightarrow> cluster \<Rightarrow> (unit, cluster) outcome" where
  "setTtl_on env self bucket key ttl n cl =
     (if n = self
      then at_self self (\<lambda>c. setTtlLocal (e_clock env (nodeId c)) bucket key ttl c) cl
      else case setTtlRemoteToNode env self bucket key ttl n cl of (r, cl') \<Rightarrow> Ret r cl')"

section \<open>Fan-out and quorum\<close>

fun fan_out ::
    "(string \<Rightarrow> cluster \<Rightarrow> (unit, cluster) outcome) \<Rightarrow> string list \<Rightarrow> cluster
      \<Rightarrow> ((error + unit) list, cluster) outcome" where
  "fan_out op [] cl = Ret (Inr []) cl"
| "fan_out op (n # ns) cl =
     (case op n cl of
        Ret r cl' \<Rightarrow> and_then (fan_out op ns cl') (\<lambda>rs. Ret (Inr (r # rs)))
      | Panic \<Rightarrow> Panic
      | Hang \<Rightarrow> Hang)"

text \<open>The collecting loop: the number of successes and the last error received.\<close>

fun collect :: "(error + unit) list \<Rightarrow> nat \<Rightarrow> error option \<Rightarrow> nat \<times> error option" where
  "collect [] successCount lastErr = (successCount, lastErr)"
| "collect (Inr _ # rs) successCount lastErr = collect rs (Suc successCount) lastErr"
| "collect (Inl e # rs) successCount lastErr = collect rs successCount (Some e)"

fun count_writes :: "string \<Rightarrow> (error + unit) list \<Rightarrow> cache \<Rightarrow> cache" where
  "count_writes bucket [] c = c"
| "count_writes bucket (Inr _ # rs) c = count_writes bucket rs (recordReplicaWrite bucket ''success'' c)"
| "count_writes bucket (Inl e # rs) c = count_writes bucket rs (recordReplicaWrite bucket ''failure'' c)"

definition update :: "string \<Rightarrow> (cache \<Rightarrow> cache) \<Rightarrow> cluster \<Rightarrow> cluster" where
  "update self f cl = cl(self := map_option f (cl self))"

definition replica_ids :: "env \<Rightarrow> string \<Rightarrow> cache \<Rightarrow> string \<Rightarrow> string \<Rightarrow> string list" where
  "replica_ids env self c bucket key =
     map rnId (getReplicaNodes (e_hash env) (e_peers env self) c bucket key)"

definition setReplicated ::
    "env \<Rightarrow> string \<Rightarrow> string \<Rightarrow> string \<Rightarrow> goany \<Rightarrow> duration \<Rightarrow> cache \<Rightarrow> cluster \<Rightarrow> (unit, cluster) outcome"
where
  "setReplicated env self bucket key v ttl c cl =
     (let replicaSet = replica_ids env self c bucket key in
      if length replicaSet = 0 then Ret (Inl ErrNoReplicas) cl
      else and_then (fan_out (set_on env self bucket key v ttl) (e_sched env replicaSet) cl)
        (\<lambda>results cl1.
          let (successCount, lastErr) = collect results 0 None;
              cl2 = update self (count_writes bucket results) cl1;
              quorum = length replicaSet div 2 + 1
          in if successCount < quorum
             then Ret (Inl (ErrQuorum successCount (length replicaSet) lastErr))
               (update self (recordQuorumFailure bucket) cl2)
             else Ret (Inr ()) cl2))"

definition deleteReplicated ::
    "env \<Rightarrow> string \<Rightarrow> string \<Rightarrow> string \<Rightarrow> cache \<Rightarrow> cluster \<Rightarrow> (unit, cluster) outcome" where
  "deleteReplicated env self bucket key c cl =
     (let replicaSet = replica_ids env self c bucket key in
      if length replicaSet = 0 then Ret (Inl ErrNoReplicas) cl
      else and_then (fan_out (delete_on env self bucket key) (e_sched env replicaSet) cl)
        (\<lambda>results cl1.
          let (successCount, lastErr) = collect results 0 None;
              cl2 = update self (count_writes bucket results) cl1;
              quorum = length replicaSet div 2 + 1
          in if successCount < quorum
             then Ret (Inl (ErrQuorum successCount (length replicaSet) lastErr))
               (update self (recordQuorumFailure bucket) cl2)
             else Ret (Inr ()) cl2))"

definition setTtlReplicated ::
    "env \<Rightarrow> string \<Rightarrow> string \<Rightarrow> string \<Rightarrow> duration \<Rightarrow> cache \<Rightarrow> cluster \<Rightarrow> (unit, cluster) outcome" where
  "setTtlReplicated env self bucket key ttl c cl =
     (let replicaSet = replica_ids env self c bucket key in
      if length replicaSet = 0 then Ret (Inl ErrNoReplicas) cl
      else and_then (fan_out (setTtl_on env self bucket key ttl) (e_sched env replicaSet) cl)
        (\<lambda>results cl1.
          let (successCount, lastErr) = collect results 0 None;
              quorum = length replicaSet div 2 + 1
          in if successCount < quorum
             then Ret (Inl (ErrQuorum successCount (length replicaSet) lastErr)) cl1
             else Ret (Inr ()) cl1))"

section \<open>The interface\<close>

text \<open>\<open>c\<close> is the cache of \<open>self\<close>; the interface methods are called at a running node.\<close>

definition locality :: "env \<Rightarrow> string \<Rightarrow> string \<Rightarrow> string \<Rightarrow> cache \<Rightarrow> string \<times> cache" where
  "locality env self bucket key c =
     (case isLocal (e_hash env) (e_peers env self) bucket key c of
        (l, c') \<Rightarrow> (if l then localityLocal else localityRemote, c'))"

fun finish :: "string \<Rightarrow> string \<Rightarrow> string \<Rightarrow> (unit, cluster) outcome \<Rightarrow> (unit, cluster) outcome" where
  "finish self bucket loc (Ret r cl) = Ret r (update self (track_done bucket loc r) cl)"
| "finish self bucket loc Panic = Panic"
| "finish self bucket loc Hang = Hang"

definition Set ::
    "env \<Rightarrow> string \<Rightarrow> string \<Rightarrow> string \<Rightarrow> goany \<Rightarrow> duration \<Rightarrow> cluster \<Rightarrow> (unit, cluster) outcome" where
  "Set env self bucket key v ttl cl =
     (case cl self of
        None \<Rightarrow> Panic
      | Some c \<Rightarrow>
          let (loc, c1) = locality env self bucket key c;
              c2 = trackSet bucket loc c1
          in finish self bucket loc (setReplicated env self bucket key v ttl c2 (cl(self \<mapsto> c2))))"

definition CacheDelete ::
    "env \<Rightarrow> string \<Rightarrow> string \<Rightarrow> string \<Rightarrow> cluster \<Rightarrow> (unit, cluster) outcome" where
  "CacheDelete env self bucket key cl =
     (case cl self of
        None \<Rightarrow> Panic
      | Some c \<Rightarrow>
          let (loc, c1) = locality env self bucket key c;
              c2 = trackDelete bucket loc c1
          in finish self bucket loc (deleteReplicated env self bucket key c2 (cl(self \<mapsto> c2))))"

definition SetTtl ::
    "env \<Rightarrow> string \<Rightarrow> string \<Rightarrow> string \<Rightarrow> duration \<Rightarrow> cluster \<Rightarrow> (unit, cluster) outcome" where
  "SetTtl env self bucket key ttl cl =
     (case cl self of
        None \<Rightarrow> Panic
      | Some c \<Rightarrow>
          let (loc, c1) = locality env self bucket key c;
              c2 = trackSetTtl bucket loc c1
          in finish self bucket loc (setTtlReplicated env self bucket key ttl c2 (cl(self \<mapsto> c2))))"

definition Get :: "env \<Rightarrow> string \<Rightarrow> string \<Rightarrow> string \<Rightarrow> cluster \<Rightarrow> (goany, cluster) outcome" where
  "Get env self bucket key cl =
     (case cl self of
        None \<Rightarrow> Panic
      | Some c \<Rightarrow>
        (case getLocal bucket key c of
           Panic \<Rightarrow> Panic
         | Hang \<Rightarrow> Hang
         | Ret (Inr val) c1 \<Rightarrow>
             Ret (Inr val) (cl(self \<mapsto>
               trackGet_done bucket localityLocal True (trackGet bucket localityLocal c1)))
         | Ret (Inl e) c1 \<Rightarrow>
             (case getRemote env self bucket key (trackGet bucket localityRemote c1) cl of
                (r, cl') \<Rightarrow>
                  Ret r (update self (trackGet_done bucket localityRemote (\<not> isl r)) cl'))))"

section \<open>The effect of one goroutine\<close>

text \<open>
  The effect of a replica's goroutine on the state of that replica: the local operation at
  \<open>self\<close>, a request elsewhere, and then the translation of the answer.
\<close>

definition node_effect ::
    "env \<Rightarrow> string \<Rightarrow> bool \<Rightarrow> (cache \<Rightarrow> (unit, cache) outcome) \<Rightarrow> string \<Rightarrow> cache option
      \<Rightarrow> (unit, cache option) outcome" where
  "node_effect env self encodes f n x =
     (if n = self then
        (case x of None \<Rightarrow> Panic
         | Some c \<Rightarrow> (case f c of Ret r c' \<Rightarrow> Ret r (Some c') | Panic \<Rightarrow> Panic | Hang \<Rightarrow> Hang))
      else if encodes then (case deliver env self n f x of (r, x') \<Rightarrow> Ret r x')
      else Ret (Inl ErrGobEncode) x)"

abbreviation local_set :: "env \<Rightarrow> string \<Rightarrow> string \<Rightarrow> goany \<Rightarrow> duration \<Rightarrow> cache \<Rightarrow> (unit, cache) outcome" where
  "local_set env b k v ttl \<equiv> (\<lambda>c. setLocal (e_clock env (nodeId c)) b k v ttl c)"

abbreviation local_setTtl :: "env \<Rightarrow> string \<Rightarrow> string \<Rightarrow> duration \<Rightarrow> cache \<Rightarrow> (unit, cache) outcome" where
  "local_setTtl env b k ttl \<equiv> (\<lambda>c. setTtlLocal (e_clock env (nodeId c)) b k ttl c)"

text \<open>
  A goroutine reads and writes its own node only: its effect on the cluster is its effect on
  the cluster that consists of this node.
\<close>

definition project ::
    "(string \<Rightarrow> cluster \<Rightarrow> (unit, cluster) outcome) \<Rightarrow> string \<Rightarrow> cache option
      \<Rightarrow> (unit, cache option) outcome" where
  "project op n x =
     (case op n (Map.empty(n := x)) of
        Ret r cl \<Rightarrow> Ret r (cl n) | Panic \<Rightarrow> Panic | Hang \<Rightarrow> Hang)"

text \<open>The nodes whose goroutine would report success.\<close>

definition acks ::
    "(string \<Rightarrow> cluster \<Rightarrow> (unit, cluster) outcome) \<Rightarrow> string list \<Rightarrow> cluster \<Rightarrow> string set" where
  "acks op ns cl = {n \<in> set ns. \<exists>cl'. op n cl = Ret (Inr ()) cl'}"

lemma collect_successes: "fst (collect rs s l) = s + length (filter (\<lambda>r. r = Inr ()) rs)"
  by (induction rs s l rule: collect.induct) auto

lemma length_filter_map_distinct:
  "distinct ns \<Longrightarrow> length (filter P (map f ns)) = card {n \<in> set ns. P (f n)}"
  by (simp add: filter_map o_def distinct_card [symmetric])

locale node_calls =
  fixes op :: "string \<Rightarrow> cluster \<Rightarrow> (unit, cluster) outcome"
  assumes op_local: "op n cl = (case project op n (cl n) of
    Ret r x \<Rightarrow> Ret r (cl(n := x)) | Panic \<Rightarrow> Panic | Hang \<Rightarrow> Hang)"
begin

lemma op_returns:
  "op n cl = Ret r cl' \<longleftrightarrow>
     (\<exists>x. project op n (cl n) = Ret r x \<and> cl' = cl(n := x))"
  by (subst op_local) (auto split: outcome.splits)

lemma fan_out_returns:
  assumes "distinct ns" and "\<And>n. n \<in> set ns \<Longrightarrow> project op n (cl n) = Ret (rep n) (after n)"
  shows "fan_out op ns cl
    = Ret (Inr (map rep ns)) (\<lambda>n. if n \<in> set ns then after n else cl n)"
  using assms
proof (induction ns arbitrary: cl)
  case (Cons n ns)
  from Cons.prems(2) [of n] have n: "op n cl = Ret (rep n) (cl(n := after n))"
    by (simp add: op_returns)
  have "fan_out op ns (cl(n := after n))
      = Ret (Inr (map rep ns)) (\<lambda>m. if m \<in> set ns then after m else (cl(n := after n)) m)"
    using Cons.prems by (intro Cons.IH) auto
  moreover have "(\<lambda>m. if m \<in> set ns then after m else (cl(n := after n)) m)
      = (\<lambda>m. if m \<in> set (n # ns) then after m else cl m)" by auto
  ultimately show ?case by (simp add: n)
qed simp

text \<open>A fan-out returns when every goroutine does, and then as if each had run alone.\<close>

lemma fan_out_all:
  assumes "distinct ns" and "\<forall>n \<in> set ns. \<exists>r cl'. op n cl = Ret r cl'"
  shows "\<exists>rep after. (\<forall>n \<in> set ns. op n cl = Ret (rep n) (cl(n := after n)))
    \<and> fan_out op ns cl = Ret (Inr (map rep ns)) (\<lambda>n. if n \<in> set ns then after n else cl n)"
proof -
  from assms(2) have "\<forall>n \<in> set ns. \<exists>rx. project op n (cl n) = Ret (fst rx) (snd rx)"
    by (simp add: op_returns)
  from bchoice [OF this] obtain rx where
    rx: "\<And>n. n \<in> set ns \<Longrightarrow> project op n (cl n) = Ret (fst (rx n)) (snd (rx n))" by blast
  from fan_out_returns [OF assms(1) rx] rx show ?thesis
    by (intro exI [of _ "\<lambda>n. fst (rx n)"] exI [of _ "\<lambda>n. snd (rx n)"]) (auto simp: op_returns)
qed

text \<open>
  The outcome of a fan-out does not mention the order: the successes counted are the \<open>acks\<close>,
  every node is left as its own goroutine leaves it.
\<close>

lemma fan_out_summary:
  assumes ns: "distinct ns" and ms: "mset ms = mset ns"
    and ret: "\<forall>n \<in> set ns. \<exists>r cl'. op n cl = Ret r cl'"
  shows "\<exists>rep after. (\<forall>n \<in> set ns. op n cl = Ret (rep n) (cl(n := after n)))
    \<and> fan_out op ms cl = Ret (Inr (map rep ms)) (\<lambda>n. if n \<in> set ns then after n else cl n)
    \<and> fst (collect (map rep ms) 0 None) = card (acks op ns cl)"
proof -
  have d: "distinct ms" and st: "set ms = set ns"
    using ns ms by (auto dest: mset_eq_imp_distinct_iff mset_eq_setD)
  from fan_out_all [OF d, of cl] ret obtain rep after where
    each: "\<forall>n \<in> set ns. op n cl = Ret (rep n) (cl(n := after n))"
    and all: "fan_out op ms cl = Ret (Inr (map rep ms)) (\<lambda>n. if n \<in> set ns then after n else cl n)"
    unfolding st by blast
  have "fst (collect (map rep ms) 0 None) = card {n \<in> set ns. rep n = Inr ()}"
    using length_filter_map_distinct [OF d, of "\<lambda>r. r = Inr ()" rep] st
    by (simp add: collect_successes)
  also have "{n \<in> set ns. rep n = Inr ()} = acks op ns cl" using each by (auto simp: acks_def)
  finally show ?thesis using each all by blast
qed

end

lemma Request_local:
  "Request env self p t cl = (case Request env self p t (Map.empty(t := cl t)) of
     (r, cl') \<Rightarrow> (r, cl(t := cl' t)))"
  by (auto simp: Request_def fun_upd_idem split: option.split outcome.split)

lemma at_self_local:
  "at_self self f cl = (case at_self self f (Map.empty(self := cl self)) of
     Ret r cl' \<Rightarrow> Ret r (cl(self := cl' self)) | Panic \<Rightarrow> Panic | Hang \<Rightarrow> Hang)"
  by (auto simp: at_self_def split: option.split outcome.split)

lemma setRemote_local:
  "setRemoteToNode env self b k v ttl t cl =
     (case setRemoteToNode env self b k v ttl t (Map.empty(t := cl t)) of
        (r, cl') \<Rightarrow> (r, cl(t := cl' t)))"
  unfolding setRemoteToNode_def
  by (subst Request_local) (auto simp: fun_upd_idem split: sum.split prod.split)

lemma deleteRemote_local:
  "deleteRemoteFromNode env self b k t cl =
     (case deleteRemoteFromNode env self b k t (Map.empty(t := cl t)) of
        (r, cl') \<Rightarrow> (r, cl(t := cl' t)))"
  unfolding deleteRemoteFromNode_def
  by (subst Request_local) (auto simp: fun_upd_idem split: sum.split prod.split)

lemma setTtlRemote_local:
  "setTtlRemoteToNode env self b k ttl t cl =
     (case setTtlRemoteToNode env self b k ttl t (Map.empty(t := cl t)) of
        (r, cl') \<Rightarrow> (r, cl(t := cl' t)))"
  unfolding setTtlRemoteToNode_def
  by (subst Request_local) (auto simp: fun_upd_idem split: sum.split prod.split)

text \<open>An operation with a local and a remote case that are both local in this sense.\<close>

lemma node_calls_cases:
  assumes remote: "\<And>n cl. remote n cl = (case remote n (Map.empty(n := cl n)) of
      (r, cl') \<Rightarrow> (r, cl(n := cl' n)))"
  shows "node_calls (\<lambda>n cl. if n = self then at_self self f cl
    else case remote n cl of (r, cl') \<Rightarrow> Ret r cl')"
proof
  fix n and cl :: cluster
  show "(if n = self then at_self self f cl else case remote n cl of (r, cl') \<Rightarrow> Ret r cl')
      = (case project (\<lambda>n cl. if n = self then at_self self f cl
            else case remote n cl of (r, cl') \<Rightarrow> Ret r cl') n (cl n) of
           Ret r x \<Rightarrow> Ret r (cl(n := x)) | Panic \<Rightarrow> Panic | Hang \<Rightarrow> Hang)"
  proof (cases "n = self")
    case True
    show ?thesis
      unfolding True by (simp add: project_def) (subst at_self_local, simp split: outcome.split)
  next
    case False
    then show ?thesis
      by (simp add: project_def) (subst remote, simp add: case_prod_beta)
  qed
qed

interpretation sets: node_calls "set_on env self b k v ttl"
  using node_calls_cases [where self = self and remote = "setRemoteToNode env self b k v ttl"
      and f = "\<lambda>c. setLocal (e_clock env (nodeId c)) b k v ttl c", OF setRemote_local]
  by (simp add: set_on_def [abs_def])

interpretation ttls: node_calls "setTtl_on env self b k ttl"
  using node_calls_cases [where self = self and remote = "setTtlRemoteToNode env self b k ttl"
      and f = "\<lambda>c. setTtlLocal (e_clock env (nodeId c)) b k ttl c", OF setTtlRemote_local]
  by (simp add: setTtl_on_def [abs_def])

lemma forgive_map: "forgive_not_found (case x of Ret r s \<Rightarrow> Ret r (f s) | Panic \<Rightarrow> Panic | Hang \<Rightarrow> Hang)
   = (case forgive_not_found x of Ret r s \<Rightarrow> Ret r (f s) | Panic \<Rightarrow> Panic | Hang \<Rightarrow> Hang)"
  by (cases x rule: forgive_not_found.cases) auto

lemma node_calls_forgive:
  assumes "node_calls op"
  shows "node_calls (\<lambda>n cl. forgive_not_found (op n cl))"
proof
  fix n cl
  have "project (\<lambda>n cl. forgive_not_found (op n cl)) n (cl n)
      = forgive_not_found (project op n (cl n))"
    by (simp add: project_def forgive_map)
  then show "forgive_not_found (op n cl) =
      (case project (\<lambda>n cl. forgive_not_found (op n cl)) n (cl n) of
         Ret r x \<Rightarrow> Ret r (cl(n := x)) | Panic \<Rightarrow> Panic | Hang \<Rightarrow> Hang)"
    using node_calls.op_local [OF assms, of n cl]
    by (simp add: forgive_map [symmetric])
qed

interpretation deletes: node_calls "delete_on env self b k"
  using node_calls_forgive [OF node_calls_cases [where self = self and remote = "deleteRemoteFromNode env self b k"
      and f = "deleteLocal b k", OF deleteRemote_local]]
  by (simp add: delete_on_def [abs_def])

section \<open>The quorum decision\<close>

text \<open>
  What the three fan-outs share: with every goroutine returning, the call returns success
  exactly when at least half of the replicas plus one succeeded.
\<close>

definition majority :: "nat \<Rightarrow> nat" where
  "majority n = n div 2 + 1"

definition schedules :: "env \<Rightarrow> bool" where
  "schedules env \<longleftrightarrow> (\<forall>ns. mset (e_sched env ns) = mset ns)"

lemma count_writes_fold:
  "count_writes b rs c = fold (\<lambda>r. recordReplicaWrite b (if r = Inr () then ''success'' else ''failure'')) rs c"
  by (induction b rs c rule: count_writes.induct) auto

lemma count_writes_order: "mset rs = mset rs' \<Longrightarrow> count_writes b rs c = count_writes b rs' c"
  by (simp add: count_writes_fold,
      rule fun_cong [of _ _ c], rule fold_multiset_equiv)
    (auto simp: recordReplicaWrite_def fun_eq_iff intro: add_counter_commute)

text \<open>Counting and routing leave the store of a cache alone.\<close>

definition same_store :: "cache \<Rightarrow> cache \<Rightarrow> bool" where
  "same_store c d \<longleftrightarrow> heapOf c = heapOf d \<and> freshAddr c = freshAddr d \<and> keyVal c = keyVal d
     \<and> lruBuckets c = lruBuckets d \<and> sizeGauge c = sizeGauge d \<and> nodeId c = nodeId d
     \<and> replicas c = replicas d"

lemma same_store_add_counter [simp]: "same_store c (add_counter f a n d) \<longleftrightarrow> same_store c d"
  by (simp add: same_store_def)

lemma same_store_observe [simp]: "same_store c (observe f a v d) \<longleftrightarrow> same_store c d"
  by (simp add: same_store_def)

lemma same_store_refl [simp]: "same_store c c"
  by (simp add: same_store_def)

lemma same_store_trans: "same_store c d \<Longrightarrow> same_store d e \<Longrightarrow> same_store c e"
  by (simp add: same_store_def)

text \<open>A function that moves counters and histograms only.\<close>

definition only_counts :: "(cache \<Rightarrow> cache) \<Rightarrow> bool" where
  "only_counts f \<longleftrightarrow> (\<forall>c. \<exists>m h. f c = c\<lparr>counters := m, observations := h\<rparr>)"

lemma only_counts_add: "only_counts (add_counter f a n)"
proof -
  have "add_counter f a n c = c\<lparr>counters := counters (add_counter f a n c), observations := observations c\<rparr>" for c
    by (simp add: add_counter_def)
  then show ?thesis unfolding only_counts_def by blast
qed

lemma only_counts_observe: "only_counts (observe f a v)"
proof -
  have "observe f a v c = c\<lparr>counters := counters c, observations := observations (observe f a v c)\<rparr>" for c
    by (simp add: observe_def)
  then show ?thesis unfolding only_counts_def by blast
qed

lemma only_counts_id: "only_counts (\<lambda>c. c)"
proof -
  have "c = c\<lparr>counters := counters c, observations := observations c\<rparr>" for c :: cache by simp
  then show ?thesis unfolding only_counts_def by blast
qed

lemma only_counts_comp: "only_counts f \<Longrightarrow> only_counts g \<Longrightarrow> only_counts (\<lambda>c. f (g c))"
proof -
  assume f: "only_counts f" and g: "only_counts g"
  have "\<exists>m h. f (g c) = c\<lparr>counters := m, observations := h\<rparr>" for c
  proof -
    from g obtain m h where m: "g c = c\<lparr>counters := m, observations := h\<rparr>" unfolding only_counts_def by blast
    from f obtain m' h' where "f (g c) = (g c)\<lparr>counters := m', observations := h'\<rparr>" unfolding only_counts_def by blast
    with m show ?thesis by (intro exI [of _ m'] exI [of _ h']) simp
  qed
  then show ?thesis by (simp add: only_counts_def)
qed

lemma only_counts_writes: "only_counts (count_writes b rs)"
proof (induction rs)
  case Nil
  then show ?case by (simp add: only_counts_id)
next
  case (Cons r rs)
  have "only_counts (\<lambda>c. count_writes b rs (add_counter f a n c))" for f a n
    using only_counts_comp [OF Cons only_counts_add] .
  then show ?case by (cases r) (simp_all add: recordReplicaWrite_def)
qed

lemma only_counts_track_done: "only_counts (track_done b loc r)"
proof -
  have "only_counts (\<lambda>c. add_counter ''errors'' [b, loc] 1 (observe ''duration'' [b, loc] None c))"
    by (rule only_counts_comp [OF only_counts_add only_counts_observe])
  moreover have "only_counts (\<lambda>c. observe ''duration'' [b, loc] None c)" by (simp add: only_counts_observe)
  ultimately show ?thesis unfolding track_done_def by (cases r) simp_all
qed

lemma only_counts_same_store: "only_counts f \<Longrightarrow> same_store c (f c)"
proof -
  assume "only_counts f"
  then obtain m h where "f c = c\<lparr>counters := m, observations := h\<rparr>" unfolding only_counts_def by blast
  then show ?thesis by (simp add: same_store_def)
qed

lemma only_counts_coherent: "only_counts f \<Longrightarrow> coherent h ps (f c) = coherent h ps c"
proof -
  assume "only_counts f"
  then obtain m h where "f c = c\<lparr>counters := m, observations := h\<rparr>" unfolding only_counts_def by blast
  then show ?thesis by (simp add: coherent_def members_def)
qed

lemma same_store_locality: "same_store c (snd (locality env self b k c))"
  by (auto simp: locality_def isLocal_def local_store_answer_def same_store_def
      split: sum.split prod.split)

lemma refines_same_store: "same_store c d \<Longrightarrow> refines c A \<Longrightarrow> refines d A"
proof -
  assume cd: "same_store c d" and "refines c A"
  then obtain L where L: "cache_ok c L" "A = store_of c L" by (auto simp: refines_def)
  from cd L(1) have "cache_ok d L" by (simp add: cache_ok_def same_store_def)
  moreover from cd have "store_of c L = store_of d L"
    by (intro ext) (simp add: store_of_def same_store_def)
  ultimately show "refines d A" using L(2) by (auto simp: refines_def)
qed

text \<open>The answer of \<open>getLocal\<close>; a stored value is one that a local read returns.\<close>

definition holds :: "cluster \<Rightarrow> string \<Rightarrow> string \<Rightarrow> string \<Rightarrow> goany \<Rightarrow> bool" where
  "holds cl n b k v \<longleftrightarrow> (\<exists>c c'. cl n = Some c \<and> getLocal b k c = Ret (Inr v) c')"

lemma getLocal_same_store:
  "same_store c d \<Longrightarrow> getLocal b k c = Ret r c' \<Longrightarrow> \<exists>d'. getLocal b k d = Ret r d'"
  by (auto simp: getLocal_def cache_updates GetBucket_def same_store_def Let_def
      split: option.splits)

lemma holds_update:
  "(\<And>c. same_store c (f c)) \<Longrightarrow> holds cl n b k v \<Longrightarrow> holds (update self f cl) n b k v"
  by (auto simp: holds_def update_def) (metis getLocal_same_store)

text \<open>
  A node can store a key: it has no such bucket, or it has the key, or the bucket is below its
  capacity, or it is full but in a state the abstract store accounts for: none of the buckets of
  the node has evicted before, and no bucket name is a prefix of another.
\<close>

definition can_store :: "cache \<Rightarrow> string \<Rightarrow> string \<Rightarrow> bool" where
  "can_store c b k \<longleftrightarrow> (\<forall>bk. lruBuckets c b = Some bk \<longrightarrow>
     keyVal c (b @ k) \<noteq> None \<or> bLen bk < bMaxLen bk \<or> (0 < bMaxLen bk \<and> (\<exists>A. refines c A)))"

lemma can_store_same_store: "same_store c d \<Longrightarrow> can_store c b k \<Longrightarrow> can_store d b k"
proof -
  assume cd: "same_store c d" and can: "can_store c b k"
  from cd refines_same_store have "(\<exists>A. refines c A) \<Longrightarrow> (\<exists>A. refines d A)" by blast
  with cd can show "can_store d b k" by (simp add: can_store_def same_store_def) blast
qed

lemma setLocal_room:
  assumes b: "lruBuckets c b = Some bk" and none: "keyVal c (b @ k) = None"
    and room: "bLen bk < bMaxLen bk"
  shows "\<exists>c'. setLocal now b k v ttl c = Ret (Inr ()) c'
    \<and> (\<exists>c2. getLocal b k c' = Ret (Inr v) c2)"
proof -
  let ?n = "freshAddr c"
  obtain bh c1 where ins: "inserted now b k v ttl bk c = (bh, c1)" by fastforce
  then have bh: "bh = Push ?n bk ((heapOf c)(?n := \<lparr>nnext = None, nprev = None, nkey = k, ndata = v,
      nexpiresAt = expiry now ttl\<rparr>))"
    and c1: "c1 = recordBucketSize b 1 (put_list b bh (keyVal_Set (b @ k) ?n (c\<lparr>freshAddr := Suc ?n\<rparr>)))"
    by (auto simp: inserted_def Let_def)
  have "\<not> bMaxLen (fst bh) < bLen (fst bh)"
    using Push_len [of ?n bk "(heapOf c)(?n := \<lparr>nnext = None, nprev = None, nkey = k, ndata = v,
      nexpiresAt = expiry now ttl\<rparr>)"] room by (simp add: bh)
  then have "setLocal now b k v ttl c = Ret (Inr ()) c1"
    using setLocal_new [OF b none] ins by simp
  moreover have "ndata (heapOf c1 ?n) = v" by (simp add: c1 cache_updates bh)
  moreover have "keyVal c1 (b @ k) = Some ?n" by (simp add: c1 cache_updates)
  moreover have "lruBuckets c1 b = Some (fst bh)" by (simp add: c1 cache_updates)
  ultimately show ?thesis using getLocal_hit by metis
qed

lemma setLocal_stores:
  assumes can: "can_store c b k" and b: "lruBuckets c b = Some bk"
  shows "\<exists>c'. setLocal now b k v ttl c = Ret (Inr ()) c'
    \<and> (\<exists>c2. getLocal b k c' = Ret (Inr v) c2)"
proof (cases "keyVal c (b @ k)")
  case (Some n)
  let ?h = "(heapOf c)(n := (heapOf c n)\<lparr>ndata := v, nexpiresAt := expiry now ttl\<rparr>)"
  let ?c = "put_list b (Push n bk ?h) c"
  have "setLocal now b k v ttl c = Ret (Inr ()) ?c"
    using Some b by (simp add: setLocal_def keyVal_Get_def Let_def)
  moreover have "getLocal b k ?c = Ret (Inr (ndata (heapOf ?c n)))
      (put_list b (Push n (fst (Push n bk ?h)) (heapOf ?c)) ?c)"
    using Some by (intro getLocal_hit) (simp_all add: cache_updates)
  moreover have "ndata (heapOf ?c n) = v" by (simp add: cache_updates)
  ultimately show ?thesis by metis
next
  case None
  show ?thesis
  proof (cases "bLen bk < bMaxLen bk")
    case True
    with setLocal_room [OF b None] show ?thesis by blast
  next
    case False
    with can b None obtain A L where cap: "0 < bMaxLen bk" and ok: "cache_ok c L"
      by (auto simp: can_store_def refines_def)
    have len: "bLen bk = int (length (L b))" and le: "bLen bk \<le> bMaxLen bk"
      using cache_okD(2) [OF ok b] cache_okD(3) [OF ok b] by (auto simp: lru_list_def)
    with False have full: "int (length (L b)) = bMaxLen bk" by simp
    with cap obtain xs e where Lb: "L b = xs @ [e]" by (cases "L b" rule: rev_cases) auto
    from evict_result [OF ok b None full Lb, of now v ttl] obtain c' b' where
      run: "setLocal now b k v ttl c = Ret (Inr ()) c'" and b': "lruBuckets c' b = Some b'"
      and ent: "entry_of (heapOf c') (freshAddr c) = (k, v, expiry now ttl)"
      and kv: "keyVal c' = (keyVal c)(b @ k \<mapsto> freshAddr c, b @ nkey (heapOf c e) := None)"
      by auto
    have "keyVal c (b @ nkey (heapOf c e)) = Some e" using cache_okD(7) [OF ok] Lb by fastforce
    with None have "nkey (heapOf c e) \<noteq> k" by auto
    with kv have "keyVal c' (b @ k) = Some (freshAddr c)" by simp
    with run ent getLocal_hit [OF b' this] show ?thesis by (auto simp: entry_of_def)
  qed
qed

text \<open>The block after the fan-out that \<open>setReplicated\<close> and \<open>deleteReplicated\<close> share.\<close>

definition counted_quorum ::
    "string \<Rightarrow> string \<Rightarrow> nat \<Rightarrow> (error + unit) list \<Rightarrow> cluster \<Rightarrow> (unit, cluster) outcome" where
  "counted_quorum self bucket n results cl1 =
     (let (successCount, lastErr) = collect results 0 None;
          cl2 = update self (count_writes bucket results) cl1
      in if successCount < majority n
         then Ret (Inl (ErrQuorum successCount n lastErr)) (update self (recordQuorumFailure bucket) cl2)
         else Ret (Inr ()) cl2)"

lemma setReplicated_body:
  assumes "replica_ids env self c b k \<noteq> []"
  shows "setReplicated env self b k v ttl c cl =
    and_then (fan_out (set_on env self b k v ttl) (e_sched env (replica_ids env self c b k)) cl)
      (counted_quorum self b (length (replica_ids env self c b k)))"
  using assms
  by (simp add: setReplicated_def Let_def majority_def counted_quorum_def [abs_def])

lemma deleteReplicated_body:
  assumes "replica_ids env self c b k \<noteq> []"
  shows "deleteReplicated env self b k c cl =
    and_then (fan_out (delete_on env self b k) (e_sched env (replica_ids env self c b k)) cl)
      (counted_quorum self b (length (replica_ids env self c b k)))"
  using assms
  by (simp add: deleteReplicated_def Let_def majority_def counted_quorum_def [abs_def])

context node_calls
begin

lemma quorum_fan_out:
  assumes sched: "schedules env" and ids: "distinct ids"
    and ret: "\<forall>n \<in> set ids. \<exists>r cl'. op n cl = Ret r cl'"
  shows "\<exists>rep after l. (\<forall>n \<in> set ids. op n cl = Ret (rep n) (cl(n := after n))) \<and>
    and_then (fan_out op (e_sched env ids) cl) (counted_quorum self b (length ids)) =
      (let s = card (acks op ids cl); fails = s < majority (length ids) in
       Ret (if fails then Inl (ErrQuorum s (length ids) l) else Inr ())
        (update self (\<lambda>c. (if fails then recordQuorumFailure b else (\<lambda>x. x))
            (count_writes b (map rep ids) c))
          (\<lambda>n. if n \<in> set ids then after n else cl n)))"
proof -
  have ms: "mset (e_sched env ids) = mset ids" using sched by (simp add: schedules_def)
  from fan_out_summary [OF ids ms ret] obtain rep after where
    each: "\<forall>n \<in> set ids. op n cl = Ret (rep n) (cl(n := after n))"
    and fan: "fan_out op (e_sched env ids) cl = Ret (Inr (map rep (e_sched env ids)))
      (\<lambda>n. if n \<in> set ids then after n else cl n)"
    and cnt: "fst (collect (map rep (e_sched env ids)) 0 None) = card (acks op ids cl)" by blast
  have cw: "count_writes b (map rep (e_sched env ids)) = count_writes b (map rep ids)"
    using ms by (intro ext count_writes_order) simp
  obtain l where l: "collect (map rep (e_sched env ids)) 0 None = (card (acks op ids cl), l)"
    using cnt by (metis prod.collapse)
  show ?thesis
    using each
    by (intro exI [of _ rep] exI [of _ after] exI [of _ l])
      (simp add: fan counted_quorum_def l Let_def cw update_def option.map_comp comp_def)
qed

text \<open>The same with the details hidden.\<close>

lemma counted_outcome:
  assumes sched: "schedules env" and ids: "distinct ids"
    and ret: "\<forall>n \<in> set ids. \<exists>r cl'. op n cl = Ret r cl'"
  shows "\<exists>r f after. and_then (fan_out op (e_sched env ids) cl) (counted_quorum self b (length ids))
      = Ret r (update self f (\<lambda>n. if n \<in> set ids then after n else cl n))
    \<and> only_counts f
    \<and> (\<forall>n \<in> set ids. \<exists>r. op n cl = Ret r (cl(n := after n)))
    \<and> (r = Inr () \<longleftrightarrow> majority (length ids) \<le> card (acks op ids cl))
    \<and> (r = Inr () \<or> (\<exists>l. r = Inl (ErrQuorum (card (acks op ids cl)) (length ids) l)))"
proof -
  from quorum_fan_out [OF assms, of self b] obtain rep after l where
    each: "\<forall>n \<in> set ids. op n cl = Ret (rep n) (cl(n := after n))"
    and out: "and_then (fan_out op (e_sched env ids) cl) (counted_quorum self b (length ids)) =
      (let s = card (acks op ids cl); fails = s < majority (length ids) in
       Ret (if fails then Inl (ErrQuorum s (length ids) l) else Inr ())
        (update self (\<lambda>c. (if fails then recordQuorumFailure b else (\<lambda>x. x))
            (count_writes b (map rep ids) c))
          (\<lambda>n. if n \<in> set ids then after n else cl n)))" by blast
  let ?fails = "card (acks op ids cl) < majority (length ids)"
  let ?f = "\<lambda>c. (if ?fails then recordQuorumFailure b else (\<lambda>x. x)) (count_writes b (map rep ids) c)"
  have "only_counts ?f"
    using only_counts_writes only_counts_comp [OF only_counts_add only_counts_writes]
    by (simp add: recordQuorumFailure_def)
  with out each show ?thesis
    by (intro exI [of _ "if ?fails then Inl (ErrQuorum (card (acks op ids cl)) (length ids) l) else Inr ()"]
        exI [of _ ?f] exI [of _ after]) (auto simp: Let_def)
qed

lemma quorum_schedule:
  assumes "schedules env" and "schedules env'" and ids: "distinct ids"
    and ret: "\<forall>n \<in> set ids. \<exists>r cl'. op n cl = Ret r cl'"
  shows "\<exists>r r' cl'. and_then (fan_out op (e_sched env ids) cl) (counted_quorum self b (length ids)) = Ret r cl'
    \<and> and_then (fan_out op (e_sched env' ids) cl) (counted_quorum self b (length ids)) = Ret r' cl'
    \<and> (r = Inr () \<longleftrightarrow> r' = Inr ()) \<and> isl r = isl r'"
proof -
  from quorum_fan_out [OF assms(1) ids ret, of self b] obtain rep after l where
    each: "\<forall>n \<in> set ids. op n cl = Ret (rep n) (cl(n := after n))"
    and out: "and_then (fan_out op (e_sched env ids) cl) (counted_quorum self b (length ids)) =
      (let s = card (acks op ids cl); fails = s < majority (length ids) in
       Ret (if fails then Inl (ErrQuorum s (length ids) l) else Inr ())
        (update self (\<lambda>c. (if fails then recordQuorumFailure b else (\<lambda>x. x))
            (count_writes b (map rep ids) c))
          (\<lambda>n. if n \<in> set ids then after n else cl n)))" by blast
  from quorum_fan_out [OF assms(2) ids ret, of self b] obtain rep' after' l' where
    each': "\<forall>n \<in> set ids. op n cl = Ret (rep' n) (cl(n := after' n))"
    and out': "and_then (fan_out op (e_sched env' ids) cl) (counted_quorum self b (length ids)) =
      (let s = card (acks op ids cl); fails = s < majority (length ids) in
       Ret (if fails then Inl (ErrQuorum s (length ids) l') else Inr ())
        (update self (\<lambda>c. (if fails then recordQuorumFailure b else (\<lambda>x. x))
            (count_writes b (map rep' ids) c))
          (\<lambda>n. if n \<in> set ids then after' n else cl n)))" by blast
  have same: "rep' n = rep n \<and> after' n = after n" if "n \<in> set ids" for n
    using each each' that by (auto dest: fun_upd_eqD)
  have m: "map rep' ids = map rep ids" using same by simp
  have a: "(\<lambda>n. if n \<in> set ids then after' n else cl n) = (\<lambda>n. if n \<in> set ids then after n else cl n)"
    using same by auto
  show ?thesis unfolding out out' m a by (simp add: Let_def)
qed

end

section \<open>Set\<close>

lemma deliver_success:
  "fst (deliver env self t f x) = Inr () \<Longrightarrow>
     \<exists>d d'. x = Some d \<and> f d = Ret (Inr ()) d' \<and> snd (deliver env self t f x) = Some d'"
proof -
  assume ok: "fst (deliver env self t f x) = Inr ()"
  then obtain d where x: "x = Some d"
    by (cases x) (auto simp: deliver_def split: if_splits)
  show ?thesis
  proof (cases "f d")
    case (Ret r d')
    with ok x show ?thesis by (cases r) (auto simp: deliver_def split: if_splits)
  qed (use ok x in \<open>auto simp: deliver_def split: if_splits\<close>)
qed

lemma set_on_ack:
  assumes "gob_laws env" and "set_on env self b k v ttl n cl = Ret (Inr ()) cl'"
  shows "\<exists>d d'. cl n = Some d \<and> local_set env b k v ttl d = Ret (Inr ()) d' \<and> cl' n = Some d'"
proof (cases "n = self")
  case True
  with assms(2) show ?thesis
    by (auto simp: set_on_def at_self_def split: option.splits outcome.splits)
next
  case False
  with assms(2) deliver_success [of env self n "local_set env b k v ttl" "cl n"]
  show ?thesis
    by (auto simp: set_on_def setRemoteToNode_deliver [OF assms(1)] Let_def split: if_splits)
qed

lemma setLocal_no_bucket: "lruBuckets c b = None \<Longrightarrow> setLocal now b k v ttl c = Ret (Inl ErrBucketNotFound) c"
  by (simp add: setLocal_def)

lemma setLocal_ack_holds:
  assumes "can_store c b k" and "setLocal now b k v ttl c = Ret (Inr ()) c'"
  shows "\<exists>c2. getLocal b k c' = Ret (Inr v) c2"
proof (cases "lruBuckets c b")
  case None
  with assms(2) setLocal_no_bucket show ?thesis by fastforce
next
  case (Some bk)
  with setLocal_stores [OF assms(1) Some, of now v ttl] assms(2) show ?thesis by auto
qed

lemma set_on_returns:
  assumes "n = self \<longrightarrow> (\<exists>c. cl self = Some c \<and> can_store c b k)"
  shows "\<exists>r cl'. set_on env self b k v ttl n cl = Ret r cl'"
proof (cases "n = self")
  case True
  with assms obtain c where c: "cl self = Some c" "can_store c b k" by blast
  have "\<exists>r c'. setLocal (e_clock env (nodeId c)) b k v ttl c = Ret r c'"
  proof (cases "lruBuckets c b")
    case None
    with setLocal_no_bucket show ?thesis by blast
  next
    case (Some bk)
    with setLocal_stores [OF c(2) Some] show ?thesis by blast
  qed
  with True c show ?thesis by (auto simp: set_on_def at_self_def)
qed (simp add: set_on_def case_prod_beta)

text \<open>A replica that will execute the write and say so.\<close>

definition ready :: "env \<Rightarrow> string \<Rightarrow> string \<Rightarrow> cluster \<Rightarrow> string \<Rightarrow> bool" where
  "ready env self b cl n \<longleftrightarrow> (\<exists>d. cl n = Some d \<and> lruBuckets d b \<noteq> None)
     \<and> (n = self \<or> (n \<in> set (e_peers env self) \<and> e_link env n = Up))"

lemma set_on_ready:
  assumes "gob_laws env" and "n \<noteq> self \<longrightarrow> gob_registered v" and "ready env self b cl n"
    and can: "\<And>d. cl n = Some d \<Longrightarrow> can_store d b k"
  shows "\<exists>cl'. set_on env self b k v ttl n cl = Ret (Inr ()) cl'"
proof -
  from assms(3) obtain d bk where d: "cl n = Some d" "lruBuckets d b = Some bk"
    by (auto simp: ready_def)
  from setLocal_stores [OF can [OF d(1)] d(2)] obtain d' where
    "local_set env b k v ttl d = Ret (Inr ()) d'" by blast
  with d assms(2,3) show ?thesis
    by (auto simp: set_on_def at_self_def setRemoteToNode_deliver [OF assms(1)] Let_def
        deliver_def ready_def)
qed

lemma setReplicated_outcome:
  fixes env self b k v ttl c cl
  defines "ids \<equiv> replica_ids env self c b k" and "op \<equiv> set_on env self b k v ttl"
  assumes sched: "schedules env" and ids: "distinct ids" "ids \<noteq> []"
    and ret: "\<forall>n \<in> set ids. \<exists>r cl'. op n cl = Ret r cl'"
  shows "\<exists>r f after. setReplicated env self b k v ttl c cl
      = Ret r (update self f (\<lambda>n. if n \<in> set ids then after n else cl n))
    \<and> only_counts f
    \<and> (\<forall>n \<in> set ids. \<exists>r. op n cl = Ret r (cl(n := after n)))
    \<and> (r = Inr () \<longleftrightarrow> majority (length ids) \<le> card (acks op ids cl))"
proof -
  have body: "setReplicated env self b k v ttl c cl
      = and_then (fan_out op (e_sched env ids) cl) (counted_quorum self b (length ids))"
    using setReplicated_body [OF ids(2) [unfolded ids_def], of v ttl cl] by (simp add: op_def ids_def)
  show ?thesis
    unfolding body
    using sets.counted_outcome [OF sched ids(1) ret [unfolded op_def], of self b, folded op_def]
    by blast
qed

lemma Set_enters:
  assumes "cl self = Some c"
  shows "\<exists>c2 loc. same_store c c2 \<and> Set env self b k v ttl cl
    = finish self b loc (setReplicated env self b k v ttl c2 (cl(self \<mapsto> c2)))"
proof -
  obtain loc c1 where l: "locality env self b k c = (loc, c1)" by fastforce
  then have "same_store c (trackSet b loc c1)"
    using same_store_locality [of c env self b k] by (simp add: trackSet_def)
  with assms l show ?thesis by (auto simp: Set_def Let_def)
qed

lemma replica_ids_same_store:
  "same_store c d \<Longrightarrow> replica_ids env self c b k = replica_ids env self d b k"
  by (simp add: replica_ids_def getReplicaNodes_def getReplicas_def members_def same_store_def)

lemma ready_same_store:
  "cl self = Some c \<Longrightarrow> same_store c c2 \<Longrightarrow> ready env self b (cl(self \<mapsto> c2)) n = ready env self b cl n"
  by (auto simp: ready_def same_store_def)

text \<open>Everything a call of \<open>Set\<close> guarantees, in one place.\<close>

lemma Set_outcome:
  assumes gob: "gob_laws env" and sched: "schedules env" and c: "cl self = Some c"
    and ids: "distinct (replica_ids env self c b k)" "replica_ids env self c b k \<noteq> []"
    and can: "\<And>n d. n \<in> insert self (set (replica_ids env self c b k)) \<Longrightarrow> cl n = Some d \<Longrightarrow> can_store d b k"
  shows "\<exists>r cl' acked. Set env self b k v ttl cl = Ret r cl'
    \<and> acked \<subseteq> set (replica_ids env self c b k)
    \<and> (r = Inr () \<longleftrightarrow> majority (length (replica_ids env self c b k)) \<le> card acked)
    \<and> (\<forall>n \<in> acked. holds cl' n b k v)
    \<and> (\<forall>n \<in> set (replica_ids env self c b k).
        (n \<noteq> self \<longrightarrow> gob_registered v) \<longrightarrow> ready env self b cl n \<longrightarrow> n \<in> acked)"
proof -
  from Set_enters [where cl = cl and self = self, OF c] obtain c2 loc where c2: "same_store c c2"
    and run: "Set env self b k v ttl cl
      = finish self b loc (setReplicated env self b k v ttl c2 (cl(self \<mapsto> c2)))" by blast
  let ?cl = "cl(self \<mapsto> c2)" and ?ids = "replica_ids env self c b k"
  let ?op = "set_on env self b k v ttl"
  have ids2: "replica_ids env self c2 b k = ?ids" using replica_ids_same_store [OF c2] by simp
  have can2: "can_store d b k" if "n \<in> set ?ids" "?cl n = Some d" for n d
    using that can [of n] can [of self c] c can_store_same_store [OF c2] by (auto split: if_splits)
  have "\<exists>r cl'. ?op n ?cl = Ret r cl'" for n
    using can [of self c] c can_store_same_store [OF c2] by (intro set_on_returns) auto
  then obtain r f after where
    rep: "setReplicated env self b k v ttl c2 ?cl
      = Ret r (update self f (\<lambda>n. if n \<in> set ?ids then after n else ?cl n))"
    and f: "only_counts f"
    and each: "\<forall>n \<in> set ?ids. \<exists>r. ?op n ?cl = Ret r (?cl(n := after n))"
    and quorum: "r = Inr () \<longleftrightarrow> majority (length ?ids) \<le> card (acks ?op ?ids ?cl)"
    using setReplicated_outcome [OF sched, of self c2 b k v ttl ?cl] ids unfolding ids2 by blast
  let ?cl1 = "\<lambda>n. if n \<in> set ?ids then after n else ?cl n"
  let ?cl' = "update self (track_done b loc r) (update self f ?cl1)"
  have "holds ?cl' n b k v" if n: "n \<in> acks ?op ?ids ?cl" for n
  proof -
    from n obtain cl2 where ack: "?op n ?cl = Ret (Inr ()) cl2" and mem: "n \<in> set ?ids"
      by (auto simp: acks_def)
    with each have "cl2 = ?cl(n := after n)" by fastforce
    with set_on_ack [OF gob ack] obtain d d' where d: "?cl n = Some d"
      "local_set env b k v ttl d = Ret (Inr ()) d'" "after n = Some d'" by auto
    with setLocal_ack_holds [OF can2 [OF mem d(1)] d(2)] mem have "holds ?cl1 n b k v"
      by (auto simp: holds_def)
    then show ?thesis
      using holds_update [of "track_done b loc r", OF only_counts_same_store [OF only_counts_track_done]]
        holds_update [of f, OF only_counts_same_store [OF f]] by blast
  qed
  moreover have "n \<in> acks ?op ?ids ?cl"
    if "n \<in> set ?ids" "n \<noteq> self \<longrightarrow> gob_registered v" "ready env self b cl n" for n
    using set_on_ready [OF gob that(2), of b ?cl k ttl] that ready_same_store [where cl = cl and self = self, OF c c2] can2
    by (auto simp: acks_def)
  ultimately show ?thesis
    using run rep quorum
    by (intro exI [of _ r] exI [of _ ?cl'] exI [of _ "acks ?op ?ids ?cl"]) (auto simp: acks_def)
qed

section \<open>Properties\<close>

text \<open>
  A running node as the configuration makes it: at least one replica is configured
  (\<open>New\<close> rejects less) and it is not connected to itself (\<open>NotifyJoin\<close> skips it).
\<close>

definition running :: "env \<Rightarrow> string \<Rightarrow> cluster \<Rightarrow> cache \<Rightarrow> bool" where
  "running env self cl c \<longleftrightarrow> cl self = Some c \<and> nodeId c = self \<and> 0 < replicas c
     \<and> distinct (self # e_peers env self)"

lemma running_ids:
  assumes "running env self cl c"
  shows "distinct (replica_ids env self c b k)" and "replica_ids env self c b k \<noteq> []"
    and "set (replica_ids env self c b k) \<subseteq> insert self (set (e_peers env self))"
    and "length (replica_ids env self c b k) = min (replicas c) (length (e_peers env self) + 1)"
proof -
  let ?rk = "ranking (e_hash env) (routingKey b k) (members (e_peers env self) c)"
  have ids: "replica_ids env self c b k = take (replicas c) ?rk"
    by (simp add: replica_ids_def getReplicaNodes_ranking)
  have "distinct ?rk" using assms by (simp add: running_def members_def ranking_def)
  then show "distinct (replica_ids env self c b k)" by (simp add: ids)
  show "replica_ids env self c b k \<noteq> []" using assms by (simp add: ids running_def)
  show "set (replica_ids env self c b k) \<subseteq> insert self (set (e_peers env self))"
    using assms by (auto simp: ids running_def members_def dest!: in_set_takeD)
  show "length (replica_ids env self c b k) = min (replicas c) (length (e_peers env self) + 1)"
    by (simp add: ids members_def)
qed

text \<open>No replica is in a state in which the list of the bucket no longer matches its index.\<close>

definition stores_ok :: "env \<Rightarrow> string \<Rightarrow> cache \<Rightarrow> string \<Rightarrow> string \<Rightarrow> cluster \<Rightarrow> bool" where
  "stores_ok env self c b k cl \<longleftrightarrow>
     (\<forall>n d. n \<in> insert self (set (replica_ids env self c b k)) \<longrightarrow> cl n = Some d \<longrightarrow> can_store d b k)"

lemma Set_result:
  assumes "gob_laws env" and "schedules env" and "running env self cl c"
    and "stores_ok env self c b k cl"
  shows "\<exists>r cl' acked. Set env self b k v ttl cl = Ret r cl'
    \<and> acked \<subseteq> set (replica_ids env self c b k)
    \<and> (r = Inr () \<longleftrightarrow> majority (length (replica_ids env self c b k)) \<le> card acked)
    \<and> (\<forall>n \<in> acked. holds cl' n b k v)
    \<and> (\<forall>n \<in> set (replica_ids env self c b k).
        (n \<noteq> self \<longrightarrow> gob_registered v) \<longrightarrow> ready env self b cl n \<longrightarrow> n \<in> acked)"
proof -
  from assms(3) have c: "cl self = Some c" by (simp add: running_def)
  from assms(4) have can: "\<And>n d. n \<in> insert self (set (replica_ids env self c b k)) \<Longrightarrow>
      cl n = Some d \<Longrightarrow> can_store d b k" unfolding stores_ok_def by blast
  show ?thesis
    using Set_outcome [where cl = cl and self = self,
        OF assms(1,2) c running_ids(1) [OF assms(3)] running_ids(2) [OF assms(3)]] can by blast
qed

text \<open>Two majorities of the same replicas meet.\<close>

lemma majorities_meet:
  assumes "finite S" and "Q \<subseteq> S" "R \<subseteq> S" and "majority (card S) \<le> card Q" "majority (card S) \<le> card R"
  shows "Q \<inter> R \<noteq> {}"
proof
  assume "Q \<inter> R = {}"
  with assms(1-3) have "card Q + card R \<le> card S"
    by (metis card_Un_disjoint card_mono finite_subset le_sup_iff)
  with assms(4,5) show False by (simp add: majority_def)
qed

text \<open>
  C3: A successful \<open>Set\<close> is on a majority. Let the calling node and the running replicas be able to
  store the key (\<open>stores_ok\<close>): each has no such bucket, or has the key already, or has room in the
  bucket, or a positive capacity there and is intact: none of its buckets has evicted and no bucket
  name is a prefix of another. If \<open>Set\<close> returns without error, at least
  \<open>\<lfloor>n/2\<rfloor> + 1\<close> of the key's \<open>n\<close> replicas answer a local read with the written value, so any
  majority of the replicas that a later call could reach contains a node that has it. This holds for
  every combination of lost requests, lost responses, failed writes and stopped nodes. (Without
  \<open>stores_ok\<close> it does not: \<open>write_lost_after_eviction\<close>.)
\<close>

theorem Set_durable_on_quorum:
  assumes "gob_laws env" and "schedules env" and run: "running env self cl c"
    and "stores_ok env self c b k cl" and ok: "Set env self b k v ttl cl = Ret (Inr ()) cl'"
    and R: "R \<subseteq> set (replica_ids env self c b k)"
    "majority (length (replica_ids env self c b k)) \<le> card R"
  shows "majority (length (replica_ids env self c b k))
      \<le> card {n \<in> set (replica_ids env self c b k). holds cl' n b k v}
    \<and> (\<exists>n \<in> R. holds cl' n b k v)"
proof -
  let ?ids = "replica_ids env self c b k" and ?H = "{n \<in> set (replica_ids env self c b k). holds cl' n b k v}"
  have n: "card (set ?ids) = length ?ids" using running_ids(1) [OF run] by (rule distinct_card)
  from Set_result [OF assms(1-4), of v ttl] obtain r cl2 acked where
    S: "Set env self b k v ttl cl = Ret r cl2" "acked \<subseteq> set ?ids"
      "r = Inr () \<longleftrightarrow> majority (length ?ids) \<le> card acked" "\<forall>n \<in> acked. holds cl2 n b k v" by blast
  from S(1) ok have "r = Inr ()" "cl2 = cl'" by simp_all
  with S have sub: "acked \<subseteq> ?H" and q: "majority (length ?ids) \<le> card acked" by auto
  then have "card acked \<le> card ?H" by (intro card_mono) auto
  with q have H: "majority (length ?ids) \<le> card ?H" by simp
  then have "?H \<inter> R \<noteq> {}"
    using majorities_meet [of "set ?ids" ?H R] R by (auto simp: n)
  with H show ?thesis by auto
qed

text \<open>
  C5: \<open>Set\<close> of a value that gob can encode returns, if the calling node and the running replicas are able to
  store the key (\<open>stores_ok\<close>: no such bucket, or the key, or room, or an intact node with a positive capacity)
  and the stream mutexes of the nodes are free (requests are those of \<open>Remote\<close>). Then every
  replica that is ready (running, with the bucket, over a working link) holds the value afterwards,
  whatever \<open>Set\<close> reports: there is no roll-back, so after a quorum failure the reachable
  minority keeps the new value. If a majority is ready, \<open>Set\<close> reports success.
\<close>

theorem Set_reaches_ready_replicas:
  assumes "gob_laws env" and "schedules env" and "running env self cl c"
    and "stores_ok env self c b k cl" and v: "gob_registered v"
  shows "\<exists>r cl'. Set env self b k v ttl cl = Ret r cl'
    \<and> (\<forall>n \<in> set (replica_ids env self c b k). ready env self b cl n \<longrightarrow> holds cl' n b k v)
    \<and> (majority (length (replica_ids env self c b k))
        \<le> card {n \<in> set (replica_ids env self c b k). ready env self b cl n} \<longrightarrow> r = Inr ())"
proof -
  let ?ids = "replica_ids env self c b k"
  from Set_result [OF assms(1-4), of v ttl] v obtain r cl' acked where
    run: "Set env self b k v ttl cl = Ret r cl'" and sub: "acked \<subseteq> set ?ids"
    and q: "r = Inr () \<longleftrightarrow> majority (length ?ids) \<le> card acked"
    and h: "\<forall>n \<in> acked. holds cl' n b k v"
    and rd: "\<forall>n \<in> set ?ids. ready env self b cl n \<longrightarrow> n \<in> acked" by blast
  have "card {n \<in> set ?ids. ready env self b cl n} \<le> card acked"
    using rd finite_subset [OF sub] by (intro card_mono) auto
  with run q h rd show ?thesis by (intro exI [of _ r] exI [of _ cl']) auto
qed

text \<open>The schedule is used for the order of a fan-out only.\<close>

lemma sched_codec [simp]:
  "gobEncode (env\<lparr>e_sched := s\<rparr>) = gobEncode env" "gobDecode (env\<lparr>e_sched := s\<rparr>) = gobDecode env"
  by (simp_all add: fun_eq_iff gobEncode_def gobDecode_def)

lemma sched_handler [simp]:
  "applicationRequestHandlerFunc (env\<lparr>e_sched := s\<rparr>) = applicationRequestHandlerFunc env"
  by (simp add: fun_eq_iff applicationRequestHandlerFunc_def cong: sum.case_cong if_cong)

lemma sched_Request [simp]: "Request (env\<lparr>e_sched := s\<rparr>) = Request env"
  by (simp add: fun_eq_iff Request_def cong: option.case_cong outcome.case_cong if_cong)

lemma sched_irrelevant [simp]:
  "set_on (env\<lparr>e_sched := s\<rparr>) = set_on env"
  "delete_on (env\<lparr>e_sched := s\<rparr>) = delete_on env"
  "replica_ids (env\<lparr>e_sched := s\<rparr>) = replica_ids env"
  "locality (env\<lparr>e_sched := s\<rparr>) = locality env"
  by (simp_all add: fun_eq_iff set_on_def delete_on_def replica_ids_def locality_def
      setRemoteToNode_def deleteRemoteFromNode_def cong: sum.case_cong if_cong
      option.case_cong outcome.case_cong)

text \<open>
  C26: The order in which the replicas' goroutines run and report does not matter: for any two
  orders \<open>Set\<close> ends in the same state of the whole cluster (metrics included) and with the
  same success or failure.
\<close>

theorem Set_schedule_independent:
  assumes "schedules env" and "schedules (env\<lparr>e_sched := s\<rparr>)" and run: "running env self cl c"
    and can: "can_store c b k"
  shows "\<exists>r r' cl'. Set env self b k v ttl cl = Ret r cl'
    \<and> Set (env\<lparr>e_sched := s\<rparr>) self b k v ttl cl = Ret r' cl'
    \<and> (r = Inr () \<longleftrightarrow> r' = Inr ())"
proof -
  obtain loc c1 where l: "locality env self b k c = (loc, c1)" by fastforce
  let ?c = "trackSet b loc c1"
  let ?cl = "cl(self \<mapsto> ?c)" and ?ids = "replica_ids env self c b k"
  have c2: "same_store c ?c"
    using same_store_locality [of c env self b k] l by (simp add: trackSet_def)
  have ids: "replica_ids env self ?c b k = ?ids" using replica_ids_same_store [OF c2] by simp
  have "\<forall>n \<in> set ?ids. \<exists>r cl'. set_on env self b k v ttl n ?cl = Ret r cl'"
    using can_store_same_store [OF c2 can] by (auto intro: set_on_returns)
  from sets.quorum_schedule [OF assms(1,2) running_ids(1) [OF run, of b k] this, of self b]
  obtain r r' cl' where
    "setReplicated env self b k v ttl ?c ?cl = Ret r cl'"
    "setReplicated (env\<lparr>e_sched := s\<rparr>) self b k v ttl ?c ?cl = Ret r' cl'"
    "r = Inr () \<longleftrightarrow> r' = Inr ()" "isl r = isl r'"
    using setReplicated_body [of env self ?c b k v ttl ?cl]
      setReplicated_body [of "env\<lparr>e_sched := s\<rparr>" self ?c b k v ttl ?cl]
      running_ids(2) [OF run, of b k] by (auto simp: ids)
  moreover have "track_done b loc r = track_done b loc r'" if "isl r = isl r'"
    using that by (cases r; cases r') (auto simp: track_done_def fun_eq_iff)
  ultimately show ?thesis
    using run l by (auto simp: Set_def running_def)
qed

section \<open>A cluster for the witnesses\<close>

text \<open>Three connected nodes with an empty bucket \<open>s\<close> of capacity 2, three replicas per key.\<close>

definition demo_node :: "nat \<Rightarrow> string \<Rightarrow> cache" where
  "demo_node r n = (initCache n r)\<lparr>lruBuckets := [''s'' \<mapsto> \<lparr>bType = bucketTypeRegular,
     bPrecisions = [], bHead = None, bTail = None, bLen = 0, bMaxLen = 2, bDefaultTtl = 0\<rparr>]\<rparr>"

definition demo_cluster :: "nat \<Rightarrow> cluster" where
  "demo_cluster r n = (if n \<in> {''a'', ''b'', ''c''} then Some (demo_node r n) else None)"

definition demo_peers :: "string \<Rightarrow> string list" where
  "demo_peers n = filter (\<lambda>m. m \<noteq> n) [''a'', ''b'', ''c'']"

abbreviation demo_env :: "(string \<Rightarrow> link) \<Rightarrow> (string list \<Rightarrow> string list) \<Rightarrow> env" where
  "demo_env lnk sched \<equiv> toy_env demo_hash demo_peers lnk sched"

lemma demo_running:
  "0 < r \<Longrightarrow> running (demo_env lnk sched) ''a'' (demo_cluster r) (demo_node r ''a'')"
  by (simp add: running_def demo_cluster_def demo_node_def demo_peers_def initCache_def)

lemma demo_can_store: "demo_cluster r n = Some d \<Longrightarrow> can_store d ''s'' k"
  by (auto simp: can_store_def demo_cluster_def demo_node_def split: if_splits)

lemma demo_stores_ok:
  "stores_ok (demo_env lnk sched) ''a'' (demo_node r ''a'') ''s'' k (demo_cluster r)"
  unfolding stores_ok_def using demo_can_store by blast

lemma demo_ids:
  "set (replica_ids (demo_env lnk sched) ''a'' (demo_node 3 ''a'') b k) = {''a'', ''b'', ''c''}"
  "length (replica_ids (demo_env lnk sched) ''a'' (demo_node 3 ''a'') b k) = 3"
  by (auto simp: replica_ids_def getReplicaNodes_ranking demo_node_def initCache_def members_def
      demo_peers_def)

lemma demo_ready:
  "ready (demo_env lnk sched) ''a'' ''s'' (demo_cluster 3) n
     \<longleftrightarrow> n = ''a'' \<or> (n \<in> {''b'', ''c''} \<and> lnk n = Up)"
  by (auto simp: ready_def demo_cluster_def demo_node_def demo_peers_def)

abbreviation demo_fault :: "string \<Rightarrow> link" where
  "demo_fault \<equiv> (\<lambda>n. if n = ''c'' then RequestLost else Up)"

lemma demo_schedules [simp]: "schedules (demo_env lnk rev)" "schedules (demo_env lnk (\<lambda>x. x))"
  by (simp_all add: schedules_def)

lemma demo_quorum:
  "majority 3 \<le> card {n \<in> {''a'', ''b'', ''c''}. ready (demo_env demo_fault sched) ''a'' ''s'' (demo_cluster 3) n}"
proof -
  have "{n \<in> {''a'', ''b'', ''c''}. ready (demo_env demo_fault sched) ''a'' ''s'' (demo_cluster 3) n}
      = {''a'', ''b''}" by (auto simp: demo_ready)
  then show ?thesis by (simp add: majority_def)
qed

lemma demo_Set_succeeds:
  "\<exists>cl'. Set (demo_env demo_fault rev) ''a'' ''s'' ''k'' (AInt 7) 0 (demo_cluster 3) = Ret (Inr ()) cl'"
proof -
  let ?env = "demo_env demo_fault rev"
  from Set_result [OF toy_gob_laws _ demo_running demo_stores_ok, of demo_fault rev 3 "''k''" "AInt 7" 0]
  obtain r cl' acked where run: "Set ?env ''a'' ''s'' ''k'' (AInt 7) 0 (demo_cluster 3) = Ret r cl'"
    and sub: "acked \<subseteq> {''a'', ''b'', ''c''}" and q: "r = Inr () \<longleftrightarrow> majority 3 \<le> card acked"
    and rd: "\<And>n. n \<in> {''a'', ''b'', ''c''} \<Longrightarrow> ready ?env ''a'' ''s'' (demo_cluster 3) n \<Longrightarrow> n \<in> acked"
    by (auto simp: demo_ids)
  have "{n \<in> {''a'', ''b'', ''c''}. ready ?env ''a'' ''s'' (demo_cluster 3) n} \<subseteq> acked"
    using rd by blast
  then have "majority 3 \<le> card acked"
    using demo_quorum [of rev] finite_subset [OF sub] by (meson card_mono finite.intros le_trans)
  with run q show ?thesis by blast
qed

theorem Set_durable_on_quorum_witness:
  "\<exists>cl'. Set (demo_env demo_fault rev) ''a'' ''s'' ''k'' (AInt 7) 0 (demo_cluster 3) = Ret (Inr ()) cl'
     \<and> (\<exists>n \<in> {''b'', ''c''}. holds cl' n ''s'' ''k'' (AInt 7))"
proof -
  obtain cl' where ok: "Set (demo_env demo_fault rev) ''a'' ''s'' ''k'' (AInt 7) 0 (demo_cluster 3)
    = Ret (Inr ()) cl'" using demo_Set_succeeds by blast
  with Set_durable_on_quorum [OF toy_gob_laws _ demo_running demo_stores_ok ok, of "{''b'', ''c''}"]
  show ?thesis by (simp add: demo_ids majority_def)
qed

theorem Set_reaches_ready_replicas_witness:
  "\<exists>cl'. Set (demo_env demo_fault rev) ''a'' ''s'' ''k'' (AInt 7) 0 (demo_cluster 3) = Ret (Inr ()) cl'
     \<and> holds cl' ''a'' ''s'' ''k'' (AInt 7) \<and> holds cl' ''b'' ''s'' ''k'' (AInt 7)"
  using Set_reaches_ready_replicas [OF toy_gob_laws _ demo_running demo_stores_ok,
      of demo_fault rev 3 "AInt 7" "''k''" 0] demo_quorum [of rev]
  by (auto simp: demo_ids demo_ready)

theorem Set_schedule_independent_witness:
  "\<exists>r r' cl'. Set (demo_env demo_fault rev) ''a'' ''s'' ''k'' (AInt 7) 0 (demo_cluster 3) = Ret r cl'
     \<and> Set (demo_env demo_fault (\<lambda>x. x)) ''a'' ''s'' ''k'' (AInt 7) 0 (demo_cluster 3) = Ret r' cl'"
proof -
  have env: "(demo_env demo_fault rev)\<lparr>e_sched := \<lambda>x. x\<rparr> = demo_env demo_fault (\<lambda>x. x)"
    by (simp add: toy_env_def)
  have "can_store (demo_node 3 ''a'') ''s'' ''k''"
    using demo_can_store [of 3 "''a''"] by (simp add: demo_cluster_def)
  then show ?thesis
    using Set_schedule_independent [of "demo_env demo_fault rev" "\<lambda>x. x", unfolded env,
        OF _ _ demo_running, of 3 "''s''" "''k''" "AInt 7" 0] by auto
qed

end
