(* ===== verification/Consistency.thy ===== *)
theory Consistency
  imports Replication
begin

text \<open>
  What the replicated operations promise a caller beyond the quorum of \<open>Set\<close>: \<open>Delete\<close> with its
  "not found is success" rule, and \<open>Get\<close>, which reads the local store or the primary and
  nothing else.
\<close>

section \<open>Delete\<close>

definition absent :: "cluster \<Rightarrow> string \<Rightarrow> string \<Rightarrow> string \<Rightarrow> bool" where
  "absent cl n b k \<longleftrightarrow> (\<exists>d. cl n = Some d \<and> getLocal b k d = Ret (Inl ERR_NOT_FOUND) d)"

lemma absent_keyVal: "cl n = Some d \<Longrightarrow> keyVal d (b @ k) = None \<Longrightarrow> absent cl n b k"
  by (simp add: absent_def getLocal_def keyVal_Get_def)

lemma CacheDelete_enters:
  assumes "cl self = Some c"
  shows "\<exists>c2 loc. same_store c c2 \<and> CacheDelete env self b k cl
    = finish self b loc (deleteReplicated env self b k c2 (cl(self \<mapsto> c2)))"
proof -
  obtain loc c1 where l: "locality env self b k c = (loc, c1)" by fastforce
  then have "same_store c (trackDelete b loc c1)"
    using same_store_locality [of c env self b k] by (simp add: trackDelete_def)
  with assms l show ?thesis by (auto simp: CacheDelete_def Let_def)
qed

lemma deleteLocal_same_store:
  "same_store c d \<Longrightarrow> deleteLocal b k c = Ret r c' \<Longrightarrow> \<exists>d'. deleteLocal b k d = Ret r d'"
  by (auto simp: deleteLocal_def GetBucket_def same_store_def Let_def
      split: option.splits prod.splits bool.splits)

lemma deleteLocal_deletes: "deleteLocal b k c = Ret (Inr ()) c' \<Longrightarrow> keyVal c' (b @ k) = None"
  by (auto simp: deleteLocal_def GetBucket_def cache_updates Let_def
      split: option.splits prod.splits bool.splits)

lemma deleteLocal_fails_unchanged: "deleteLocal b k c = Ret (Inl e) c' \<Longrightarrow> c' = c"
  by (auto simp: deleteLocal_def GetBucket_def Let_def
      split: option.splits prod.splits bool.splits)

lemma deleteLocal_refined:
  assumes "refines c A"
  shows "\<exists>r c'. deleteLocal b k c = Ret r c' \<and> (r = Inl ERR_NOT_FOUND \<longrightarrow> keyVal c (b @ k) = None)"
proof -
  from assms obtain L where ok: "cache_ok c L" by (auto simp: refines_def)
  show ?thesis
  proof (cases "lruBuckets c b")
    case None
    then show ?thesis by (simp add: deleteLocal_def)
  next
    case (Some bk)
    show ?thesis
    proof (cases "keyVal c (b @ k)")
      case None
      with deleteLocal_absent [OF ok Some] show ?thesis by auto
    next
      case (Some n)
      with delete_node_ok [OF ok \<open>lruBuckets c b = Some bk\<close> Some] show ?thesis by auto
    qed
  qed
qed

lemma forgive_Inr:
  "forgive_not_found x = Ret (Inr ()) s \<longleftrightarrow> x = Ret (Inr ()) s \<or> x = Ret (Inl ERR_NOT_FOUND) s"
  by (cases x rule: forgive_not_found.cases) auto

text \<open>An acknowledged deletion: done here, done there, or nothing to do here.\<close>

lemma delete_on_ack:
  assumes "gob_laws env" and "delete_on env self b k n cl = Ret (Inr ()) cl'"
  shows "\<exists>d d'. cl n = Some d \<and> cl' n = Some d' \<and> (deleteLocal b k d = Ret (Inr ()) d'
    \<or> (n = self \<and> deleteLocal b k d = Ret (Inl ERR_NOT_FOUND) d'))"
proof (cases "n = self")
  case True
  with assms(2) show ?thesis
    by (auto simp: delete_on_def forgive_Inr at_self_def split: option.splits outcome.splits)
next
  case False
  have "fst (deliver env self n (deleteLocal b k) (cl n)) \<noteq> Inl ERR_NOT_FOUND"
    by (auto simp: deliver_def split: option.split outcome.split) (metis error.distinct map_sum.simps
        sum.exhaust Inl_Inr_False Inl_inject error.simps)+
  with False assms(2) deliver_success [of env self n "deleteLocal b k" "cl n"]
  show ?thesis
    by (auto simp: delete_on_def forgive_Inr deleteRemoteFromNode_deliver [OF assms(1)] Let_def)
qed

lemma delete_on_returns:
  assumes "n = self \<longrightarrow> (\<exists>c r c'. cl self = Some c \<and> deleteLocal b k c = Ret r c')"
  shows "\<exists>r cl'. delete_on env self b k n cl = Ret r cl'"
proof -
  have f: "\<exists>r' s'. forgive_not_found (Ret r s) = Ret r' s'" for r and s :: cluster
    by (cases "(Ret r s) :: (unit, cluster) outcome" rule: forgive_not_found.cases) auto
  from assms show ?thesis
    by (cases "n = self") (auto simp: delete_on_def at_self_def case_prod_beta f)
qed

lemma CacheDelete_outcome:
  assumes sched: "schedules env" and run: "running env self cl c"
    and ret: "\<exists>r c'. deleteLocal b k c = Ret r c'"
  shows "\<exists>c2 r f after. same_store c c2
    \<and> CacheDelete env self b k cl
      = Ret r (update self f (\<lambda>n. if n \<in> set (replica_ids env self c b k) then after n else (cl(self \<mapsto> c2)) n))
    \<and> only_counts f
    \<and> (\<forall>n \<in> set (replica_ids env self c b k). \<exists>r.
        delete_on env self b k n (cl(self \<mapsto> c2)) = Ret r ((cl(self \<mapsto> c2))(n := after n)))
    \<and> (r = Inr () \<longleftrightarrow> majority (length (replica_ids env self c b k))
        \<le> card (acks (delete_on env self b k) (replica_ids env self c b k) (cl(self \<mapsto> c2))))
    \<and> (r = Inr () \<or> (\<exists>l. r = Inl (ErrQuorum (card (acks (delete_on env self b k)
        (replica_ids env self c b k) (cl(self \<mapsto> c2)))) (length (replica_ids env self c b k)) l)))"
proof -
  let ?ids = "replica_ids env self c b k" and ?op = "delete_on env self b k"
  from run have c: "cl self = Some c" by (simp add: running_def)
  from CacheDelete_enters [where cl = cl and self = self, OF c] obtain c2 loc where
    c2: "same_store c c2" and del: "CacheDelete env self b k cl
      = finish self b loc (deleteReplicated env self b k c2 (cl(self \<mapsto> c2)))" by blast
  have ids: "replica_ids env self c2 b k = ?ids" using replica_ids_same_store [OF c2] by simp
  from ret deleteLocal_same_store [OF c2] have "\<exists>r c'. deleteLocal b k c2 = Ret r c'" by blast
  then have "\<forall>n \<in> set ?ids. \<exists>r cl'. ?op n (cl(self \<mapsto> c2)) = Ret r cl'"
    by (intro ballI delete_on_returns) auto
  from deletes.counted_outcome [OF sched running_ids(1) [OF run] this, of self b] obtain r f after where
    out: "deleteReplicated env self b k c2 (cl(self \<mapsto> c2))
      = Ret r (update self f (\<lambda>n. if n \<in> set ?ids then after n else (cl(self \<mapsto> c2)) n))"
    and f: "only_counts f"
    and rest: "\<forall>n \<in> set ?ids. \<exists>r. ?op n (cl(self \<mapsto> c2)) = Ret r ((cl(self \<mapsto> c2))(n := after n))"
      "r = Inr () \<longleftrightarrow> majority (length ?ids) \<le> card (acks ?op ?ids (cl(self \<mapsto> c2)))"
      "r = Inr () \<or> (\<exists>l. r = Inl (ErrQuorum (card (acks ?op ?ids (cl(self \<mapsto> c2)))) (length ?ids) l))"
    using deleteReplicated_body [of env self c2 b k "cl(self \<mapsto> c2)"] running_ids(2) [OF run, of b k]
    by (auto simp: ids)
  let ?f = "\<lambda>c. track_done b loc r (f c)"
  have "CacheDelete env self b k cl
      = Ret r (update self ?f (\<lambda>n. if n \<in> set ?ids then after n else (cl(self \<mapsto> c2)) n))"
    using del out by (simp add: update_def option.map_comp comp_def)
  moreover have "only_counts ?f" using f only_counts_track_done only_counts_comp by blast
  ultimately show ?thesis using c2 rest by blast
qed

text \<open>
  C33: A successful \<open>Delete\<close> is on a majority, if the calling node is intact (none of
  its buckets has evicted, no bucket name is a prefix of another): if \<open>Delete\<close> returns without error, at least \<open>\<lfloor>n/2\<rfloor> + 1\<close> of the \<open>n\<close> replicas answer "not found"
  to a local read afterwards. (After an eviction the caller's own walk may miss a key that is
  still stored, and not found counts as success: \<open>delete_evicted_key_empties_list\<close>.)
\<close>

theorem Delete_success_on_quorum:
  assumes gob: "gob_laws env" and sched: "schedules env" and run: "running env self cl c"
    and ref: "refines c A" and ok: "CacheDelete env self b k cl = Ret (Inr ()) cl'"
  shows "majority (length (replica_ids env self c b k))
    \<le> card {n \<in> set (replica_ids env self c b k). absent cl' n b k}"
proof -
  let ?ids = "replica_ids env self c b k" and ?op = "delete_on env self b k"
  have "\<exists>r c'. deleteLocal b k c = Ret r c'" using deleteLocal_refined [OF ref] by blast
  from CacheDelete_outcome [OF sched run this] ok obtain c2 f after where c2: "same_store c c2"
    and cl': "cl' = update self f (\<lambda>n. if n \<in> set ?ids then after n else (cl(self \<mapsto> c2)) n)"
    and f: "only_counts f"
    and each: "\<forall>n \<in> set ?ids. \<exists>r. ?op n (cl(self \<mapsto> c2)) = Ret r ((cl(self \<mapsto> c2))(n := after n))"
    and q: "majority (length ?ids) \<le> card (acks ?op ?ids (cl(self \<mapsto> c2)))" by auto
  have "absent cl' n b k" if n: "n \<in> acks ?op ?ids (cl(self \<mapsto> c2))" for n
  proof -
    from n obtain cl2 where ack: "?op n (cl(self \<mapsto> c2)) = Ret (Inr ()) cl2" and mem: "n \<in> set ?ids"
      by (auto simp: acks_def)
    with each have cl2: "cl2 = (cl(self \<mapsto> c2))(n := after n)" by fastforce
    from delete_on_ack [OF gob ack] cl2 obtain d d' where d: "(cl(self \<mapsto> c2)) n = Some d"
      "after n = Some d'" and how: "deleteLocal b k d = Ret (Inr ()) d'
        \<or> (n = self \<and> deleteLocal b k d = Ret (Inl ERR_NOT_FOUND) d')" by auto
    have "keyVal d' (b @ k) = None" using how
    proof
      assume "n = self \<and> deleteLocal b k d = Ret (Inl ERR_NOT_FOUND) d'"
      with d deleteLocal_fails_unchanged have nf: "deleteLocal b k c2 = Ret (Inl ERR_NOT_FOUND) d'" "d' = c2"
        by auto
      from deleteLocal_refined [OF refines_same_store [OF c2 ref], of b k] nf show ?thesis by auto
    qed (rule deleteLocal_deletes)
    then have "keyVal (f d') (b @ k) = None"
      using only_counts_same_store [OF f, of d'] by (simp add: same_store_def)
    with mem d \<open>keyVal d' (b @ k) = None\<close> show ?thesis
      by (intro absent_keyVal [of _ _ "if n = self then f d' else d'"])
        (auto simp: cl' update_def)
  qed
  then have "acks ?op ?ids (cl(self \<mapsto> c2)) \<subseteq> {n \<in> set ?ids. absent cl' n b k}"
    by (auto simp: acks_def)
  then have "card (acks ?op ?ids (cl(self \<mapsto> c2))) \<le> card {n \<in> set ?ids. absent cl' n b k}"
    by (intro card_mono) auto
  with q show ?thesis by simp
qed

text \<open>
  Deleting a key that no replica has fails, although it is meant to be idempotent. Only the
  calling node recognises its own \<open>ERR_NOT_FOUND\<close>; the other replicas' answer crosses the wire
  as text and counts as a failure. With two or more replicas \<open>Delete\<close> then reports a quorum
  failure with at most one success, however healthy the cluster is.
\<close>

theorem Delete_absent_key_fails:
  assumes gob: "gob_laws env" and sched: "schedules env" and run: "running env self cl c"
    and two: "2 \<le> length (replica_ids env self c b k)"
    and absent: "\<And>n d. n \<in> insert self (set (replica_ids env self c b k)) \<Longrightarrow> cl n = Some d \<Longrightarrow>
      deleteLocal b k d = Ret (Inl ERR_NOT_FOUND) d"
  shows "\<exists>s l cl'. CacheDelete env self b k cl
      = Ret (Inl (ErrQuorum s (length (replica_ids env self c b k)) l)) cl' \<and> s \<le> 1"
proof -
  let ?ids = "replica_ids env self c b k" and ?op = "delete_on env self b k"
  from run have c: "cl self = Some c" by (simp add: running_def)
  with absent have "\<exists>r c'. deleteLocal b k c = Ret r c'" by blast
  from CacheDelete_outcome [OF sched run this] obtain c2 r f after where c2: "same_store c c2"
    and out: "CacheDelete env self b k cl
      = Ret r (update self f (\<lambda>n. if n \<in> set ?ids then after n else (cl(self \<mapsto> c2)) n))"
    and q: "r = Inr () \<longleftrightarrow> majority (length ?ids) \<le> card (acks ?op ?ids (cl(self \<mapsto> c2)))"
      "r = Inr () \<or> (\<exists>l. r = Inl (ErrQuorum (card (acks ?op ?ids (cl(self \<mapsto> c2)))) (length ?ids) l))"
    by blast
  have "n = self" if n: "n \<in> acks ?op ?ids (cl(self \<mapsto> c2))" for n
  proof (rule ccontr)
    assume ne: "n \<noteq> self"
    from n obtain cl2 where ack: "?op n (cl(self \<mapsto> c2)) = Ret (Inr ()) cl2" and mem: "n \<in> set ?ids"
      by (auto simp: acks_def)
    from delete_on_ack [OF gob ack] ne obtain d d' where "cl n = Some d" "deleteLocal b k d = Ret (Inr ()) d'"
      by auto
    with absent [of n d] mem show False by simp
  qed
  then have "acks ?op ?ids (cl(self \<mapsto> c2)) \<subseteq> {self}" by blast
  then have one: "card (acks ?op ?ids (cl(self \<mapsto> c2))) \<le> 1"
    using card_mono [of "{self}"] by fastforce
  moreover have "2 \<le> majority (length ?ids)" using two by (simp add: majority_def)
  ultimately have "r \<noteq> Inr ()" using q(1) by auto
  with q(2) out one show ?thesis by auto
qed

lemma demo_absent:
  "demo_cluster 3 n = Some d \<Longrightarrow> deleteLocal ''s'' ''k'' d = Ret (Inl ERR_NOT_FOUND) d"
proof -
  assume "demo_cluster 3 n = Some d"
  then have d: "d = demo_node 3 n" by (simp add: demo_cluster_def split: if_splits)
  have "find_node (heapOf d) ''k'' None = Some None"
    by (simp add: find_node_Some)
  then show ?thesis
    by (simp add: deleteLocal_def Delete_def d demo_node_def)
qed

theorem Delete_absent_key_fails_witness:
  "\<exists>s l cl'. CacheDelete (demo_env (\<lambda>_. Up) rev) ''a'' ''s'' ''k'' (demo_cluster 3)
     = Ret (Inl (ErrQuorum s 3 l)) cl' \<and> s \<le> 1"
  using Delete_absent_key_fails [OF toy_gob_laws _ demo_running, of "\<lambda>_. Up" rev 3 "''s''" "''k''"]
    demo_absent
  by (simp add: demo_ids)

section \<open>Get\<close>

text \<open>
  A replica answers from its own store. If a local read finds the key, \<open>Get\<close> returns that
  value, whatever the state of the network and of the other nodes, and changes nothing but the
  caller's own node.
\<close>

theorem Get_local_hit:
  assumes "cl self = Some c" and "getLocal b k c = Ret (Inr v) c1"
  shows "\<exists>c2. Get env self b k cl = Ret (Inr v) (cl(self \<mapsto> c2)) \<and> same_store c1 c2"
  using assms
  by (intro exI [of _ "trackGet_done b localityLocal True (trackGet b localityLocal c1)"])
    (simp add: Get_def trackGet_def trackGet_done_def)

fun remote_answer :: "(goany, cache) outcome \<Rightarrow> error + goany" where
  "remote_answer (Ret (Inr v) d) = (if gob_registered v then Inr v else Inl (ErrRemote ErrGobEncode))"
| "remote_answer (Ret (Inl e) d) = Inl (ErrRemote e)"
| "remote_answer Panic = Inl ErrTimeout"
| "remote_answer Hang = Inl ErrTimeout"

lemma getRemote_answer:
  assumes gob: "gob_laws env" and coh: "coherent (e_hash env) (e_peers env self) c"
    and p: "p = hd (ranking (e_hash env) (routingKey b k) (members (e_peers env self) c))"
    and up: "p \<in> set (e_peers env self)" "e_link env p = Up" and d: "cl p = Some d" and ne: "p \<noteq> self"
  shows "\<exists>cl'. getRemote env self b k c cl = (remote_answer (getLocal b k d), cl')"
proof -
  from getPrimaryNode_coherent [OF coh, of b k] p obtain c' where
    prim: "getPrimaryNode (e_hash env) (e_peers env self) b k c = (p, c')" by auto
  let ?q = "\<lparr>rpOperation = GET, rpKey = k, rpBucket = b, rpValue = ANil, rpTtl = 0\<rparr>"
  from gob_roundtrip(1) [OF gob, of ?q] obtain bs where
    bs: "gobEncode env ?q = Inr bs" "bs \<noteq> []" "gobDecode env bs = Inr ?q" by auto
  have handler: "applicationRequestHandlerFunc env bs d = and_then (getLocal b k d)
      (\<lambda>val. Ret (gobEncode env \<lparr>rpOperation = RESPONSE, rpKey = k, rpBucket = b, rpValue = val, rpTtl = 0\<rparr>))"
    using bs by (simp add: applicationRequestHandlerFunc_def)
  show ?thesis
  proof (cases "getLocal b k d")
    case (Ret r d')
    show ?thesis
    proof (cases r)
      case (Inr v)
      let ?a = "\<lparr>rpOperation = RESPONSE, rpKey = k, rpBucket = b, rpValue = v, rpTtl = 0\<rparr>"
      show ?thesis
      proof (cases "gob_registered v")
        case True
        with gob_roundtrip(1) [OF gob, of ?a] obtain as where
          "gobEncode env ?a = Inr as" "gobDecode env as = Inr ?a" by auto
        with bs handler Ret Inr True prim up d ne show ?thesis
          by (simp add: getRemote_def Request_def)
      next
        case False
        with gob_roundtrip(2) [OF gob, of ?a] have "gobEncode env ?a = Inl ErrGobEncode" by simp
        with bs handler Ret Inr False prim up d ne show ?thesis
          by (simp add: getRemote_def Request_def)
      qed
    qed (use bs handler Ret prim up d ne in \<open>simp add: getRemote_def Request_def\<close>)
  qed (use bs handler prim up d ne in \<open>simp_all add: getRemote_def Request_def\<close>)
qed

lemma coherent_trackGet: "coherent h ps (trackGet b l c) = coherent h ps c"
  by (simp add: coherent_def trackGet_def members_def)

lemma members_trackGet: "members ps (trackGet b l c) = members ps c"
  by (simp add: members_def trackGet_def)

lemma getLocal_miss: "keyVal c (b @ k) = None \<Longrightarrow> getLocal b k c = Ret (Inl ERR_NOT_FOUND) c"
  by (simp add: getLocal_def keyVal_Get_def)

text \<open>
  A node that does not hold the key returns what the primary answers to a local read, and
  asks no other replica: if the primary does not have the key, the caller gets an error even
  when every other replica has it (an error that is not \<open>ERR_NOT_FOUND\<close>, since it came over
  the wire).
\<close>

theorem Get_asks_primary_only:
  assumes gob: "gob_laws env" and run: "running env self cl c"
    and coh: "coherent (e_hash env) (e_peers env self) c" and miss: "keyVal c (b @ k) = None"
    and p: "p = hd (ranking (e_hash env) (routingKey b k) (members (e_peers env self) c))"
    and ne: "p \<noteq> self" and up: "e_link env p = Up" and d: "cl p = Some d"
  shows "\<exists>cl'. Get env self b k cl = Ret (remote_answer (getLocal b k d)) cl'"
proof -
  from run have c: "cl self = Some c" "nodeId c = self" by (simp_all add: running_def)
  have "p \<in> set (members (e_peers env self) c)"
    using p hd_in_set [OF ranking_not_Nil] by fastforce
  with ne c have "p \<in> set (e_peers env self)" by (simp add: members_def)
  from getRemote_answer [where cl = cl and p = p and self = self, OF gob _ _ this up d ne, of "trackGet b localityRemote c" b k] coh p
  obtain cl' where "getRemote env self b k (trackGet b localityRemote c) cl
      = (remote_answer (getLocal b k d), cl')"
    by (auto simp: coherent_trackGet members_trackGet)
  with c getLocal_miss [OF miss] show ?thesis by (simp add: Get_def)
qed

text \<open>
  On the primary itself a missing key is not reported as missing: \<open>Get\<close> then sends the
  request to its own node id, for which there is never a connection, so the caller gets the
  error of a failed send instead of \<open>ERR_NOT_FOUND\<close>.
\<close>

theorem Get_missing_on_primary:
  assumes gob: "gob_laws env" and run: "running env self cl c"
    and coh: "coherent (e_hash env) (e_peers env self) c" and miss: "keyVal c (b @ k) = None"
    and p: "self = hd (ranking (e_hash env) (routingKey b k) (members (e_peers env self) c))"
  shows "\<exists>cl'. Get env self b k cl = Ret (Inl ErrSend) cl'"
proof -
  from run have c: "cl self = Some c" "self \<notin> set (e_peers env self)"
    by (simp_all add: running_def)
  from getPrimaryNode_coherent [of "e_hash env" "e_peers env self" "trackGet b localityRemote c" b k] coh p
  obtain c' where "getPrimaryNode (e_hash env) (e_peers env self) b k (trackGet b localityRemote c) = (self, c')"
    by (auto simp: coherent_trackGet members_trackGet)
  moreover from gob_roundtrip(1) [OF gob, of "\<lparr>rpOperation = GET, rpKey = k, rpBucket = b,
      rpValue = ANil, rpTtl = 0\<rparr>"] obtain bs where
    "gobEncode env \<lparr>rpOperation = GET, rpKey = k, rpBucket = b, rpValue = ANil, rpTtl = 0\<rparr> = Inr bs"
    by auto
  ultimately show ?thesis
    using c getLocal_miss [OF miss] by (simp add: Get_def getRemote_def Request_def)
qed

lemma coherent_locality:
  "coherent (e_hash env) (e_peers env self) c \<Longrightarrow>
     coherent (e_hash env) (e_peers env self) (snd (locality env self b k c))"
  using isLocal_coherent [of "e_hash env" "e_peers env self" c b k]
  by (auto simp: locality_def)

lemma hd_in_take: "0 < n \<Longrightarrow> xs \<noteq> [] \<Longrightarrow> hd xs \<in> set (take n xs)"
  by (cases xs; cases n) auto

lemma set_on_lost:
  assumes "e_link env p = RequestLost" and "p \<noteq> self"
    and "set_on env self b k v ttl p cl = Ret r cl'"
  shows "cl' p = cl p"
  using assms by (auto simp: set_on_def setRemoteToNode_def Request_def split: sum.splits if_splits)

text \<open>
  A quorum write can be invisible. If the request to the primary was lost but \<open>Set\<close> reached
  its quorum on the other replicas and reported success, then \<open>Get\<close> at the same node (not a
  replica of the key), now with every link up, returns an error.
\<close>

theorem Get_misses_quorum_write:
  assumes gob: "gob_laws env" and sched: "schedules env" and run: "running env self cl c"
    and coh: "coherent (e_hash env) (e_peers env self) c"
    and p: "p = hd (ranking (e_hash env) (routingKey b k) (members (e_peers env self) c))"
    and lost: "e_link env p = RequestLost"
    and outside: "self \<notin> set (replica_ids env self c b k)"
    and miss: "keyVal c (b @ k) = None" and d: "cl p = Some d" "keyVal d (b @ k) = None"
    and ok: "Set env self b k v ttl cl = Ret (Inr ()) cl'"
  shows "\<exists>cl2. Get (env\<lparr>e_link := \<lambda>_. Up\<rparr>) self b k cl' = Ret (Inl (ErrRemote ERR_NOT_FOUND)) cl2"
proof -
  let ?ids = "replica_ids env self c b k" and ?op = "set_on env self b k v ttl"
  from run have c: "cl self = Some c" "nodeId c = self" by (simp_all add: running_def)
  obtain loc c1 where l: "locality env self b k c = (loc, c1)" by fastforce
  define c2 where "c2 = trackSet b loc c1"
  have c2: "same_store c c2" "coherent (e_hash env) (e_peers env self) c2"
    using same_store_locality [of c env self b k] coherent_locality [OF coh, of b k] l
    by (simp_all add: c2_def trackSet_def coherent_def members_def)
  let ?cl = "cl(self \<mapsto> c2)"
  have ids2: "replica_ids env self c2 b k = ?ids" using replica_ids_same_store [OF c2(1)] by simp
  have "\<forall>n \<in> set ?ids. \<exists>r cl'. ?op n ?cl = Ret r cl'"
    using outside by (intro ballI set_on_returns) auto
  with setReplicated_outcome [OF sched, of self c2 b k v ttl ?cl] running_ids(1,2) [OF run, of b k]
  obtain r f after where
    rep: "setReplicated env self b k v ttl c2 ?cl
      = Ret r (update self f (\<lambda>n. if n \<in> set ?ids then after n else ?cl n))"
    and f: "only_counts f" and each: "\<forall>n \<in> set ?ids. \<exists>r. ?op n ?cl = Ret r (?cl(n := after n))"
    unfolding ids2 by blast
  let ?f = "\<lambda>c. track_done b loc r (f c)"
  have cl': "cl' = update self ?f (\<lambda>n. if n \<in> set ?ids then after n else ?cl n)"
  proof -
    have "Set env self b k v ttl cl = finish self b loc (setReplicated env self b k v ttl c2 ?cl)"
      using c(1) l by (simp add: Set_def c2_def [symmetric])
    also have "\<dots> = Ret r (update self ?f (\<lambda>n. if n \<in> set ?ids then after n else ?cl n))"
      unfolding rep by (simp add: update_def option.map_comp comp_def)
    finally show ?thesis using ok by simp
  qed
  have pids: "p \<in> set ?ids"
    using run p by (simp add: replica_ids_def getReplicaNodes_ranking hd_in_take running_def)
  then have ps: "p \<noteq> self" using outside by auto
  from each pids obtain r' where "?op p ?cl = Ret r' (?cl(p := after p))" by blast
  from set_on_lost [OF lost ps this] ps pids d(1) have cl'p: "cl' p = Some d"
    by (simp add: cl' update_def)
  have cl's: "cl' self = Some (?f c2)" using outside by (simp add: cl' update_def)
  have f': "only_counts ?f" using f only_counts_track_done only_counts_comp by blast
  have st: "same_store c (?f c2)" using same_store_trans [OF c2(1) only_counts_same_store [OF f']] .
  have mem: "members (e_peers env self) (?f c2) = members (e_peers env self) c"
    using st by (simp add: members_def same_store_def)
  let ?env = "env\<lparr>e_link := \<lambda>_. Up\<rparr>"
  let ?c = "trackGet b localityRemote (?f c2)"
  have "p \<in> set (members (e_peers env self) c)"
    using hd_in_set [OF ranking_not_Nil] unfolding p by fastforce
  with ps c(2) have pp: "p \<in> set (e_peers ?env self)" by (simp add: members_def)
  have "gob_laws ?env" using gob by (simp add: gob_laws_def cong: option.case_cong)
  moreover have "coherent (e_hash ?env) (e_peers ?env self) ?c"
    using only_counts_coherent [OF f'] c2(2) by (simp add: coherent_trackGet)
  moreover have "p = hd (ranking (e_hash ?env) (routingKey b k) (members (e_peers ?env self) ?c))"
    using p mem by (simp add: members_trackGet)
  ultimately have "\<exists>cl2. getRemote ?env self b k ?c cl' = (remote_answer (getLocal b k d), cl2)"
    using pp cl'p ps
    by (intro getRemote_answer [where cl = cl' and self = self and p = p and env = ?env]) simp_all
  moreover have "getLocal b k (?f c2) = Ret (Inl ERR_NOT_FOUND) (?f c2)"
    using st miss by (intro getLocal_miss) (simp add: same_store_def)
  ultimately show ?thesis using cl's getLocal_miss [OF d(2)] by (auto simp: Get_def)
qed

text \<open>
  A value whose type the application did not register with \<open>gob\<close> cannot be replicated:
  \<open>Set\<close> reports a quorum failure with at most one success as soon as a key has two replicas,
  although the calling node, if it is a replica, keeps the value.
\<close>

theorem Set_unregistered_value:
  assumes gob: "gob_laws env" and sched: "schedules env" and run: "running env self cl c"
    and can: "stores_ok env self c b k cl" and v: "\<not> gob_registered v"
    and two: "2 \<le> length (replica_ids env self c b k)"
  shows "\<exists>e cl'. Set env self b k v ttl cl = Ret (Inl e) cl'
    \<and> (self \<in> set (replica_ids env self c b k) \<longrightarrow> lruBuckets c b \<noteq> None \<longrightarrow> holds cl' self b k v)"
proof -
  let ?ids = "replica_ids env self c b k"
  from run have c: "cl self = Some c" by (simp add: running_def)
  from Set_enters [where cl = cl and self = self, OF c] obtain c2 loc where c2: "same_store c c2"
    and S: "Set env self b k v ttl cl
      = finish self b loc (setReplicated env self b k v ttl c2 (cl(self \<mapsto> c2)))" by blast
  let ?cl = "cl(self \<mapsto> c2)" and ?op = "set_on env self b k v ttl"
  have ids2: "replica_ids env self c2 b k = ?ids" using replica_ids_same_store [OF c2] by simp
  have "can_store c b k" using can c by (simp add: stores_ok_def)
  then have "\<forall>n \<in> set ?ids. \<exists>r cl'. ?op n ?cl = Ret r cl'"
    using can_store_same_store [OF c2] by (intro ballI set_on_returns) auto
  with setReplicated_outcome [OF sched, of self c2 b k v ttl ?cl] running_ids(1,2) [OF run, of b k]
  obtain r f after where rep: "setReplicated env self b k v ttl c2 ?cl
      = Ret r (update self f (\<lambda>n. if n \<in> set ?ids then after n else ?cl n))"
    and q: "r = Inr () \<longleftrightarrow> majority (length ?ids) \<le> card (acks ?op ?ids ?cl)"
    unfolding ids2 by blast
  have "?op n ?cl \<noteq> Ret (Inr ()) cl2" if "n \<noteq> self" for n cl2
    using that v by (simp add: set_on_def setRemoteToNode_deliver [OF gob])
  then have "acks ?op ?ids ?cl \<subseteq> {self}" by (auto simp: acks_def)
  then have "card (acks ?op ?ids ?cl) \<le> 1" using card_mono [of "{self}"] by fastforce
  with q two have "r \<noteq> Inr ()" by (auto simp: majority_def)
  then obtain e where e: "r = Inl e" by (cases r) auto
  from Set_result [OF gob sched run can, of v ttl] obtain r' cl' acked where
    R: "Set env self b k v ttl cl = Ret r' cl'" "\<forall>n \<in> acked. holds cl' n b k v"
      "\<forall>n \<in> set ?ids. (n \<noteq> self \<longrightarrow> gob_registered v) \<longrightarrow> ready env self b cl n \<longrightarrow> n \<in> acked" by blast
  have "r' = Inl e" using R(1) S rep e by simp
  moreover have "holds cl' self b k v" if "self \<in> set ?ids" "lruBuckets c b \<noteq> None"
    using R(2,3) that c by (auto simp: ready_def)
  ultimately show ?thesis using R(1) by blast
qed

section \<open>Witnesses\<close>

text \<open>
  With one replica per key the primary of \<open>s/k\<close> among \<open>a, b, c\<close> is \<open>c\<close>; with two more nodes
  and three replicas, the fourth node \<open>a\<close> is not a replica.
\<close>

lemma demo_ranking:
  "ranking demo_hash (routingKey ''s'' ''k'') [''b'', ''c'', ''a''] = [''c'', ''b'', ''a'']"
  "ranking demo_hash (routingKey ''s'' ''k'') [''b'', ''c'', ''d'', ''a''] = [''d'', ''c'', ''b'', ''a'']"
  by (simp_all add: ranking_def scoreRegular_def demo_hash_def bytes_of_def routingKey_def
      itoa.simps digit_char_def)

lemma demo_coherent: "coherent h ps (demo_node r n)"
  by (simp add: coherent_def demo_node_def initCache_def)

lemma demo_members:
  "members (demo_peers ''a'') (demo_node r ''a'') = [''b'', ''c'', ''a'']"
  "members (demo_peers ''c'') (demo_node r ''c'') = [''a'', ''b'', ''c'']"
  by (simp_all add: members_def demo_peers_def demo_node_def initCache_def)

lemma demo_refines: "\<exists>A. refines (demo_node r n) A"
proof -
  have "demo_node r n = state_after [OpCreate ''s'' 0 2] (initCache n r)"
    by (simp add: demo_node_def state_after_def local_step_def returned_def as_value_def
        CreateBucket_def initCache_def)
  moreover have "guarded admissible a_exec [OpCreate ''s'' 0 2] Map.empty"
    by (simp add: prefix_free_def)
  ultimately show ?thesis using refines_state_after by metis
qed

text \<open>A cluster of one node.\<close>

abbreviation solo_env :: env where
  "solo_env \<equiv> toy_env demo_hash (\<lambda>_. []) (\<lambda>_. Up) rev"

lemma solo_running: "running solo_env ''a'' [''a'' \<mapsto> demo_node 2 ''a''] (demo_node 2 ''a'')"
  by (simp add: running_def demo_node_def initCache_def)

lemma solo_ids: "replica_ids solo_env ''a'' (demo_node 2 ''a'') b k = [''a'']"
  by (simp add: replica_ids_def getReplicaNodes_ranking members_def demo_node_def initCache_def
      ranking_def)

lemma solo_Delete:
  "\<exists>cl'. CacheDelete solo_env ''a'' ''s'' ''k'' [''a'' \<mapsto> demo_node 2 ''a''] = Ret (Inr ()) cl'"
proof -
  let ?d = "demo_node 2 ''a''"
  have nf: "deleteLocal ''s'' ''k'' ?d = Ret (Inl ERR_NOT_FOUND) ?d"
    using demo_absent [of "''a''"] by (simp add: deleteLocal_def Delete_def demo_node_def find_node_Some)
  then have "\<exists>r c'. deleteLocal ''s'' ''k'' ?d = Ret r c'" by blast
  have sched: "schedules solo_env" by (simp add: schedules_def)
  from CacheDelete_outcome [OF sched solo_running, of "''s''" "''k''"] nf obtain c2 r f after where
    c2: "same_store ?d c2"
    and out: "CacheDelete solo_env ''a'' ''s'' ''k'' [''a'' \<mapsto> ?d]
      = Ret r (update ''a'' f (\<lambda>n. if n \<in> {''a''} then after n else ([''a'' \<mapsto> ?d](''a'' \<mapsto> c2)) n))"
    and q: "r = Inr () \<longleftrightarrow> majority (length [''a'']) \<le> card (acks (delete_on solo_env ''a'' ''s'' ''k'') [''a'']
      ([''a'' \<mapsto> ?d](''a'' \<mapsto> c2)))"
    by (auto simp: solo_ids)
  from deleteLocal_same_store [OF c2 nf] obtain d' where "deleteLocal ''s'' ''k'' c2 = Ret (Inl ERR_NOT_FOUND) d'"
    by blast
  then have "acks (delete_on solo_env ''a'' ''s'' ''k'') [''a''] ([''a'' \<mapsto> ?d](''a'' \<mapsto> c2)) = {''a''}"
    by (auto simp: acks_def delete_on_def at_self_def)
  with q out show ?thesis by (simp add: majority_def)
qed

theorem Delete_success_on_quorum_witness:
  "\<exists>cl'. CacheDelete solo_env ''a'' ''s'' ''k'' [''a'' \<mapsto> demo_node 2 ''a''] = Ret (Inr ()) cl'
     \<and> 1 \<le> card {n \<in> {''a''}. absent cl' n ''s'' ''k''}"
proof -
  obtain A where A: "refines (demo_node 2 ''a'') A" using demo_refines by blast
  obtain cl' where ok: "CacheDelete solo_env ''a'' ''s'' ''k'' [''a'' \<mapsto> demo_node 2 ''a''] = Ret (Inr ()) cl'"
    using solo_Delete by blast
  have sched: "schedules solo_env" by (simp add: schedules_def)
  from Delete_success_on_quorum [OF toy_gob_laws sched solo_running A ok] ok
  show ?thesis by (simp add: solo_ids majority_def)
qed

theorem Get_local_hit_witness:
  "\<exists>c2. Get (demo_env (\<lambda>_. WriteFails) rev) ''a'' ''s'' ''k''
       [''a'' \<mapsto> state_after [OpSet 1 ''s'' ''k'' (AInt 7) 0] (demo_node 1 ''a'')]
     = Ret (Inr (AInt 7)) [''a'' \<mapsto> c2]"
proof -
  obtain c' c2 where "setLocal 1 ''s'' ''k'' (AInt 7) 0 (demo_node 1 ''a'') = Ret (Inr ()) c'"
    "getLocal ''s'' ''k'' c' = Ret (Inr (AInt 7)) c2"
    using setLocal_room [of "demo_node 1 ''a''" "''s''" _ "''k''" 1 "AInt 7" 0]
    by (auto simp: demo_node_def initCache_def)
  then show ?thesis
    using Get_local_hit [of "[''a'' \<mapsto> c']" "''a''" c' "''s''" "''k''" "AInt 7" c2
        "demo_env (\<lambda>_. WriteFails) rev"]
    by (auto simp: state_after_def local_step_def returned_def as_value_def)
qed

theorem Get_asks_primary_only_witness:
  "\<exists>cl'. Get (demo_env (\<lambda>_. Up) rev) ''a'' ''s'' ''k'' (demo_cluster 1)
     = Ret (Inl (ErrRemote ERR_NOT_FOUND)) cl'"
  using Get_asks_primary_only [OF toy_gob_laws demo_running, of 1 "\<lambda>_. Up" rev "''s''" "''k''" "''c''"
      "demo_node 1 ''c''"]
  by (simp add: demo_coherent demo_members demo_ranking demo_cluster_def getLocal_miss)
    (simp add: demo_node_def initCache_def getLocal_miss)

theorem Get_missing_on_primary_witness:
  "\<exists>cl'. Get (demo_env (\<lambda>_. Up) rev) ''c'' ''s'' ''k'' (demo_cluster 1) = Ret (Inl ErrSend) cl'"
proof -
  have "running (demo_env (\<lambda>_. Up) rev) ''c'' (demo_cluster 1) (demo_node 1 ''c'')"
    by (simp add: running_def demo_cluster_def demo_node_def demo_peers_def initCache_def)
  moreover have "ranking demo_hash (routingKey ''s'' ''k'') [''a'', ''b'', ''c''] = [''c'', ''b'', ''a'']"
    by (simp add: ranking_def scoreRegular_def demo_hash_def bytes_of_def routingKey_def
        itoa.simps digit_char_def)
  ultimately show ?thesis
    using Get_missing_on_primary [OF toy_gob_laws, of demo_hash demo_peers "\<lambda>_. Up" rev "''c''"
        "demo_cluster 1" "demo_node 1 ''c''" "''s''" "''k''"]
    by (simp add: demo_coherent demo_members) (simp add: demo_node_def initCache_def)
qed

theorem Set_unregistered_value_witness:
  "\<exists>e cl'. Set (demo_env (\<lambda>_. Up) rev) ''a'' ''s'' ''k'' (AUser False 1) 0 (demo_cluster 3) = Ret (Inl e) cl'
     \<and> holds cl' ''a'' ''s'' ''k'' (AUser False 1)"
  using Set_unregistered_value [OF toy_gob_laws _ demo_running demo_stores_ok, of "\<lambda>_. Up" rev 3
      "AUser False 1" "''k''" 0]
  by (simp add: demo_ids) (simp add: demo_node_def)

text \<open>Four nodes, three replicas, the request to the primary \<open>d\<close> is lost.\<close>

definition four_nodes :: cluster where
  "four_nodes n = (if n \<in> {''a'', ''b'', ''c'', ''d''} then Some (demo_node 3 n) else None)"

definition four_peers :: "string \<Rightarrow> string list" where
  "four_peers n = filter (\<lambda>m. m \<noteq> n) [''b'', ''c'', ''d'', ''a'']"

abbreviation four_env :: env where
  "four_env \<equiv> toy_env demo_hash four_peers (\<lambda>n. if n = ''d'' then RequestLost else Up) rev"

lemma four_running: "running four_env ''a'' four_nodes (demo_node 3 ''a'')"
  by (simp add: running_def four_nodes_def four_peers_def demo_node_def initCache_def)

lemma four_members: "members (four_peers ''a'') (demo_node 3 ''a'') = [''b'', ''c'', ''d'', ''a'']"
  by (simp add: members_def four_peers_def demo_node_def initCache_def)

lemma four_ids: "replica_ids four_env ''a'' (demo_node 3 ''a'') ''s'' ''k'' = [''d'', ''c'', ''b'']"
  by (simp add: replica_ids_def getReplicaNodes_ranking four_members demo_ranking)
    (simp add: demo_node_def initCache_def)

lemma four_Set: "\<exists>cl'. Set four_env ''a'' ''s'' ''k'' (AInt 7) 0 four_nodes = Ret (Inr ()) cl'"
proof -
  have ok: "stores_ok four_env ''a'' (demo_node 3 ''a'') ''s'' ''k'' four_nodes"
    by (auto simp: stores_ok_def four_nodes_def can_store_def demo_node_def split: if_splits)
  have sched: "schedules four_env" by (simp add: schedules_def)
  from Set_result [OF toy_gob_laws sched four_running ok, of "AInt 7" 0] obtain r cl' acked where
    S: "Set four_env ''a'' ''s'' ''k'' (AInt 7) 0 four_nodes = Ret r cl'"
      "acked \<subseteq> set [''d'', ''c'', ''b'']" "r = Inr () \<longleftrightarrow> majority (length [''d'', ''c'', ''b'']) \<le> card acked"
      "\<forall>n \<in> set [''d'', ''c'', ''b'']. (n \<noteq> ''a'' \<longrightarrow> gob_registered (AInt 7)) \<longrightarrow>
        ready four_env ''a'' ''s'' four_nodes n \<longrightarrow> n \<in> acked"
    unfolding four_ids by blast
  have "ready four_env ''a'' ''s'' four_nodes ''b''" "ready four_env ''a'' ''s'' four_nodes ''c''"
    by (simp_all add: ready_def four_nodes_def four_peers_def demo_node_def)
  with S(4) have sub: "{''b'', ''c''} \<subseteq> acked" by simp
  have "finite acked" using finite_subset [OF S(2)] by simp
  from card_mono [OF this sub] have "card {''b'', ''c''} \<le> card acked" .
  with S(1,3) show ?thesis by (simp add: majority_def)
qed

theorem Get_misses_quorum_write_witness:
  "\<exists>cl' cl2. Set four_env ''a'' ''s'' ''k'' (AInt 7) 0 four_nodes = Ret (Inr ()) cl'
     \<and> Get (four_env\<lparr>e_link := \<lambda>_. Up\<rparr>) ''a'' ''s'' ''k'' cl' = Ret (Inl (ErrRemote ERR_NOT_FOUND)) cl2"
proof -
  obtain cl' where ok: "Set four_env ''a'' ''s'' ''k'' (AInt 7) 0 four_nodes = Ret (Inr ()) cl'"
    using four_Set by blast
  have sched: "schedules four_env" by (simp add: schedules_def)
  have kv: "keyVal (demo_node 3 n) k = None" for n k by (simp add: demo_node_def initCache_def)
  show ?thesis
    using Get_misses_quorum_write [OF toy_gob_laws sched four_running _ _ _ _ _ _ _ ok,
        of "''d''" "demo_node 3 ''d''"] ok
    by (simp add: demo_coherent four_members demo_ranking four_ids kv) (simp add: four_nodes_def)
qed

end
