(* ===== verification/Read_Write.thy ===== *)
theory Read_Write
  imports Consistency
begin

text \<open>
  What a read at one node of the cluster returns after a write at another (\<open>Get\<close> and \<open>Set\<close> of
  \<open>internal/mycel/cache.go\<close>).
\<close>

text \<open>A write leaves a node outside the replica set as it is, up to counters and routing caches.\<close>

lemma Set_outside:
  assumes sched: "schedules env" and run: "running env self cl c" and stores: "stores_ok env self c b k cl"
    and out: "n \<notin> set (replica_ids env self c b k)" and d: "cl n = Some d"
    and ret: "Set env self b k v ttl cl = Ret r cl'"
  shows "\<exists>d'. cl' n = Some d' \<and> same_store d d'
    \<and> (coherent (e_hash env) (e_peers env n) d \<longrightarrow> coherent (e_hash env) (e_peers env n) d')"
proof -
  let ?ids = "replica_ids env self c b k" and ?op = "set_on env self b k v ttl"
  from run have c: "cl self = Some c" by (simp add: running_def)
  obtain loc c1 where l: "locality env self b k c = (loc, c1)" by fastforce
  define c2 where "c2 = trackSet b loc c1"
  have c2: "same_store c c2"
    "coherent (e_hash env) (e_peers env self) c \<longrightarrow> coherent (e_hash env) (e_peers env self) c2"
    using same_store_locality [of c env self b k] coherent_locality [of env self c b k] l
    by (auto simp: c2_def trackSet_def coherent_def members_def)
  let ?cl = "cl(self \<mapsto> c2)"
  have ids2: "replica_ids env self c2 b k = ?ids" using replica_ids_same_store [OF c2(1)] by simp
  have "can_store c b k" using stores c unfolding stores_ok_def by blast
  then have "\<exists>r cl'. ?op n ?cl = Ret r cl'" for n
    using can_store_same_store [OF c2(1)] by (intro set_on_returns) auto
  with setReplicated_outcome [OF sched, of self c2 b k v ttl ?cl] running_ids(1,2) [OF run, of b k]
  obtain r' f after where
    rep: "setReplicated env self b k v ttl c2 ?cl
      = Ret r' (update self f (\<lambda>n. if n \<in> set ?ids then after n else ?cl n))"
    and f: "only_counts f" unfolding ids2 by blast
  let ?f = "\<lambda>c. track_done b loc r' (f c)"
  have "Set env self b k v ttl cl = finish self b loc (setReplicated env self b k v ttl c2 ?cl)"
    using c l by (simp add: Set_def c2_def [symmetric])
  then have cl': "cl' = update self ?f (\<lambda>n. if n \<in> set ?ids then after n else ?cl n)"
    using ret by (simp add: rep update_def option.map_comp comp_def)
  have f': "only_counts ?f" using f only_counts_track_done only_counts_comp by blast
  show ?thesis
  proof (cases "n = self")
    case True
    then have "d = c" "cl' n = Some (?f c2)" using c d out by (simp_all add: cl' update_def)
    with True show ?thesis
      using same_store_trans [OF c2(1) only_counts_same_store [OF f']] c2(2) only_counts_coherent [OF f']
      by simp
  next
    case False
    with out d have "cl' n = Some d" by (simp add: cl' update_def)
    then show ?thesis by simp
  qed
qed

text \<open>Nodes that see the same members agree on the primary.\<close>

lemma primary_agree:
  assumes "well_scored h key (members ps c)" and "distinct (members qs d)"
    and "set (members qs d) = set (members ps c)"
  shows "hd (ranking h key (members qs d)) = hd (ranking h key (members ps c))"
  using ranking_unique [OF assms] by simp

lemma primary_replica:
  assumes "running env self cl c"
  shows "hd (ranking (e_hash env) (routingKey b k) (members (e_peers env self) c)) \<in> set (replica_ids env self c b k)"
  using assms by (simp add: replica_ids_def getReplicaNodes_ranking hd_in_take running_def)

text \<open>
  C6: Reads see writes. Let the writer and the running replicas be able to store the key
  (\<open>stores_ok\<close>: no such bucket, or the key, or room, or an intact node with a positive capacity), let gob encode
  the value, and let the primary of the key be ready for the writer. A \<open>Set\<close> then returns, and
  whatever it reports a \<open>Get\<close> at the same or another node returns the written value, if the
  reader is a replica that was ready, or a node that has no copy of the key and whose cached
  routing is right; it sees the same members and reaches the primary. The state of all other
  links does not matter. (That the primary is needed is \<open>Get_misses_quorum_write\<close>.)
\<close>

theorem Get_returns_written:
  assumes gob: "gob_laws env" and sched: "schedules env" and run: "running env self cl c"
    and stores: "stores_ok env self c b k cl" and v: "gob_registered v"
    and p: "p = hd (ranking (e_hash env) (routingKey b k) (members (e_peers env self) c))"
    and ready: "ready env self b cl p"
    and reader: "running env m cl d" "set (members (e_peers env m) d) = set (members (e_peers env self) c)"
    and scored: "well_scored (e_hash env) (routingKey b k) (members (e_peers env self) c)"
    and view: "if m \<in> set (replica_ids env self c b k) then ready env self b cl m
       else coherent (e_hash env) (e_peers env m) d \<and> keyVal d (b @ k) = None"
    and link: "lnk p = Up"
  shows "\<exists>r cl' cl2. Set env self b k v ttl cl = Ret r cl'
    \<and> Get (env\<lparr>e_link := lnk\<rparr>) m b k cl' = Ret (Inr v) cl2"
proof -
  let ?ids = "replica_ids env self c b k" and ?env = "env\<lparr>e_link := lnk\<rparr>"
  have pids: "p \<in> set ?ids" unfolding p by (rule primary_replica [OF run])
  from Set_result [OF gob sched run stores, of v ttl] v obtain r cl' where
    S: "Set env self b k v ttl cl = Ret r cl'"
    and held: "\<forall>n \<in> set ?ids. ready env self b cl n \<longrightarrow> holds cl' n b k v" by blast
  show ?thesis
  proof (cases "m \<in> set ?ids")
    case True
    with held view obtain e e' where "cl' m = Some e" "getLocal b k e = Ret (Inr v) e'"
      unfolding holds_def by auto
    then show ?thesis using Get_local_hit [of cl' m e b k v e' ?env] S by blast
  next
    case False
    with pids have ne: "p \<noteq> m" by blast
    from view False have coh: "coherent (e_hash env) (e_peers env m) d" and miss: "keyVal d (b @ k) = None"
      by simp_all
    have m: "cl m = Some d" "nodeId d = m" "distinct (members (e_peers env m) d)"
      using reader(1) by (auto simp: running_def members_def)
    obtain d' where d': "cl' m = Some d'" "same_store d d'" "coherent (e_hash env) (e_peers env m) d'"
      using Set_outside [OF sched run stores False m(1) S] coh by blast
    have "running ?env m cl' d'" using reader(1) d' by (simp add: running_def same_store_def)
    moreover have "coherent (e_hash ?env) (e_peers ?env m) d'" using d'(3) by simp
    moreover have "keyVal d' (b @ k) = None" using d'(2) miss by (simp add: same_store_def)
    moreover have "p = hd (ranking (e_hash ?env) (routingKey b k) (members (e_peers ?env m) d'))"
      using primary_agree [OF scored m(3) reader(2)] d'(2) by (simp add: p members_def same_store_def)
    moreover obtain e e' where e: "cl' p = Some e" "getLocal b k e = Ret (Inr v) e'"
      using held pids ready unfolding holds_def by auto
    moreover have "gob_laws ?env" using gob by (simp add: gob_laws_def cong: option.case_cong)
    moreover have "e_link ?env p = Up" using link by simp
    ultimately have "\<exists>cl2. Get ?env m b k cl' = Ret (remote_answer (getLocal b k e)) cl2"
      using ne by (intro Get_asks_primary_only [where cl = cl' and self = m and p = p and c = d'])
    then show ?thesis using S e(2) v by auto
  qed
qed

text \<open>The request to one replica is lost; the reader is the one node that is not a replica.\<close>

theorem Get_returns_written_witness:
  "\<exists>r cl' cl2. Set (toy_env demo_hash four_peers (\<lambda>n. if n = ''c'' then RequestLost else Up) rev) ''b'' ''s'' ''k'' (AInt 7) 0
      four_nodes = Ret r cl'
    \<and> Get (toy_env demo_hash four_peers (\<lambda>n. if n = ''d'' then Up else WriteFails) rev) ''a'' ''s'' ''k'' cl' = Ret (Inr (AInt 7)) cl2"
proof -
  let ?env = "toy_env demo_hash four_peers (\<lambda>n. if n = ''c'' then RequestLost else Up) rev"
  have mem: "members (four_peers ''b'') (demo_node 3 ''b'') = [''c'', ''d'', ''a'', ''b'']"
    by (simp add: members_def four_peers_def demo_node_def initCache_def)
  have rank: "ranking demo_hash (routingKey ''s'' ''k'') [''c'', ''d'', ''a'', ''b''] = [''d'', ''c'', ''b'', ''a'']"
    and scored: "well_scored demo_hash (routingKey ''s'' ''k'') [''c'', ''d'', ''a'', ''b'']"
    by (simp_all add: ranking_def well_scored_def scoreRegular_def demo_hash_def bytes_of_def routingKey_def
        itoa.simps digit_char_def)
  have ids: "replica_ids ?env ''b'' (demo_node 3 ''b'') ''s'' ''k'' = [''d'', ''c'', ''b'']"
    by (simp add: replica_ids_def getReplicaNodes_ranking mem rank) (simp add: demo_node_def initCache_def)
  have run: "running ?env ''b'' four_nodes (demo_node 3 ''b'')" "running ?env ''a'' four_nodes (demo_node 3 ''a'')"
    by (simp_all add: running_def four_nodes_def four_peers_def demo_node_def initCache_def)
  have stores: "stores_ok ?env ''b'' (demo_node 3 ''b'') ''s'' ''k'' four_nodes"
    by (auto simp: stores_ok_def four_nodes_def can_store_def demo_node_def split: if_splits)
  have ready: "ready ?env ''b'' ''s'' four_nodes ''d''"
    by (simp add: ready_def four_nodes_def four_peers_def demo_node_def)
  have sched: "schedules ?env" by (simp add: schedules_def)
  have kv: "keyVal (demo_node 3 ''a'') k = None" for k by (simp add: demo_node_def initCache_def)
  have p: "''d'' = hd (ranking (e_hash ?env) (routingKey ''s'' ''k'') (members (e_peers ?env ''b'') (demo_node 3 ''b'')))"
    by (simp add: mem rank)
  have same: "set (members (e_peers ?env ''a'') (demo_node 3 ''a'')) = set (members (e_peers ?env ''b'') (demo_node 3 ''b''))"
    by (auto simp: mem four_members)
  have view: "if ''a'' \<in> set (replica_ids ?env ''b'' (demo_node 3 ''b'') ''s'' ''k'') then ready ?env ''b'' ''s'' four_nodes ''a''
      else coherent (e_hash ?env) (e_peers ?env ''a'') (demo_node 3 ''a'') \<and> keyVal (demo_node 3 ''a'') (''s'' @ ''k'') = None"
    by (simp add: ids demo_coherent kv)
  have well: "well_scored (e_hash ?env) (routingKey ''s'' ''k'') (members (e_peers ?env ''b'') (demo_node 3 ''b''))"
    by (simp add: mem scored)
  from Get_returns_written [OF toy_gob_laws sched run(1) stores _ p ready run(2) same well view,
      of "AInt 7" "\<lambda>n. if n = ''d'' then Up else WriteFails" 0]
  show ?thesis by (simp add: toy_env_def)
qed

text \<open>
  The writes to the primary only reach it from any other node, and fail on the primary itself: a node
  has no connection to itself.
\<close>

lemma primary_write:
  assumes gob: "gob_laws env" and run: "running env self cl c" and v: "gob_registered v"
    and coh: "coherent (e_hash env) (e_peers env self) c"
    and p: "p = hd (ranking (e_hash env) (routingKey b k) (members (e_peers env self) c))"
  shows "\<exists>c'. setRemote env self b k v ttl c cl = (let d = deliver env self p
        (\<lambda>c. setLocal (e_clock env (nodeId c)) b k v ttl c) ((cl(self \<mapsto> c')) p) in (fst d, cl(self \<mapsto> c', p := snd d)))
    \<and> (p = self \<longrightarrow> fst (setRemote env self b k v ttl c cl) = Inl ErrSend)"
proof -
  from getPrimaryNode_coherent [OF coh, of b k] p obtain c' where
    prim: "getPrimaryNode (e_hash env) (e_peers env self) b k c = (p, c')" by auto
  have "self \<notin> set (e_peers env self)" using run by (simp add: running_def)
  with prim v show ?thesis
    by (intro exI [of _ c']) (auto simp: setRemote_def setRemoteToNode_deliver [OF gob] Let_def deliver_def)
qed

lemma primary_delete_self:
  assumes gob: "gob_laws env" and run: "running env self cl c"
    and coh: "coherent (e_hash env) (e_peers env self) c"
    and p: "self = hd (ranking (e_hash env) (routingKey b k) (members (e_peers env self) c))"
  shows "fst (deleteRemote env self b k c cl) = Inl ErrSend \<and> fst (setTtlRemote env self b k ttl c cl) = Inl ErrSend"
proof -
  from getPrimaryNode_coherent [OF coh, of b k] p obtain c' where
    prim: "getPrimaryNode (e_hash env) (e_peers env self) b k c = (self, c')" by auto
  have "self \<notin> set (e_peers env self)" using run by (simp add: running_def)
  with prim show ?thesis
    by (auto simp: deleteRemote_def deleteRemoteFromNode_deliver [OF gob] setTtlRemote_def
        setTtlRemoteToNode_deliver [OF gob] Let_def deliver_def)
qed

end
