(* ===== verification/Maintenance.thy ===== *)
theory Maintenance
  imports Consistency
begin

text \<open>
  The background workers of the cache: the expiry worker (\<open>internal/mycel/task.go\<close>) and the
  rebalancer (\<open>internal/mycel/rebalancer.go\<close>), each one cycle on the cluster: what a cycle of
  the rebalancer leaves at the node that runs it and at the other replicas, what the expiry
  worker may delete, and what both do with a node that an eviction left in the list.

  The iteration order of Go's maps is an argument (\<open>enum\<close>). A cycle reads its own clock once.
  The context is an argument of the rebalancer: \<open>left\<close> is the number of its checks that find the
  context alive. The jitter before a cycle and the read locks are not modelled.
\<close>

section \<open>The expiry worker\<close>

definition expired_keys :: "instant \<Rightarrow> cache \<Rightarrow> lruBucket \<Rightarrow> string list option" where
  "expired_keys now c b =
     map_option (\<lambda>ns. map (\<lambda>n. nkey (heapOf c n)) (filter (\<lambda>n. expired now (nexpiresAt (heapOf c n))) ns))
       (walk (heapOf c) (bHead b))"

text \<open>The first loop, over the buckets; \<open>None\<close> if a walk does not end.\<close>

fun collect_expired ::
    "instant \<Rightarrow> cache \<Rightarrow> string list \<Rightarrow> (string \<times> string list) list option" where
  "collect_expired now c [] = Some []"
| "collect_expired now c (name # names) =
     (case lruBuckets c name of
        None \<Rightarrow> collect_expired now c names
      | Some b \<Rightarrow> (case expired_keys now c b of
            None \<Rightarrow> None
          | Some keys \<Rightarrow> map_option ((#) (name, keys)) (collect_expired now c names)))"

text \<open>The second loop: an error of \<open>Delete\<close> is logged and the loop goes on.\<close>

fun evict_keys :: "env \<Rightarrow> string \<Rightarrow> string \<Rightarrow> string list \<Rightarrow> cluster \<Rightarrow> (unit, cluster) outcome" where
  "evict_keys env self bucket [] cl = Ret (Inr ()) cl"
| "evict_keys env self bucket (key # keys) cl =
     (case CacheDelete env self bucket key (update self (recordTtlEviction bucket) cl) of
        Ret _ cl' \<Rightarrow> evict_keys env self bucket keys cl' | Panic \<Rightarrow> Panic | Hang \<Rightarrow> Hang)"

fun evict_all ::
    "env \<Rightarrow> string \<Rightarrow> (string \<times> string list) list \<Rightarrow> cluster \<Rightarrow> (unit, cluster) outcome" where
  "evict_all env self [] cl = Ret (Inr ()) cl"
| "evict_all env self ((bucket, keys) # bs) cl =
     and_then (evict_keys env self bucket keys cl) (\<lambda>_. evict_all env self bs)"

definition ttlEvictionWorkerTask ::
    "env \<Rightarrow> (string set \<Rightarrow> string list) \<Rightarrow> string \<Rightarrow> cluster \<Rightarrow> (unit, cluster) outcome" where
  "ttlEvictionWorkerTask env enum self cl =
     (case cl self of
        None \<Rightarrow> Panic
      | Some c \<Rightarrow>
        (case collect_expired (e_clock env self) c (enum (dom (lruBuckets c))) of
           None \<Rightarrow> Hang
         | Some bs \<Rightarrow> evict_all env self bs cl))"

section \<open>The rebalancer\<close>

record keySnapshot =
  ksKey :: string
  ksData :: goany
  ksExpiresAt :: gotime

definition snapshot_keys :: "cache \<Rightarrow> lruBucket \<Rightarrow> keySnapshot list option" where
  "snapshot_keys c b =
     map_option (map (\<lambda>n. \<lparr>ksKey = nkey (heapOf c n), ksData = ndata (heapOf c n),
         ksExpiresAt = nexpiresAt (heapOf c n)\<rparr>))
       (walk (heapOf c) (bHead b))"

record rebalance_stats =
  keysProcessed :: nat
  keysDeleted :: nat
  replicationAttempts :: nat
  replicationErrors :: nat

text \<open>The replicas of a key and the bound \<open>limit\<close>, as the worker computes them.\<close>

definition topReplicas :: "env \<Rightarrow> string \<Rightarrow> cache \<Rightarrow> string \<Rightarrow> string \<Rightarrow> string list" where
  "topReplicas env self c bucket key =
     (let reps = getReplicas (e_hash env) (e_peers env self) c (routingKey bucket key);
          limit = (if length reps < replicas c then length reps else replicas c)
      in map rnId (take limit reps))"

fun send_replicas ::
    "env \<Rightarrow> string \<Rightarrow> string \<Rightarrow> keySnapshot \<Rightarrow> duration \<Rightarrow> string list \<Rightarrow> rebalance_stats \<Rightarrow> cluster
      \<Rightarrow> rebalance_stats \<times> cluster" where
  "send_replicas env self bucket ks ttl [] st cl = (st, cl)"
| "send_replicas env self bucket ks ttl (rep # reps) st cl =
     (if rep = self then send_replicas env self bucket ks ttl reps st cl
      else case setRemoteToNode env self bucket (ksKey ks) (ksData ks) ttl rep cl of
        (r, cl') \<Rightarrow> send_replicas env self bucket ks ttl reps
          (st\<lparr>replicationAttempts := Suc (replicationAttempts st),
              replicationErrors := (if isl r then Suc (replicationErrors st) else replicationErrors st)\<rparr>) cl')"

text \<open>
  One key: the body of the inner loop. The remaining time to live is sent and added to the
  receiver's clock; the clock of a node does not advance in between, so a request takes no time.
\<close>

definition rebalance_key ::
    "env \<Rightarrow> string \<Rightarrow> string \<Rightarrow> keySnapshot \<Rightarrow> rebalance_stats \<Rightarrow> cluster \<Rightarrow> (rebalance_stats, cluster) outcome"
where
  "rebalance_key env self bucket ks st cl =
     (case cl self of
        None \<Rightarrow> Panic
      | Some c \<Rightarrow>
          let top = topReplicas env self c bucket (ksKey ks);
              st1 = st\<lparr>keysProcessed := Suc (keysProcessed st)\<rparr>
          in if length top = 0 then Ret (Inr st) cl
          else if self \<notin> set top then
            (case at_self self (deleteLocal bucket (ksKey ks)) cl of
               Ret _ cl' \<Rightarrow> Ret (Inr (st1\<lparr>keysDeleted := Suc (keysDeleted st1)\<rparr>)) cl'
             | Panic \<Rightarrow> Panic | Hang \<Rightarrow> Hang)
          else (case ksExpiresAt ks of
               None \<Rightarrow> (case send_replicas env self bucket ks 0 top st1 cl of (st2, cl') \<Rightarrow> Ret (Inr st2) cl')
             | Some t \<Rightarrow>
                 if t - e_clock env self \<le> 0 then Ret (Inr st1) cl
                 else (case send_replicas env self bucket ks (t - e_clock env self) top st1 cl of
                   (st2, cl') \<Rightarrow> Ret (Inr st2) cl')))"

text \<open>
  The loops over keys and buckets. The result is \<open>None\<close> when a check of the context ended the
  cycle, else the number of checks left and the statistics.
\<close>

fun rebalance_keys ::
    "env \<Rightarrow> string \<Rightarrow> string \<Rightarrow> keySnapshot list \<Rightarrow> nat \<Rightarrow> rebalance_stats \<Rightarrow> cluster
      \<Rightarrow> ((nat \<times> rebalance_stats) option, cluster) outcome" where
  "rebalance_keys env self bucket [] left st cl = Ret (Inr (Some (left, st))) cl"
| "rebalance_keys env self bucket (ks # kss) left st cl =
     (case left of
        0 \<Rightarrow> Ret (Inr None) cl
      | Suc left' \<Rightarrow> and_then (rebalance_key env self bucket ks st cl)
          (\<lambda>st'. rebalance_keys env self bucket kss left' st'))"

fun rebalance_buckets ::
    "env \<Rightarrow> string \<Rightarrow> string list \<Rightarrow> nat \<Rightarrow> rebalance_stats \<Rightarrow> cluster
      \<Rightarrow> ((nat \<times> rebalance_stats) option, cluster) outcome" where
  "rebalance_buckets env self [] left st cl = Ret (Inr (Some (left, st))) cl"
| "rebalance_buckets env self (name # names) left st cl =
     (case left of
        0 \<Rightarrow> Ret (Inr None) cl
      | Suc left' \<Rightarrow>
        (case cl self of
           None \<Rightarrow> Panic
         | Some c \<Rightarrow>
           (case lruBuckets c name of
              None \<Rightarrow> rebalance_buckets env self names left' st cl
            | Some b \<Rightarrow>
              (case snapshot_keys c b of
                 None \<Rightarrow> Hang
               | Some kss \<Rightarrow> and_then (rebalance_keys env self name kss left' st cl)
                   (\<lambda>x cl'. case x of
                      None \<Rightarrow> Ret (Inr None) cl'
                    | Some (left2, st2) \<Rightarrow> rebalance_buckets env self names left2 st2 cl')))))"

definition rebalancerWorkerTask ::
    "env \<Rightarrow> (string set \<Rightarrow> string list) \<Rightarrow> nat \<Rightarrow> string \<Rightarrow> cluster \<Rightarrow> (unit, cluster) outcome" where
  "rebalancerWorkerTask env enum left self cl =
     (case cl self of
        None \<Rightarrow> Panic
      | Some c \<Rightarrow>
          and_then (rebalance_buckets env self (enum (dom (lruBuckets c))) left
              \<lparr>keysProcessed = 0, keysDeleted = 0, replicationAttempts = 0, replicationErrors = 0\<rparr> cl)
            (\<lambda>x cl'. case x of
               None \<Rightarrow> Ret (Inr ()) cl'
             | Some (_, st) \<Rightarrow> Ret (Inr ()) (update self (recordRebalancerCycle (int (keysProcessed st))
                 (int (keysDeleted st)) (int (replicationAttempts st)) (int (replicationErrors st))) cl')))"

lemma topReplicas_ids: "topReplicas env self c b k = replica_ids env self c b k"
  by (simp add: topReplicas_def replica_ids_def getReplicaNodes_def Let_def min_def)

section \<open>What a walk finds in a proper list\<close>

lemma cache_ok_walk:
  assumes "cache_ok c L" and "lruBuckets c b = Some bk"
  shows "walk (heapOf c) (bHead bk) = Some (L b)"
  using walk_list cache_okD(2) [OF assms] by blast

lemma snapshot_entries:
  assumes "cache_ok c L" and "lruBuckets c b = Some bk"
  shows "snapshot_keys c bk = Some (map (\<lambda>(k, v, t). \<lparr>ksKey = k, ksData = v, ksExpiresAt = t\<rparr>)
    (map (entry_of (heapOf c)) (L b)))"
  by (simp add: snapshot_keys_def cache_ok_walk [OF assms] entry_of_def)

section \<open>A rebalancer cycle at the node that runs it\<close>

lemma deleteLocal_conf:
  "deleteLocal b k c = Ret r c' \<Longrightarrow> nodeId c' = nodeId c \<and> replicas c' = replicas c"
  by (auto simp: deleteLocal_def GetBucket_def cache_updates recordBucketSize_def Let_def
      split: option.splits prod.splits bool.splits)

lemma deleteLocal_refines:
  assumes "refines c A" and "A b = Some (cap, es)"
  shows "\<exists>r c'. deleteLocal b k c = Ret r c' \<and> refines c' (A(b \<mapsto> (cap, a_without k es)))
    \<and> nodeId c' = nodeId c \<and> replicas c' = replicas c"
proof -
  from op_refines [OF assms(1), of "OpDelete b k"] assms(2) obtain r c' where
    run: "as_value (deleteLocal b k c) = Ret r c'" and ref: "refines c' (snd (a_exec (OpDelete b k) A))"
    by auto
  have "snd (a_exec (OpDelete b k) A) = A(b \<mapsto> (cap, a_without k es))"
  proof (cases "lookup k es = None")
    case True
    then have "a_without k es = es"
      by (auto simp: a_without_def lookup_def intro!: filter_True dest: map_of_SomeD)
        (metis map_of_eq_None_iff image_eqI fst_conv)
    with True assms(2) show ?thesis by (auto simp: entries_def)
  next
    case False
    with assms(2) show ?thesis by (auto simp: entries_def put_entries_def)
  qed
  moreover from run obtain r' where "deleteLocal b k c = Ret r' c'"
    by (cases "deleteLocal b k c") (auto simp: as_value_def split: sum.splits)
  ultimately show ?thesis using ref deleteLocal_conf by metis
qed

lemma replica_ids_conf:
  "nodeId d = nodeId c \<Longrightarrow> replicas d = replicas c \<Longrightarrow> replica_ids env self d = replica_ids env self c"
  by (simp add: replica_ids_def getReplicaNodes_def getReplicas_def members_def fun_eq_iff)

lemma send_replicas_self:
  "send_replicas env self b ks ttl reps st cl = (st', cl') \<Longrightarrow> cl' self = cl self"
proof (induction reps arbitrary: st cl)
  case (Cons rep reps)
  show ?case
  proof (cases "rep = self")
    case False
    obtain r cl1 where r: "setRemoteToNode env self b (ksKey ks) (ksData ks) ttl rep cl = (r, cl1)"
      by fastforce
    then have "cl1 self = cl self"
      using setRemote_local [of env self b "ksKey ks" "ksData ks" ttl rep cl] False
      by (auto split: prod.splits)
    with Cons r False show ?thesis by auto
  qed (use Cons in auto)
qed simp

definition still_here :: "(string \<Rightarrow> string list) \<Rightarrow> string \<Rightarrow> entry list \<Rightarrow> entry list" where
  "still_here ids self es = filter (\<lambda>(k, _, _). self \<in> set (ids k)) es"

lemma rebalance_key_self:
  assumes run: "running env self cl c" and ref: "refines c A" and A: "A b = Some (cap, es)"
  shows "\<exists>st' cl' c'. rebalance_key env self b ks st cl = Ret (Inr st') cl'
    \<and> running env self cl' c' \<and> replicas c' = replicas c
    \<and> refines c' (A(b \<mapsto> (cap, if self \<in> set (replica_ids env self c b (ksKey ks)) then es
        else a_without (ksKey ks) es)))"
proof -
  let ?k = "ksKey ks" and ?top = "replica_ids env self c b (ksKey ks)"
  let ?st = "st\<lparr>keysProcessed := Suc (keysProcessed st)\<rparr>"
  from run have c: "cl self = Some c" "nodeId c = self" by (simp_all add: running_def)
  have nonempty: "?top \<noteq> []" by (rule running_ids(2) [OF run])
  have same: "A(b \<mapsto> (cap, es)) = A" using A by auto
  show ?thesis
  proof (cases "self \<in> set ?top")
    case False
    from deleteLocal_refines [OF ref A] obtain r c' where
      del: "deleteLocal b ?k c = Ret r c'" and c': "refines c' (A(b \<mapsto> (cap, a_without ?k es)))"
        "nodeId c' = nodeId c" "replicas c' = replicas c" by blast
    with False nonempty c run show ?thesis
      by (auto simp: rebalance_key_def topReplicas_ids Let_def at_self_def running_def)
  next
    case True
    have "\<exists>st' cl'. rebalance_key env self b ks st cl = Ret (Inr st') cl' \<and> cl' self = cl self"
    proof (cases "send_replicas env self b ks
        (case ksExpiresAt ks of None \<Rightarrow> 0 | Some t \<Rightarrow> t - e_clock env self) ?top ?st cl")
      case (Pair st2 cl2)
      from send_replicas_self [OF this] True nonempty c Pair show ?thesis
        by (cases "ksExpiresAt ks") (simp_all add: rebalance_key_def topReplicas_ids Let_def)
    qed
    then obtain st' cl' where step: "rebalance_key env self b ks st cl = Ret (Inr st') cl'"
      and "cl' self = cl self" by blast
    with run have "running env self cl' c" by (simp add: running_def)
    with step True ref same show ?thesis by auto
  qed
qed

lemma rebalance_keys_self:
  assumes "running env self cl c" and "refines c A" and "A b = Some (cap, es)"
    and "length kss \<le> left"
  shows "\<exists>st' cl' c'. rebalance_keys env self b kss left st cl = Ret (Inr (Some (left - length kss, st'))) cl'
    \<and> running env self cl' c' \<and> replicas c' = replicas c
    \<and> refines c' (A(b \<mapsto> (cap, filter (\<lambda>e. fst e \<in> ksKey ` set kss
        \<longrightarrow> self \<in> set (replica_ids env self c b (fst e))) es)))"
  using assms
proof (induction kss arbitrary: left st cl c A es)
  case Nil
  then have "A(b \<mapsto> (cap, es)) = A" by auto
  with Nil show ?case by auto
next
  case (Cons ks kss)
  let ?ids = "replica_ids env self c b"
  let ?es = "if self \<in> set (?ids (ksKey ks)) then es else a_without (ksKey ks) es"
  from Cons.prems(4) obtain left' where left: "left = Suc left'" "length kss \<le> left'"
    by (cases left) auto
  from rebalance_key_self [where b = b and A = A and cl = cl, OF Cons.prems(1-3), of ks st]
  obtain st1 cl1 c1 where key: "rebalance_key env self b ks st cl = Ret (Inr st1) cl1"
    and c1: "running env self cl1 c1" "replicas c1 = replicas c" "refines c1 (A(b \<mapsto> (cap, ?es)))" by blast
  have ids: "replica_ids env self c1 = replica_ids env self c"
    using c1 Cons.prems(1) by (intro replica_ids_conf) (simp_all add: running_def)
  have "(A(b \<mapsto> (cap, ?es))) b = Some (cap, ?es)" by simp
  from Cons.IH [OF c1(1,3) this left(2), of st1, unfolded ids fun_upd_upd] obtain st' cl' c' where
    rest: "rebalance_keys env self b kss left' st1 cl1 = Ret (Inr (Some (left' - length kss, st'))) cl'"
    and c': "running env self cl' c'" "replicas c' = replicas c1"
      "refines c' (A(b \<mapsto> (cap, filter (\<lambda>e. fst e \<in> ksKey ` set kss \<longrightarrow> self \<in> set (?ids (fst e))) ?es)))"
    by blast
  have es: "filter (\<lambda>e. fst e \<in> ksKey ` set kss \<longrightarrow> self \<in> set (?ids (fst e))) ?es
      = filter (\<lambda>e. fst e \<in> ksKey ` set (ks # kss) \<longrightarrow> self \<in> set (?ids (fst e))) es"
    by (auto simp: a_without_def intro!: filter_cong)
  have "rebalance_keys env self b (ks # kss) left st cl
      = Ret (Inr (Some (left - length (ks # kss), st'))) cl'"
    using key rest left by simp
  moreover have "replicas c' = replicas c" using c'(2) c1(2) by simp
  ultimately show ?case
    using c'(1) c'(3) [unfolded es]
    by (intro exI [of _ st'] exI [of _ cl'] exI [of _ c'] conjI)
qed

lemma rebalance_buckets_self:
  assumes "running env self cl c" and "refines c A" and "distinct names"
    and "(\<Sum>b \<leftarrow> names. Suc (length (entries A b))) \<le> left"
  shows "\<exists>left' st' cl' c'. rebalance_buckets env self names left st cl = Ret (Inr (Some (left', st'))) cl'
    \<and> running env self cl' c' \<and> replicas c' = replicas c
    \<and> refines c' (\<lambda>b. if b \<in> set names
        then map_option (map_prod id (still_here (replica_ids env self c b) self)) (A b) else A b)"
  using assms
proof (induction names arbitrary: left st cl c A)
  case Nil
  then show ?case by auto
next
  case (Cons b names)
  from Cons.prems(4) obtain left1 where left: "left = Suc left1"
    "length (entries A b) + (\<Sum>b \<leftarrow> names. Suc (length (entries A b))) \<le> left1"
    by (cases left) auto
  from Cons.prems(1) have c: "cl self = Some c" by (simp add: running_def)
  from Cons.prems(2) obtain L where ok: "cache_ok c L" and A: "A = store_of c L" by (auto simp: refines_def)
  let ?upd = "\<lambda>A names b. if b \<in> set names
    then map_option (map_prod id (still_here (replica_ids env self c b) self)) (A b) else A b"
  show ?case
  proof (cases "lruBuckets c b")
    case None
    then have "A b = None" by (simp add: A store_of_def)
    then have upd: "?upd A (b # names) = ?upd A names" by auto
    from Cons.IH [OF Cons.prems(1,2), of left1 st] Cons.prems(3) left(2) None c left(1)
    show ?thesis unfolding upd by auto
  next
    case (Some bk)
    let ?es = "map (entry_of (heapOf c)) (L b)"
    let ?kss = "map (\<lambda>(k, v, t). \<lparr>ksKey = k, ksData = v, ksExpiresAt = t\<rparr>) ?es"
    have Ab: "A b = Some (bMaxLen bk, ?es)" using Some by (simp add: A store_of_def)
    have kss: "length ?kss \<le> left1" using left(2) Ab by (simp add: entries_def)
    from rebalance_keys_self [where A = A and b = b and cl = cl, OF Cons.prems(1,2) Ab kss, of st]
    obtain st1 cl1 c1 where
      keys: "rebalance_keys env self b ?kss left1 st cl = Ret (Inr (Some (left1 - length ?kss, st1))) cl1"
      and c1: "running env self cl1 c1" "replicas c1 = replicas c"
      and ref1: "refines c1 (A(b \<mapsto> (bMaxLen bk, filter (\<lambda>e. fst e \<in> ksKey ` set ?kss
          \<longrightarrow> self \<in> set (replica_ids env self c b (fst e))) ?es)))" by blast
    have keys_kss: "ksKey ` set ?kss = fst ` set ?es" by (simp add: image_image case_prod_beta')
    have "filter (\<lambda>e. fst e \<in> ksKey ` set ?kss \<longrightarrow> self \<in> set (replica_ids env self c b (fst e))) ?es
        = still_here (replica_ids env self c b) self ?es"
      unfolding still_here_def keys_kss by (rule filter_cong) (auto simp: case_prod_beta)
    with ref1 have ref1: "refines c1 (A(b \<mapsto> (bMaxLen bk, still_here (replica_ids env self c b) self ?es)))"
      by simp
    let ?A1 = "A(b \<mapsto> (bMaxLen bk, still_here (replica_ids env self c b) self ?es))"
    have ids: "replica_ids env self c1 = replica_ids env self c"
      using c1 Cons.prems(1) by (intro replica_ids_conf) (simp_all add: running_def)
    have sum: "(\<Sum>b \<leftarrow> names. Suc (length (entries ?A1 b))) = (\<Sum>b \<leftarrow> names. Suc (length (entries A b)))"
      using Cons.prems(3) by (intro arg_cong [of _ _ sum_list] map_cong) (auto simp: entries_def)
    have names: "distinct names" using Cons.prems(3) by simp
    have enough: "(\<Sum>b \<leftarrow> names. Suc (length (entries ?A1 b))) \<le> left1 - length ?kss"
      unfolding sum using left(2) Ab by (simp add: entries_def)
    from Cons.IH [OF c1(1) ref1 names enough, of st1, unfolded ids] obtain left' st' cl' c' where
      rest: "rebalance_buckets env self names (left1 - length ?kss) st1 cl1 = Ret (Inr (Some (left', st'))) cl'"
      and c': "running env self cl' c'" "replicas c' = replicas c1" "refines c' (?upd ?A1 names)"
      by blast
    have "?upd ?A1 names = ?upd A (b # names)" using Cons.prems(3) Ab by (auto simp: fun_eq_iff)
    with c'(3) have "refines c' (?upd A (b # names))" by simp
    moreover have "rebalance_buckets env self (b # names) left st cl = Ret (Inr (Some (left', st'))) cl'"
      using keys rest c Some snapshot_entries [OF ok Some] left(1) by simp
    ultimately show ?thesis using c'(1,2) c1(2) by auto
  qed
qed

definition visits :: "(string set \<Rightarrow> string list) \<Rightarrow> string set \<Rightarrow> bool" where
  "visits enum S \<longleftrightarrow> set (enum S) = S \<and> distinct (enum S)"

text \<open>
  C7: A rebalancer cycle keeps exactly what the node is responsible for. Let the node be intact (none
  of its buckets has evicted, no bucket name is a prefix of another), and the context stay alive for the length of the cycle. Then the cycle
  returns, and afterwards every bucket of the node holds exactly the entries whose replica set
  contains the node, in their old order with their values and expiry times, whatever the network
  does to the replication requests. (After an eviction the cycle may miss entries, which are no
  longer reached from the head: \<open>delete_evicted_key_empties_list\<close>.)
\<close>

theorem rebalancer_keeps_own_keys:
  assumes "running env self cl c" and "refines c A" and "visits enum (dom A)"
    and "(\<Sum>b \<leftarrow> enum (dom A). Suc (length (entries A b))) \<le> left"
  shows "\<exists>cl' c'. rebalancerWorkerTask env enum left self cl = Ret (Inr ()) cl' \<and> cl' self = Some c'
    \<and> refines c' (\<lambda>b. map_option (map_prod id (still_here (replica_ids env self c b) self)) (A b))"
proof -
  let ?st = "\<lparr>keysProcessed = 0, keysDeleted = 0, replicationAttempts = 0, replicationErrors = 0\<rparr>"
  from assms(1) have c: "cl self = Some c" by (simp add: running_def)
  from assms(2) have dom: "dom (lruBuckets c) = dom A" unfolding refines_def using dom_store_of by metis
  from assms(3) have names: "distinct (enum (dom A))" "set (enum (dom A)) = dom A" by (simp_all add: visits_def)
  from rebalance_buckets_self [where cl = cl and A = A, OF assms(1,2) names(1) assms(4), of ?st]
  obtain left' st' cl' c' where
    run: "rebalance_buckets env self (enum (dom A)) left ?st cl = Ret (Inr (Some (left', st'))) cl'"
    and c': "running env self cl' c'"
    and ref: "refines c' (\<lambda>b. if b \<in> set (enum (dom A))
        then map_option (map_prod id (still_here (replica_ids env self c b) self)) (A b) else A b)" by blast
  have "(\<lambda>b. if b \<in> set (enum (dom A))
      then map_option (map_prod id (still_here (replica_ids env self c b) self)) (A b) else A b)
    = (\<lambda>b. map_option (map_prod id (still_here (replica_ids env self c b) self)) (A b))"
  proof
    fix b
    show "(if b \<in> set (enum (dom A))
        then map_option (map_prod id (still_here (replica_ids env self c b) self)) (A b) else A b)
      = map_option (map_prod id (still_here (replica_ids env self c b) self)) (A b)"
      by (cases "A b") (simp_all add: names(2) domIff)
  qed
  with ref have ref: "refines c' (\<lambda>b. map_option (map_prod id (still_here (replica_ids env self c b) self)) (A b))"
    by simp
  let ?c = "recordRebalancerCycle (int (keysProcessed st')) (int (keysDeleted st'))
      (int (replicationAttempts st')) (int (replicationErrors st')) c'"
  have "rebalancerWorkerTask env enum left self cl = Ret (Inr ()) (cl'(self \<mapsto> ?c))"
    using run c c' dom by (simp add: rebalancerWorkerTask_def update_def running_def)
  moreover have "refines ?c (\<lambda>b. map_option (map_prod id (still_here (replica_ids env self c b) self)) (A b))"
    by (rule refines_same_store [OF _ ref]) (simp add: recordRebalancerCycle_def)
  ultimately show ?thesis by auto
qed

section \<open>A rebalancer cycle at the other replicas\<close>

definition deadline :: "cluster \<Rightarrow> string \<Rightarrow> string \<Rightarrow> string \<Rightarrow> gotime \<Rightarrow> bool" where
  "deadline cl n b k t \<longleftrightarrow> (\<exists>d a. cl n = Some d \<and> keyVal d (b @ k) = Some a \<and> nexpiresAt (heapOf d a) = t)"

lemma setLocal_deadline:
  assumes "setLocal now b k v ttl c = Ret (Inr ()) c'" and "keyVal c' (b @ k) = Some a"
  shows "nexpiresAt (heapOf c' a) = expiry now ttl"
  using assms
  by (auto simp: setLocal_def GetBucket_def cache_updates Let_def evictTail_def
      split: option.split_asm if_split_asm)

lemma getLocal_found: "getLocal b k c = Ret (Inr v) c' \<Longrightarrow> \<exists>a. keyVal c (b @ k) = Some a"
  by (auto simp: getLocal_def keyVal_Get_def split: option.split_asm)

lemma send_replicas_node:
  assumes "send_replicas env self b ks ttl reps st cl = (st', cl')" and "distinct reps"
  shows "cl' n = (if n \<in> set reps \<and> n \<noteq> self
    then snd (setRemoteToNode env self b (ksKey ks) (ksData ks) ttl n cl) n else cl n)"
  using assms
proof (induction reps arbitrary: st cl)
  case (Cons rep reps)
  show ?case
  proof (cases "rep = self")
    case False
    let ?send = "\<lambda>n. setRemoteToNode env self b (ksKey ks) (ksData ks) ttl n"
    obtain r cl1 where r: "?send rep cl = (r, cl1)" by fastforce
    have other: "cl1 m = cl m" if "m \<noteq> rep" for m
      using setRemote_local [of env self b "ksKey ks" "ksData ks" ttl rep cl] r that
      by (auto split: prod.splits)
    have same: "snd (?send m cl1) m = snd (?send m cl) m" if "m \<noteq> rep" for m
      by (subst (1 2) setRemote_local) (simp add: other that split: prod.split)
    from Cons.prems r False obtain st1 where "send_replicas env self b ks ttl reps st1 cl1 = (st', cl')"
      by auto
    from Cons.IH [OF this] Cons.prems(2) False r same [of n] other [of n] show ?thesis
      by (cases "n = rep") auto
  qed (use Cons in auto)
qed simp

lemma rebalance_key_replicates:
  assumes gob: "gob_laws env" and run: "running env self cl c"
    and self: "self \<in> set (replica_ids env self c b (ksKey ks))"
    and alive: "\<forall>t. ksExpiresAt ks = Some t \<longrightarrow> e_clock env self < t" and v: "gob_registered (ksData ks)"
    and n: "n \<in> set (replica_ids env self c b (ksKey ks))" "n \<noteq> self" "ready env self b cl n"
    and d: "\<And>d. cl n = Some d \<Longrightarrow> nodeId d = n \<and> can_store d b (ksKey ks)"
    and clock: "e_clock env n = e_clock env self"
  shows "\<exists>st' cl'. rebalance_key env self b ks st cl = Ret (Inr st') cl'
    \<and> holds cl' n b (ksKey ks) (ksData ks) \<and> deadline cl' n b (ksKey ks) (ksExpiresAt ks)"
proof -
  let ?k = "ksKey ks" and ?top = "replica_ids env self c b (ksKey ks)"
  let ?st = "st\<lparr>keysProcessed := Suc (keysProcessed st)\<rparr>"
  define ttl where "ttl = (case ksExpiresAt ks of None \<Rightarrow> 0 | Some t \<Rightarrow> t - e_clock env self)"
  from run have c: "cl self = Some c" by (simp add: running_def)
  obtain st' cl' where send: "send_replicas env self b ks ttl ?top ?st cl = (st', cl')" by fastforce
  have step: "rebalance_key env self b ks st cl = Ret (Inr st') cl'"
    using c self running_ids(2) [OF run] alive send
    by (cases "ksExpiresAt ks") (auto simp: rebalance_key_def topReplicas_ids Let_def ttl_def)
  from n(3) obtain d0 bk where d0: "cl n = Some d0" "lruBuckets d0 b = Some bk"
    and link: "n \<in> set (e_peers env self)" "e_link env n = Up"
    using n(2) by (auto simp: ready_def)
  from setLocal_stores [of d0 b ?k bk "e_clock env n" "ksData ks" ttl] d [OF d0(1)] d0(2) obtain d1 c2 where
    set: "setLocal (e_clock env n) b ?k (ksData ks) ttl d0 = Ret (Inr ()) d1"
    and get: "getLocal b ?k d1 = Ret (Inr (ksData ks)) c2" by blast
  have "cl' n = Some d1"
    using send_replicas_node [OF send running_ids(1) [OF run], of n] n(1,2) d0(1) d [OF d0(1)] link set v
    by (simp add: setRemoteToNode_deliver [OF gob] Let_def deliver_def)
  moreover from getLocal_found [OF get] obtain a where a: "keyVal d1 (b @ ?k) = Some a" by blast
  moreover have "nexpiresAt (heapOf d1 a) = ksExpiresAt ks"
    using setLocal_deadline [OF set a] clock alive
    by (cases "ksExpiresAt ks") (auto simp: expiry_def ttl_def)
  ultimately show ?thesis using step get by (auto simp: holds_def deadline_def)
qed

text \<open>
  The rebalancer carries a key to its replicas with its deadline. For a registered value under a key this
  node is a replica of and that has not expired, the loop body makes every other replica that is
  ready and able to store the key hold the value with the same absolute expiry time, if the clocks
  agree and the request takes no time (the remaining time to live is sent).
\<close>

theorem rebalancer_replicates_key:
  assumes "gob_laws env" and "running env self cl c"
    and "self \<in> set (replica_ids env self c b (ksKey ks))"
    and "\<forall>t. ksExpiresAt ks = Some t \<longrightarrow> e_clock env self < t" and "gob_registered (ksData ks)"
  shows "\<exists>st' cl'. rebalance_key env self b ks st cl = Ret (Inr st') cl'
    \<and> (\<forall>n d. n \<in> set (replica_ids env self c b (ksKey ks)) \<longrightarrow> n \<noteq> self \<longrightarrow> ready env self b cl n
        \<longrightarrow> cl n = Some d \<longrightarrow> nodeId d = n \<longrightarrow> can_store d b (ksKey ks)
        \<longrightarrow> e_clock env n = e_clock env self
        \<longrightarrow> holds cl' n b (ksKey ks) (ksData ks) \<and> deadline cl' n b (ksKey ks) (ksExpiresAt ks))"
proof -
  have "cl self = Some c" "replica_ids env self c b (ksKey ks) \<noteq> []"
    using assms(2) running_ids(2) by (auto simp: running_def)
  with assms(3,4) obtain st' cl' where step: "rebalance_key env self b ks st cl = Ret (Inr st') cl'"
    by (fastforce simp: rebalance_key_def topReplicas_ids Let_def split: option.split prod.split)
  show ?thesis
  proof (intro exI [of _ st'] exI [of _ cl'] conjI allI impI)
    fix n d
    assume n: "n \<in> set (replica_ids env self c b (ksKey ks))" "n \<noteq> self" "ready env self b cl n"
      and d: "cl n = Some d" "nodeId d = n" "can_store d b (ksKey ks)"
      and clock: "e_clock env n = e_clock env self"
    from d have "\<And>d'. cl n = Some d' \<Longrightarrow> nodeId d' = n \<and> can_store d' b (ksKey ks)" by simp
    from rebalance_key_replicates [OF assms n this clock, of st] step
    show "holds cl' n b (ksKey ks) (ksData ks)" and "deadline cl' n b (ksKey ks) (ksExpiresAt ks)"
      by simp_all
  qed (rule step)
qed

text \<open>
  C40: The rebalancer overwrites a live value by \<open>nil\<close> after an eviction. A node evicts the key
  \<open>lk\<close> from a full bucket; the evicted node, its value cleared, is still found by the walk, and
  the loop body writes that \<open>nil\<close> to every ready replica of \<open>lk\<close>, as a value that was never
  stored.
\<close>

theorem rebalancer_resends_evicted:
  assumes "refines c A" and "A b = Some (cap, es @ [(lk, lv, lt)])" and "int (length es) + 1 = cap"
    and "lookup k (es @ [(lk, lv, lt)]) = None" and set: "setLocal now b k v ttl c = Ret (Inr ()) c'"
    and gob: "gob_laws env" and run: "running env self cl c'" and self: "self \<in> set (replica_ids env self c' b lk)"
    and alive: "\<forall>t. lt = Some t \<longrightarrow> e_clock env self < t"
    and n: "n \<in> set (replica_ids env self c' b lk)" "n \<noteq> self" "ready env self b cl n"
    and d: "cl n = Some d" "nodeId d = n" "can_store d b lk" and clock: "e_clock env n = e_clock env self"
  shows "\<exists>bk kss ks st' cl'. lruBuckets c' b = Some bk \<and> snapshot_keys c' bk = Some (kss @ [ks]) \<and> ksKey ks = lk
    \<and> getLocal b lk c' = Ret (Inl ERR_NOT_FOUND) c'
    \<and> rebalance_key env self b ks st cl = Ret (Inr st') cl' \<and> holds cl' n b lk ANil"
proof -
  from stale_after_eviction [OF assms(1-4), of now v ttl] set obtain bk ns e where
    bk: "lruBuckets c' b = Some bk" and walk: "walk (heapOf c') (bHead bk) = Some (ns @ [e])"
    and e: "nkey (heapOf c' e) = lk" "ndata (heapOf c' e) = ANil" "nexpiresAt (heapOf c' e) = lt"
    and kv: "keyVal c' (b @ lk) = None" by auto
  define ks where "ks = \<lparr>ksKey = lk, ksData = ANil, ksExpiresAt = lt\<rparr>"
  have snap: "snapshot_keys c' bk = Some (map (\<lambda>n. \<lparr>ksKey = nkey (heapOf c' n), ksData = ndata (heapOf c' n),
      ksExpiresAt = nexpiresAt (heapOf c' n)\<rparr>) ns @ [ks])"
    using walk e by (simp add: snapshot_keys_def ks_def)
  have k: "ksKey ks = lk" "ksData ks = ANil" "ksExpiresAt ks = lt" by (simp_all add: ks_def)
  have "\<exists>st' cl'. rebalance_key env self b ks st cl = Ret (Inr st') cl' \<and> holds cl' n b (ksKey ks) (ksData ks)
      \<and> deadline cl' n b (ksKey ks) (ksExpiresAt ks)"
    by (rule rebalance_key_replicates [OF gob run]) (use self alive n d clock in \<open>simp_all add: k\<close>)
  moreover have "getLocal b lk c' = Ret (Inl ERR_NOT_FOUND) c'" by (rule getLocal_miss [OF kv])
  ultimately show ?thesis using bk snap k by metis
qed

section \<open>An expiry cycle\<close>

text \<open>A store without the given keys.\<close>

definition prune :: "(string \<times> string) set \<Rightarrow> store \<Rightarrow> store" where
  "prune R A b = map_option (map_prod id (filter (\<lambda>e. (b, fst e) \<notin> R))) (A b)"

lemma prune_prune: "prune R (prune S A) = prune (R \<union> S) A"
  by (rule ext, rename_tac b, case_tac "A b") (auto simp: prune_def intro!: filter_cong)

lemma prune_empty [simp]: "prune {} A = A"
  by (rule ext, rename_tac b, case_tac "A b") (auto simp: prune_def)

lemma prune_single:
  "A b = Some (cap, es) \<Longrightarrow> prune {(b, k)} A = A(b \<mapsto> (cap, a_without k es))"
  by (rule ext, rename_tac b', case_tac "A b'") (auto simp: prune_def a_without_def)

lemma prune_no_bucket: "A b = None \<Longrightarrow> prune {(b, k)} A = A"
  by (rule ext, rename_tac b', case_tac "A b'") (auto simp: prune_def intro!: filter_True)

lemma deleteLocal_prunes:
  assumes "refines c A"
  shows "\<exists>r c'. deleteLocal b k c = Ret r c' \<and> refines c' (prune {(b, k)} A)
    \<and> nodeId c' = nodeId c \<and> replicas c' = replicas c"
proof (cases "A b")
  case None
  from assms obtain L where "A = store_of c L" by (auto simp: refines_def)
  with None have "lruBuckets c b = None" by (simp add: store_of_def)
  with None assms show ?thesis by (simp add: deleteLocal_def prune_no_bucket)
next
  case (Some x)
  obtain cap es where "A b = Some (cap, es)" using Some by (cases x) auto
  from deleteLocal_refines [OF assms this, of k] prune_single [of A b cap es k, OF this]
  show ?thesis by simp
qed

text \<open>The nodes a deletion by \<open>self\<close> is executed on, acknowledged or not.\<close>

definition reaches :: "env \<Rightarrow> string \<Rightarrow> string \<Rightarrow> bool" where
  "reaches env self n \<longleftrightarrow>
     n = self \<or> (n \<in> set (e_peers env self) \<and> (e_link env n = Up \<or> e_link env n = ResponseLost))"

lemma delete_on_effect:
  assumes gob: "gob_laws env" and d: "cl n = Some d" "refines d B"
  shows "\<exists>r d'. delete_on env self b k n cl = Ret r (cl(n \<mapsto> d'))
    \<and> refines d' (if reaches env self n then prune {(b, k)} B else B)
    \<and> nodeId d' = nodeId d \<and> replicas d' = replicas d"
proof -
  from deleteLocal_prunes [OF d(2)] obtain r d' where
    del: "deleteLocal b k d = Ret r d'" "refines d' (prune {(b, k)} B)" "nodeId d' = nodeId d"
      "replicas d' = replicas d" by blast
  have forgive: "\<exists>r'. forgive_not_found (Ret q s) = Ret r' s" for q and s :: cluster
    by (cases "(Ret q s) :: (unit, cluster) outcome" rule: forgive_not_found.cases) auto
  show ?thesis
  proof (cases "n = self")
    case True
    with d del forgive [of r "cl(n \<mapsto> d')"] show ?thesis
      by (auto simp: delete_on_def at_self_def reaches_def)
  next
    case False
    show ?thesis
    proof (cases "reaches env self n")
      case True
      with False d del have "deleteRemoteFromNode env self b k n cl
          = (fst (deliver env self n (deleteLocal b k) (cl n)), cl(n \<mapsto> d'))"
        by (auto simp: deleteRemoteFromNode_deliver [OF gob] Let_def deliver_def reaches_def)
      with True False del forgive show ?thesis by (fastforce simp: delete_on_def)
    next
      case no: False
      with \<open>n \<noteq> self\<close> d have "deleteRemoteFromNode env self b k n cl
          = (fst (deliver env self n (deleteLocal b k) (cl n)), cl(n \<mapsto> d))"
        by (cases "e_link env n") (auto simp: deleteRemoteFromNode_deliver [OF gob] Let_def deliver_def reaches_def)
      with no \<open>n \<noteq> self\<close> d forgive show ?thesis by (fastforce simp: delete_on_def)
    qed
  qed
qed

text \<open>\<open>pruned\<close>: every node with a proper store has lost exactly the keys \<open>R n\<close>.\<close>

definition pruned :: "(string \<Rightarrow> (string \<times> string) set) \<Rightarrow> cluster \<Rightarrow> cluster \<Rightarrow> bool" where
  "pruned R cl cl' \<longleftrightarrow> (\<forall>n d B. cl n = Some d \<longrightarrow> refines d B \<longrightarrow>
     (\<exists>d'. cl' n = Some d' \<and> refines d' (prune (R n) B)))"

lemma update_at: "update self f cl n = (if n = self then map_option f (cl n) else cl n)"
  by (simp add: update_def)

lemma pruned_refl: "pruned (\<lambda>_. {}) cl cl"
  by (simp add: pruned_def)

lemma pruned_trans: "pruned R cl cl1 \<Longrightarrow> pruned S cl1 cl2 \<Longrightarrow> pruned (\<lambda>n. S n \<union> R n) cl cl2"
  unfolding pruned_def prune_prune [symmetric] by blast

lemma pruned_update:
  assumes "\<And>c. same_store c (f c)" and "pruned R (update self f cl) cl'"
  shows "pruned R cl cl'"
  unfolding pruned_def
proof (intro allI impI)
  fix n d B
  assume d: "cl n = Some d" "refines d B"
  let ?d = "if n = self then f d else d"
  have "update self f cl n = Some ?d" "refines ?d B"
    using d refines_same_store [OF assms(1) d(2)] by (auto simp: update_def)
  with assms(2) show "\<exists>d'. cl' n = Some d' \<and> refines d' (prune (R n) B)"
    unfolding pruned_def by blast
qed

lemma CacheDelete_effect:
  assumes gob: "gob_laws env" and sched: "schedules env" and run: "running env self cl c"
    and ref: "refines c A"
  shows "\<exists>r cl' c'. CacheDelete env self b k cl = Ret r cl' \<and> running env self cl' c' \<and> replicas c' = replicas c
    \<and> pruned (\<lambda>n. if n \<in> set (replica_ids env self c b k) \<and> reaches env self n then {(b, k)} else {}) cl cl'"
proof -
  let ?ids = "replica_ids env self c b k" and ?op = "delete_on env self b k"
  from run have c: "cl self = Some c" "nodeId c = self" by (simp_all add: running_def)
  from deleteLocal_prunes [OF ref] have "\<exists>r c'. deleteLocal b k c = Ret r c'" by blast
  from CacheDelete_outcome [OF sched run this] obtain c2 r f after where c2: "same_store c c2"
    and out: "CacheDelete env self b k cl
      = Ret r (update self f (\<lambda>n. if n \<in> set ?ids then after n else (cl(self \<mapsto> c2)) n))"
    and f: "only_counts f"
    and each: "\<forall>n \<in> set ?ids. \<exists>r. ?op n (cl(self \<mapsto> c2)) = Ret r ((cl(self \<mapsto> c2))(n := after n))" by blast
  let ?cl2 = "cl(self \<mapsto> c2)" and ?R = "\<lambda>n. if n \<in> set ?ids \<and> reaches env self n then {(b, k)} else {}"
  let ?cl' = "update self f (\<lambda>n. if n \<in> set ?ids then after n else ?cl2 n)"
  note fs = only_counts_same_store [OF f]
  have effect: "\<exists>d'. ?cl' n = Some d' \<and> refines d' (prune (?R n) B)
      \<and> nodeId d' = nodeId d \<and> replicas d' = replicas d"
    if d: "cl n = Some d" "refines d B" for n d B
  proof -
    obtain d2 where d2: "?cl2 n = Some d2" "same_store d d2"
      using d c c2 by (cases "n = self") auto
    from refines_same_store [OF d2(2) d(2)] have B: "refines d2 B" .
    have conf2: "nodeId d2 = nodeId d" "replicas d2 = replicas d"
      using d2(2) by (simp_all add: same_store_def)
    obtain d1 where d1: "(if n \<in> set ?ids then after n else ?cl2 n) = Some d1"
      "refines d1 (prune (?R n) B)" "nodeId d1 = nodeId d" "replicas d1 = replicas d"
    proof (cases "n \<in> set ?ids")
      case True
      with each obtain q where q: "?op n ?cl2 = Ret q (?cl2(n := after n))" by blast
      from delete_on_effect [where cl = ?cl2 and n = n, OF gob d2(1) B, of self b k] obtain q' d'
        where d': "?op n ?cl2 = Ret q' (?cl2(n \<mapsto> d'))"
          "refines d' (if reaches env self n then prune {(b, k)} B else B)"
          "nodeId d' = nodeId d2" "replicas d' = replicas d2" by blast
      from q d'(1) have "?cl2(n := after n) = ?cl2(n \<mapsto> d')" by simp
      then have "after n = Some d'" by (metis fun_upd_same)
      with True d' conf2 that show ?thesis by (auto split: if_splits)
    next
      case False
      with d2 B conf2 that show ?thesis by auto
    qed
    let ?d' = "if n = self then f d1 else d1"
    have "?cl' n = Some ?d'" unfolding update_at d1(1) by simp
    have pick: "Q d1 \<Longrightarrow> Q (f d1) \<Longrightarrow> Q ?d'" for Q by simp
    have "refines ?d' (prune (?R n) B)"
      by (rule pick [of "\<lambda>d. refines d (prune (?R n) B)", OF d1(2) refines_same_store [OF fs d1(2)]])
    have conf': "nodeId ?d' = nodeId d \<and> replicas ?d' = replicas d"
      using d1(3,4) fs [of d1] by (simp add: same_store_def)
    show ?thesis
      using \<open>?cl' n = Some ?d'\<close> \<open>refines ?d' (prune (?R n) B)\<close> conf' by (intro exI [of _ ?d'] conjI) auto
  qed
  from effect [OF c(1) ref] obtain c' where "?cl' self = Some c'" "nodeId c' = nodeId c"
    "replicas c' = replicas c" by blast
  with run have "running env self ?cl' c'" by (simp add: running_def)
  moreover have "pruned ?R cl ?cl'" unfolding pruned_def using effect by blast
  ultimately show ?thesis using out \<open>replicas c' = replicas c\<close> by blast
qed

text \<open>The keys of \<open>xs\<close> that a pass of \<open>self\<close> removes at node \<open>n\<close>.\<close>

definition removed :: "env \<Rightarrow> string \<Rightarrow> cache \<Rightarrow> (string \<times> string) set \<Rightarrow> string \<Rightarrow> (string \<times> string) set" where
  "removed env self c X n = {(b, k) \<in> X. n \<in> set (replica_ids env self c b k) \<and> reaches env self n}"

lemma removed_simps [simp]:
  "removed env self c {} n = {}"
  "removed env self c (X \<union> Y) n = removed env self c X n \<union> removed env self c Y n"
  by (auto simp: removed_def)

lemma removed_single:
  "removed env self c {(b, k)} n
    = (if n \<in> set (replica_ids env self c b k) \<and> reaches env self n then {(b, k)} else {})"
  by (auto simp: removed_def)

lemma removed_conf:
  "nodeId d = nodeId c \<Longrightarrow> replicas d = replicas c \<Longrightarrow> removed env self d = removed env self c"
  by (simp add: removed_def replica_ids_conf [of d c] fun_eq_iff)

lemma evict_keys_effect:
  assumes "gob_laws env" and "schedules env" and "running env self cl c" and "refines c A"
  shows "\<exists>cl' c' A'. evict_keys env self b keys cl = Ret (Inr ()) cl' \<and> running env self cl' c'
    \<and> refines c' A' \<and> replicas c' = replicas c \<and> pruned (removed env self c ({b} \<times> set keys)) cl cl'"
  using assms
proof (induction keys arbitrary: cl c A)
  case Nil
  have "removed env self c ({b} \<times> set []) = (\<lambda>_. {})" by (simp add: removed_def fun_eq_iff)
  with Nil pruned_refl show ?case by auto
next
  case (Cons k keys)
  let ?f = "recordTtlEviction b" and ?cl0 = "update self (recordTtlEviction b) cl"
  have f: "same_store x (?f x)" for x by (simp add: recordTtlEviction_def)
  from Cons.prems(3) have run0: "running env self ?cl0 (?f c)"
    by (simp add: running_def update_def recordTtlEviction_def)
  from CacheDelete_effect [OF Cons.prems(1,2) run0 refines_same_store [OF f Cons.prems(4)], of b k]
  obtain r cl1 c1 where del: "CacheDelete env self b k ?cl0 = Ret r cl1" and c1: "running env self cl1 c1"
    "replicas c1 = replicas (?f c)"
    and p1: "pruned (removed env self (?f c) {(b, k)}) ?cl0 cl1" unfolding removed_single by blast
  have conf: "nodeId c1 = nodeId c" "replicas c1 = replicas c"
    using c1 Cons.prems(3) f [of c] by (simp_all add: running_def same_store_def)
  have "removed env self (?f c) = removed env self c"
    using f [of c] by (intro removed_conf) (simp_all add: same_store_def)
  with p1 pruned_update [OF f] have p: "pruned (removed env self c {(b, k)}) cl cl1" by metis
  from Cons.prems(3) have "cl self = Some c" by (simp add: running_def)
  with p Cons.prems(4) c1(1) obtain A1 where ref1: "refines c1 A1"
    unfolding pruned_def running_def by fastforce
  from Cons.IH [OF Cons.prems(1,2) c1(1) ref1] obtain cl' c' A' where
    rest: "evict_keys env self b keys cl1 = Ret (Inr ()) cl'" "running env self cl' c'" "refines c' A'"
      "replicas c' = replicas c1" "pruned (removed env self c1 ({b} \<times> set keys)) cl1 cl'" by blast
  have "removed env self c1 = removed env self c" using conf by (rule removed_conf)
  with pruned_trans [OF p] rest(5)
  have "pruned (\<lambda>n. removed env self c ({b} \<times> set keys) n \<union> removed env self c {(b, k)} n) cl cl'" by simp
  moreover have "(\<lambda>n. removed env self c ({b} \<times> set keys) n \<union> removed env self c {(b, k)} n)
      = removed env self c ({b} \<times> set (k # keys))"
    by (auto simp: removed_def fun_eq_iff)
  ultimately show ?case using del rest(1-4) conf by auto
qed

lemma evict_all_effect:
  assumes "gob_laws env" and "schedules env" and "running env self cl c" and "refines c A"
  shows "\<exists>cl'. evict_all env self bs cl = Ret (Inr ()) cl'
    \<and> pruned (removed env self c {(b, k). \<exists>keys. (b, keys) \<in> set bs \<and> k \<in> set keys}) cl cl'"
  using assms
proof (induction bs arbitrary: cl c A)
  case Nil
  have "removed env self c {(b, k). \<exists>keys. (b, keys) \<in> set [] \<and> k \<in> set keys} = (\<lambda>_. {})"
    by (simp add: removed_def fun_eq_iff)
  with pruned_refl show ?case by auto
next
  case (Cons x bs)
  obtain b keys where x: "x = (b, keys)" by fastforce
  let ?X = "{(b, k). \<exists>keys. (b, keys) \<in> set bs \<and> k \<in> set keys}"
  from evict_keys_effect [OF Cons.prems, of b keys] obtain cl1 c1 A1 where
    keys: "evict_keys env self b keys cl = Ret (Inr ()) cl1" and c1: "running env self cl1 c1" "refines c1 A1"
      "replicas c1 = replicas c" and p: "pruned (removed env self c ({b} \<times> set keys)) cl cl1" by blast
  from Cons.IH [OF Cons.prems(1,2) c1(1,2)] obtain cl' where
    rest: "evict_all env self bs cl1 = Ret (Inr ()) cl'" "pruned (removed env self c1 ?X) cl1 cl'" by blast
  have "removed env self c1 = removed env self c"
    using c1 Cons.prems(3) by (intro removed_conf) (simp_all add: running_def)
  with pruned_trans [OF p] rest(2)
  have "pruned (\<lambda>n. removed env self c ?X n \<union> removed env self c ({b} \<times> set keys) n) cl cl'" by simp
  moreover have "(\<lambda>n. removed env self c ?X n \<union> removed env self c ({b} \<times> set keys) n)
      = removed env self c {(b, k). \<exists>keys. (b, keys) \<in> set (x # bs) \<and> k \<in> set keys}"
    by (auto simp: removed_def x fun_eq_iff)
  ultimately show ?case using keys rest(1) by (simp add: x)
qed

definition expired_at :: "instant \<Rightarrow> store \<Rightarrow> (string \<times> string) set" where
  "expired_at now A = {(b, k). \<exists>cap es v t. A b = Some (cap, es) \<and> (k, v, t) \<in> set es \<and> expired now t}"

lemma expired_keys_entries:
  assumes "cache_ok c L" and "lruBuckets c b = Some bk"
  shows "\<exists>keys. expired_keys now c bk = Some keys
    \<and> set keys = {k. \<exists>v t. (k, v, t) \<in> set (map (entry_of (heapOf c)) (L b)) \<and> expired now t}"
  by (auto simp: expired_keys_def cache_ok_walk [OF assms] entry_of_def)

lemma collect_expired_entries:
  assumes ok: "cache_ok c L"
  shows "\<exists>bs. collect_expired now c names = Some bs \<and> {(b, k). \<exists>keys. (b, keys) \<in> set bs \<and> k \<in> set keys}
    = {(b, k) \<in> expired_at now (store_of c L). b \<in> set names}"
proof (induction names)
  case (Cons b names)
  then obtain bs where bs: "collect_expired now c names = Some bs"
    "{(b, k). \<exists>keys. (b, keys) \<in> set bs \<and> k \<in> set keys} = {(b, k) \<in> expired_at now (store_of c L). b \<in> set names}"
    by blast
  show ?case
  proof (cases "lruBuckets c b")
    case None
    then have "(b, k) \<notin> expired_at now (store_of c L)" for k by (simp add: expired_at_def store_of_def)
    with None bs show ?thesis by auto
  next
    case (Some bk)
    from expired_keys_entries [OF ok Some, of now] obtain keys where
      keys: "expired_keys now c bk = Some keys" "set keys = {k. \<exists>v t. (k, v, t) \<in> set (map (entry_of (heapOf c)) (L b))
        \<and> expired now t}" by blast
    have ks: "k \<in> set keys \<longleftrightarrow> (b, k) \<in> expired_at now (store_of c L)" for k
      using Some by (simp add: keys(2) expired_at_def store_of_def)
    have rest: "(\<exists>ks. (b', ks) \<in> set bs \<and> k \<in> set ks) \<longleftrightarrow> (b', k) \<in> expired_at now (store_of c L) \<and> b' \<in> set names"
      for b' k using bs(2) by (simp add: set_eq_iff)
    have "{(b', k). \<exists>ks. (b', ks) \<in> set ((b, keys) # bs) \<and> k \<in> set ks}
        = {(b', k) \<in> expired_at now (store_of c L). b' \<in> set (b # names)}"
    proof (intro set_eqI, clarify)
      fix b' k
      have "(\<exists>ks. (b', ks) \<in> set ((b, keys) # bs) \<and> k \<in> set ks)
          \<longleftrightarrow> b' = b \<and> k \<in> set keys \<or> (\<exists>ks. (b', ks) \<in> set bs \<and> k \<in> set ks)" by auto
      then show "(b', k) \<in> {(b', k). \<exists>ks. (b', ks) \<in> set ((b, keys) # bs) \<and> k \<in> set ks}
          \<longleftrightarrow> (b', k) \<in> {(b', k) \<in> expired_at now (store_of c L). b' \<in> set (b # names)}"
        unfolding ks rest by auto
    qed
    with keys(1) Some bs(1) show ?thesis by simp
  qed
qed simp

text \<open>
  C9: An expiry cycle removes the keys that have expired at the node that runs it, and nothing
  else. Let the running node be intact (none of its buckets has evicted, no bucket name is a
  prefix of another); the mutex of the bucket table is
  left aside here (with a bucket created meanwhile the cycle may block: \<open>expiry_deadlock\<close>).
  Then the cycle returns, and at every intact node exactly those keys
  disappear that are expired in the running node's store, have the node among their replicas,
  and whose deletion gets through to it; the expiry times the other node itself has for
  these keys play no part.
\<close>

theorem expiry_cycle_effect:
  assumes "gob_laws env" and "schedules env" and "running env self cl c" and "refines c A"
    and "visits enum (dom A)"
  shows "\<exists>cl'. ttlEvictionWorkerTask env enum self cl = Ret (Inr ()) cl'
    \<and> (\<forall>n d B. cl n = Some d \<longrightarrow> refines d B \<longrightarrow>
        (\<exists>d'. cl' n = Some d' \<and> refines d' (prune {(b, k) \<in> expired_at (e_clock env self) A.
          n \<in> set (replica_ids env self c b k) \<and> reaches env self n} B)))"
proof -
  from assms(4) obtain L where ok: "cache_ok c L" and A: "A = store_of c L" by (auto simp: refines_def)
  from assms(3) have c: "cl self = Some c" by (simp add: running_def)
  have dom: "dom (lruBuckets c) = dom A" unfolding A by (rule dom_store_of [symmetric])
  have "{(b, k) \<in> expired_at (e_clock env self) A. b \<in> set (enum (dom A))} = expired_at (e_clock env self) A"
    using assms(5) by (auto simp: visits_def expired_at_def)
  moreover from collect_expired_entries [OF ok, of "e_clock env self" "enum (dom A)", folded A] obtain bs where
    bs: "collect_expired (e_clock env self) c (enum (dom A)) = Some bs"
    and keys: "{(b, k). \<exists>keys. (b, keys) \<in> set bs \<and> k \<in> set keys}
      = {(b, k) \<in> expired_at (e_clock env self) A. b \<in> set (enum (dom A))}" by blast
  ultimately have keys: "{(b, k). \<exists>keys. (b, keys) \<in> set bs \<and> k \<in> set keys} = expired_at (e_clock env self) A"
    by simp
  from evict_all_effect [OF assms(1-4), of bs] obtain cl' where
    "evict_all env self bs cl = Ret (Inr ()) cl'"
    and "pruned (removed env self c (expired_at (e_clock env self) A)) cl cl'"
    unfolding keys by blast
  with c bs dom show ?thesis
    by (intro exI [of _ cl']) (simp add: ttlEvictionWorkerTask_def pruned_def removed_def)
qed

section \<open>Witnesses\<close>

lemma setLocal_conf:
  "setLocal now b k v ttl c = Ret r c' \<Longrightarrow> nodeId c' = nodeId c \<and> replicas c' = replicas c"
  by (auto simp: setLocal_def GetBucket_def cache_updates Let_def evictTail_def
      split: option.split_asm if_split_asm)

lemma as_value_Ret: "as_value out = Ret r c' \<Longrightarrow> \<exists>q. out = Ret q c'"
  by (auto simp: as_value_def split: outcome.split_asm sum.split_asm)

lemma exec_conf: "exec op c = Ret r c' \<Longrightarrow> nodeId c' = nodeId c \<and> replicas c' = replicas c"
  by (cases op) (auto dest!: as_value_Ret setLocal_conf deleteLocal_conf simp: CreateBucket_def getLocal_def
      setTtlLocal_def GetBucket_def cache_updates Let_def split: option.split_asm if_split_asm)

lemma run_conf: "run local_step ops c = Some (rs, c') \<Longrightarrow> nodeId c' = nodeId c \<and> replicas c' = replicas c"
proof (induction ops arbitrary: c rs)
  case (Cons op ops)
  then obtain r c1 rs1 where step: "local_step op c = Some (r, c1)"
    and rest: "run local_step ops c1 = Some (rs1, c')"
    by (auto split: option.splits)
  from step have "exec op c = Ret r c1" by (auto simp: local_step_def returned_def split: outcome.splits)
  from exec_conf [OF this] Cons.IH [OF rest] show ?case by simp
qed simp

lemma state_after_conf:
  assumes "guarded admissible a_exec ops Map.empty"
  shows "nodeId (state_after ops (initCache n r)) = n \<and> replicas (state_after ops (initCache n r)) = r"
  using local_store.run_simulates [OF refines_initCache assms, of n r] run_conf
  by (fastforce simp: state_after_def initCache_def)

text \<open>A node with the key \<open>k\<close>, which expires at the instant \<open>- 4\<close>; the clocks show 0.\<close>

definition old_key :: "string \<Rightarrow> cache" where
  "old_key n = state_after [OpCreate ''s'' 0 2, OpSet (- 9) ''s'' ''k'' (AInt 1) 5] (initCache n 3)"

lemma old_key:
  "refines (old_key n) [''s'' \<mapsto> (2, [(''k'', AInt 1, Some (- 4))])]"
  "nodeId (old_key n) = n" "replicas (old_key n) = 3"
  using refines_state_after [of "[OpCreate ''s'' 0 2, OpSet (- 9) ''s'' ''k'' (AInt 1) 5]" n 3]
    state_after_conf [of "[OpCreate ''s'' 0 2, OpSet (- 9) ''s'' ''k'' (AInt 1) 5]" n 3]
  by (simp_all add: old_key_def spec_eval)

lemma old_key_running:
  "running four_env ''a'' (four_nodes(''a'' \<mapsto> old_key ''a'')) (old_key ''a'')"
  "running (demo_env (\<lambda>_. Up) rev) ''a'' ((demo_cluster 3)(''a'' \<mapsto> old_key ''a'')) (old_key ''a'')"
  by (simp_all add: running_def old_key four_peers_def demo_peers_def)

lemma toy_clock [simp]: "e_clock (toy_env hash peers lnk sched) = (\<lambda>_. 0)"
  by (simp add: toy_env_def)

text \<open>A node whose bucket is full.\<close>

definition two_keys :: "string \<Rightarrow> cache" where
  "two_keys n = state_after [OpCreate ''s'' 0 2, OpSet 5 ''s'' ''a'' (AInt 1) 0,
     OpSet 6 ''s'' ''b'' (AInt 2) 0] (initCache n 3)"

lemma two_keys:
  "refines (two_keys n) [''s'' \<mapsto> (2, [(''b'', AInt 2, None)] @ [(''a'', AInt 1, None)])]"
  "nodeId (two_keys n) = n" "replicas (two_keys n) = 3"
  using refines_state_after [of "[OpCreate ''s'' 0 2, OpSet 5 ''s'' ''a'' (AInt 1) 0, OpSet 6 ''s'' ''b'' (AInt 2) 0]" n 3]
    state_after_conf [of "[OpCreate ''s'' 0 2, OpSet 5 ''s'' ''a'' (AInt 1) 0, OpSet 6 ''s'' ''b'' (AInt 2) 0]" n 3]
  by (simp_all add: two_keys_def spec_eval)

lemma visits_one: "visits (\<lambda>_. [x]) {x}"
  by (simp add: visits_def)

theorem rebalancer_keeps_own_keys_witness:
  "\<exists>cl' c'. rebalancerWorkerTask four_env (\<lambda>_. [''s'']) 2 ''a'' (four_nodes(''a'' \<mapsto> old_key ''a'')) = Ret (Inr ()) cl'
     \<and> cl' ''a'' = Some c' \<and> refines c' [''s'' \<mapsto> (2, [])]"
proof -
  have ids: "replica_ids four_env ''a'' (old_key ''a'') ''s'' ''k'' = [''d'', ''c'', ''b'']"
    using replica_ids_conf [of "old_key ''a''" "demo_node 3 ''a''"] four_ids
    by (simp add: old_key) (simp add: demo_node_def initCache_def)
  have "(\<lambda>b. map_option (map_prod id (still_here (replica_ids four_env ''a'' (old_key ''a'') b) ''a''))
      ([''s'' \<mapsto> (2 :: int, [(''k'', AInt 1, Some (- 4))])] b)) = [''s'' \<mapsto> (2, [])]"
    by (auto simp: fun_eq_iff still_here_def ids)
  with rebalancer_keeps_own_keys [OF old_key_running(1) old_key(1), of "\<lambda>_. [''s'']" 2]
  show ?thesis by (auto simp: visits_one entries_def)
qed

theorem rebalancer_replicates_key_witness:
  "\<exists>st' cl'. rebalance_key (demo_env (\<lambda>_. Up) rev) ''a'' ''s'' \<lparr>ksKey = ''k'', ksData = AInt 7, ksExpiresAt = Some 9\<rparr>
       \<lparr>keysProcessed = 0, keysDeleted = 0, replicationAttempts = 0, replicationErrors = 0\<rparr> (demo_cluster 3)
     = Ret (Inr st') cl' \<and> holds cl' ''b'' ''s'' ''k'' (AInt 7) \<and> deadline cl' ''b'' ''s'' ''k'' (Some 9)"
proof -
  let ?ks = "\<lparr>ksKey = ''k'', ksData = AInt 7, ksExpiresAt = Some 9\<rparr>"
  have run: "running (demo_env (\<lambda>_. Up) rev) ''a'' (demo_cluster 3) (demo_node 3 ''a'')"
    by (rule demo_running) simp
  have self: "''a'' \<in> set (replica_ids (demo_env (\<lambda>_. Up) rev) ''a'' (demo_node 3 ''a'') ''s'' (ksKey ?ks))"
    by (simp add: demo_ids)
  have alive: "\<forall>t. ksExpiresAt ?ks = Some t \<longrightarrow> e_clock (demo_env (\<lambda>_. Up) rev) ''a'' < t"
    "gob_registered (ksData ?ks)" by (simp_all add: toy_clock)
  have b: "''b'' \<in> set (replica_ids (demo_env (\<lambda>_. Up) rev) ''a'' (demo_node 3 ''a'') ''s'' (ksKey ?ks))"
    "''b'' \<noteq> ''a''" "ready (demo_env (\<lambda>_. Up) rev) ''a'' ''s'' (demo_cluster 3) ''b''"
    "demo_cluster 3 ''b'' = Some (demo_node 3 ''b'')" "nodeId (demo_node 3 ''b'') = ''b''"
    by (simp_all add: demo_ids demo_ready) (simp_all add: demo_cluster_def demo_node_def initCache_def)
  from rebalancer_replicates_key [OF toy_gob_laws run self alive,
      of "\<lparr>keysProcessed = 0, keysDeleted = 0, replicationAttempts = 0, replicationErrors = 0\<rparr>"]
  show ?thesis
  proof (elim exE conjE)
    fix st' cl'
    assume step: "rebalance_key (demo_env (\<lambda>_. Up) rev) ''a'' ''s'' ?ks
        \<lparr>keysProcessed = 0, keysDeleted = 0, replicationAttempts = 0, replicationErrors = 0\<rparr> (demo_cluster 3)
        = Ret (Inr st') cl'"
      and others: "\<forall>n d. n \<in> set (replica_ids (demo_env (\<lambda>_. Up) rev) ''a'' (demo_node 3 ''a'') ''s'' (ksKey ?ks))
        \<longrightarrow> n \<noteq> ''a'' \<longrightarrow> ready (demo_env (\<lambda>_. Up) rev) ''a'' ''s'' (demo_cluster 3) n
        \<longrightarrow> demo_cluster 3 n = Some d \<longrightarrow> nodeId d = n \<longrightarrow> can_store d ''s'' (ksKey ?ks)
        \<longrightarrow> e_clock (demo_env (\<lambda>_. Up) rev) n = e_clock (demo_env (\<lambda>_. Up) rev) ''a''
        \<longrightarrow> holds cl' n ''s'' (ksKey ?ks) (ksData ?ks) \<and> deadline cl' n ''s'' (ksKey ?ks) (ksExpiresAt ?ks)"
    from others [rule_format, OF b demo_can_store [OF b(4)]] have
      "holds cl' ''b'' ''s'' (ksKey ?ks) (ksData ?ks) \<and> deadline cl' ''b'' ''s'' (ksKey ?ks) (ksExpiresAt ?ks)"
      by (simp only: toy_clock)
    with step show ?thesis by auto
  qed
qed

theorem rebalancer_resends_evicted_witness:
  "\<exists>c' ks st' cl'. setLocal 9 ''s'' ''c'' (AInt 3) 0 (two_keys ''a'') = Ret (Inr ()) c' \<and> ksKey ks = ''a''
     \<and> rebalance_key (demo_env (\<lambda>_. Up) rev) ''a'' ''s'' ks
         \<lparr>keysProcessed = 0, keysDeleted = 0, replicationAttempts = 0, replicationErrors = 0\<rparr>
         ((demo_cluster 3)(''a'' \<mapsto> c')) = Ret (Inr st') cl'
     \<and> holds cl' ''b'' ''s'' ''a'' ANil"
proof -
  let ?env = "demo_env (\<lambda>_. Up) rev" and ?es = "[(''b'', AInt 2, None)]"
  have A: "[''s'' \<mapsto> (2 :: int, ?es @ [(''a'', AInt 1, None)])] ''s'' = Some (2, ?es @ [(''a'', AInt 1, None)])"
    by simp
  from setLocal_full_returns [OF two_keys(1) A, of "''c''" 9 "AInt 3" 0] obtain c' where
    set: "setLocal 9 ''s'' ''c'' (AInt 3) 0 (two_keys ''a'') = Ret (Inr ()) c'" by (auto simp: lookup_def)
  from setLocal_conf [OF set] have conf: "nodeId c' = ''a''" "replicas c' = 3" by (simp_all add: two_keys)
  then have ids: "set (replica_ids ?env ''a'' c' b k) = {''a'', ''b'', ''c''}" for b k
    using replica_ids_conf [of c' "demo_node 3 ''a''"] demo_ids(1)
    by (simp add: demo_node_def initCache_def)
  let ?cl = "(demo_cluster 3)(''a'' \<mapsto> c')"
  have run: "running ?env ''a'' ?cl c'" by (simp add: running_def conf demo_peers_def)
  have b: "?cl ''b'' = Some (demo_node 3 ''b'')" "nodeId (demo_node 3 ''b'') = ''b''"
    by (simp_all add: demo_cluster_def demo_node_def initCache_def)
  have ready: "ready ?env ''a'' ''s'' ?cl ''b''"
    by (simp add: ready_def demo_cluster_def demo_node_def demo_peers_def)
  have can: "can_store (demo_node 3 ''b'') ''s'' ''a''"
    by (rule demo_can_store [of 3 "''b''"]) (simp add: demo_cluster_def)
  have hyps: "int (length ?es) + 1 = 2" "lookup ''c'' (?es @ [(''a'', AInt 1, None)]) = None"
    "''a'' \<in> set (replica_ids ?env ''a'' c' ''s'' ''a'')" "\<forall>t. None = Some t \<longrightarrow> e_clock ?env ''a'' < t"
    "''b'' \<in> set (replica_ids ?env ''a'' c' ''s'' ''a'')" "''b'' \<noteq> ''a''"
    "e_clock ?env ''b'' = e_clock ?env ''a''"
    by (simp_all add: ids lookup_def)
  from rebalancer_resends_evicted [where n = "''b''" and d = "demo_node 3 ''b''" and cl = ?cl and b = "''s''",
      OF two_keys(1) A hyps(1,2) set toy_gob_laws run hyps(3-6) ready b can hyps(7)] set
  show ?thesis by blast
qed

theorem expiry_cycle_effect_witness:
  "\<exists>cl' d'. ttlEvictionWorkerTask (demo_env (\<lambda>_. Up) rev) (\<lambda>_. [''s'']) ''a'' ((demo_cluster 3)(''a'' \<mapsto> old_key ''a''))
     = Ret (Inr ()) cl' \<and> cl' ''a'' = Some d' \<and> refines d' [''s'' \<mapsto> (2, [])]"
proof -
  let ?env = "demo_env (\<lambda>_. Up) rev" and ?A = "[''s'' \<mapsto> (2 :: int, [(''k'', AInt 1, Some (- 4))])]"
  have ids: "set (replica_ids ?env ''a'' (old_key ''a'') b k) = {''a'', ''b'', ''c''}" for b k
    using replica_ids_conf [of "old_key ''a''" "demo_node 3 ''a''"] demo_ids(1)
    by (simp add: old_key) (simp add: demo_node_def initCache_def)
  have p: "prune {(b, k) \<in> expired_at (e_clock ?env ''a'') ?A.
      ''a'' \<in> set (replica_ids ?env ''a'' (old_key ''a'') b k) \<and> reaches ?env ''a'' ''a''} ?A = [''s'' \<mapsto> (2, [])]"
    by (auto simp: prune_def fun_eq_iff expired_at_def ids reaches_def expired_def)
  have hyps: "schedules ?env" "visits (\<lambda>_. [''s'']) (dom ?A)" "((demo_cluster 3)(''a'' \<mapsto> old_key ''a'')) ''a'' = Some (old_key ''a'')"
    by (simp_all add: visits_one)
  from expiry_cycle_effect [OF toy_gob_laws hyps(1) old_key_running(2) old_key(1) hyps(2)]
  show ?thesis
  proof (elim exE conjE)
    fix cl'
    assume run: "ttlEvictionWorkerTask ?env (\<lambda>_. [''s'']) ''a'' ((demo_cluster 3)(''a'' \<mapsto> old_key ''a'')) = Ret (Inr ()) cl'"
      and all: "\<forall>n d B. ((demo_cluster 3)(''a'' \<mapsto> old_key ''a'')) n = Some d \<longrightarrow> refines d B \<longrightarrow>
        (\<exists>d'. cl' n = Some d' \<and> refines d' (prune {(b, k) \<in> expired_at (e_clock ?env ''a'') ?A.
          n \<in> set (replica_ids ?env ''a'' (old_key ''a'') b k) \<and> reaches ?env ''a'' n} B))"
    from all [rule_format, OF hyps(3) old_key(1)] run show ?thesis unfolding p by blast
  qed
qed

section \<open>The last copy\<close>

definition stored :: "cluster \<Rightarrow> string \<Rightarrow> string \<Rightarrow> string \<Rightarrow> bool" where
  "stored cl n b k = (case cl n of None \<Rightarrow> False | Some d \<Rightarrow> keyVal d (b @ k) \<noteq> None)"

lemma refined_index:
  assumes "refines d A" and "A b = Some (cap, es)"
  shows "keyVal d (b @ k) \<noteq> None \<longleftrightarrow> lookup k es \<noteq> None"
proof -
  obtain L where ok: "cache_ok d L" and A: "A = store_of d L" using assms(1) by (auto simp: refines_def)
  obtain bk where bk: "lruBuckets d b = Some bk" "es = map (entry_of (heapOf d)) (L b)"
    using assms(2) unfolding A store_of_Some by blast
  show ?thesis using lookup_index [OF ok bk(1), of k] bk(2) by (cases "keyVal d (b @ k)") simp_all
qed

text \<open>
  C8: The rebalancer gives a copy away without having handed it over. When the only node that
  holds a key handles it in a cycle, the key is still stored somewhere afterwards exactly if the node is
  still one of its replicas: a node that has ceased to be one (with one replica per key: as soon as
  a node joins that ranks higher) deletes the last copy, and no node has the key any more.
\<close>

theorem rebalancer_drops_last_copy:
  assumes run: "running env self cl c" and ref: "refines c A" and A: "A b = Some (cap, es)"
    and k: "lookup (ksKey ks) es \<noteq> None" and only: "\<forall>n. n \<noteq> self \<longrightarrow> \<not> stored cl n b (ksKey ks)"
  shows "\<exists>st' cl'. rebalance_key env self b ks st cl = Ret (Inr st') cl'
    \<and> ((\<exists>n. stored cl' n b (ksKey ks)) \<longleftrightarrow> self \<in> set (replica_ids env self c b (ksKey ks)))"
proof -
  obtain st' cl' c' where step: "rebalance_key env self b ks st cl = Ret (Inr st') cl'"
    and c': "running env self cl' c'" and ref': "refines c' (A(b \<mapsto> (cap, if self \<in> set (replica_ids env self c b (ksKey ks)) then es
        else a_without (ksKey ks) es)))"
    using rebalance_key_self [OF run ref A, of ks st] by blast
  have self: "stored cl' self b (ksKey ks) \<longleftrightarrow> self \<in> set (replica_ids env self c b (ksKey ks))"
    using c' refined_index [OF ref', of b cap] k
    by (auto simp: stored_def running_def lookup_def a_without_def map_of_eq_None_iff)
  show ?thesis
  proof (cases "self \<in> set (replica_ids env self c b (ksKey ks))")
    case True
    with step self show ?thesis by blast
  next
    case False
    have "cl' n = cl n" if "n \<noteq> self" for n
      using step False that running_ids(2) [OF run] run
      by (auto simp: rebalance_key_def topReplicas_ids Let_def at_self_def running_def split: outcome.split_asm)
    with only self False have "\<not> stored cl' n b (ksKey ks)" for n by (cases "n = self") (simp_all add: stored_def)
    with step False show ?thesis by blast
  qed
qed

theorem rebalancer_drops_last_copy_witness:
  "(\<exists>n. stored (four_nodes(''a'' \<mapsto> old_key ''a'')) n ''s'' ''k'')
     \<and> (\<exists>st' cl'. rebalance_key four_env ''a'' ''s'' \<lparr>ksKey = ''k'', ksData = AInt 1, ksExpiresAt = Some 3\<rparr>
         \<lparr>keysProcessed = 0, keysDeleted = 0, replicationAttempts = 0, replicationErrors = 0\<rparr>
         (four_nodes(''a'' \<mapsto> old_key ''a'')) = Ret (Inr st') cl' \<and> \<not> (\<exists>n. stored cl' n ''s'' ''k''))"
proof -
  let ?ks = "\<lparr>ksKey = ''k'', ksData = AInt 1, ksExpiresAt = Some (3 :: int)\<rparr>"
  let ?st = "\<lparr>keysProcessed = 0, keysDeleted = 0, replicationAttempts = 0, replicationErrors = 0\<rparr>"
  have ids: "replica_ids four_env ''a'' (old_key ''a'') ''s'' ''k'' = [''d'', ''c'', ''b'']"
    using replica_ids_conf [of "old_key ''a''" "demo_node 3 ''a''"] four_ids
    by (simp add: old_key) (simp add: demo_node_def initCache_def)
  have own: "stored (four_nodes(''a'' \<mapsto> old_key ''a'')) ''a'' ''s'' (ksKey ?ks)"
    using refined_index [OF old_key(1) [of "''a''"], of "''s''" 2 _ "''k''"] by (simp add: stored_def lookup_def)
  have only: "\<forall>n. n \<noteq> ''a'' \<longrightarrow> \<not> stored (four_nodes(''a'' \<mapsto> old_key ''a'')) n ''s'' (ksKey ?ks)"
    by (simp add: stored_def four_nodes_def demo_node_def initCache_def)
  have "\<exists>st' cl'. rebalance_key four_env ''a'' ''s'' ?ks ?st (four_nodes(''a'' \<mapsto> old_key ''a'')) = Ret (Inr st') cl'
      \<and> ((\<exists>n. stored cl' n ''s'' (ksKey ?ks))
         \<longleftrightarrow> ''a'' \<in> set (replica_ids four_env ''a'' (old_key ''a'') ''s'' (ksKey ?ks)))"
    by (rule rebalancer_drops_last_copy [OF old_key_running(1) old_key(1) _ _ only,
          where cap = 2 and es = "[(''k'', AInt 1, Some (- 4))]"]) (simp_all add: lookup_def)
  with own show ?thesis by (auto simp: ids)
qed

end
