(* ===== verification/Convergence.thy ===== *)
theory Convergence
  imports Maintenance
begin

text \<open>
  A round of the rebalancer over the whole cluster (\<open>internal/mycel/rebalancer.go\<close>): every node
  runs a cycle, one after the other in any order, while all links work and the buckets have room.
  Where a key is afterwards depends only on where it was.
\<close>

section \<open>Nodes by the keys they hold\<close>

text \<open>An entry that every node accepts and that has not expired.\<close>

fun live :: "instant \<Rightarrow> entry \<Rightarrow> bool" where
  "live now (k, v, t) = (gob_registered v \<and> (case t of None \<Rightarrow> True | Some u \<Rightarrow> now < u))"

text \<open>
  Node \<open>n\<close> has the buckets \<open>B\<close>, which hold the keys \<open>K\<close> among the keys \<open>U\<close> of the cluster, all
  entries live, and have room for all of \<open>U\<close>.
\<close>

definition node_holds :: "instant \<Rightarrow> (string \<Rightarrow> string set) \<Rightarrow> string set \<Rightarrow> nat \<Rightarrow> string \<Rightarrow> (string \<Rightarrow> string set) \<Rightarrow> cache \<Rightarrow> bool" where
  "node_holds now U B r n K d \<longleftrightarrow> nodeId d = n \<and> replicas d = r \<and> (\<exists>A. refines d A \<and> dom A = B
     \<and> (\<forall>b cap es. A b = Some (cap, es) \<longrightarrow>
          int (card (U b)) \<le> cap \<and> keys_of es = K b \<and> K b \<subseteq> U b \<and> (\<forall>e \<in> set es. live now e)))"

lemma refines_distinct:
  assumes "refines c A" and "A b = Some (cap, es)"
  shows "distinct (map fst es)"
proof -
  obtain L where ok: "cache_ok c L" and A: "A = store_of c L" using assms(1) by (auto simp: refines_def)
  then have "map fst es = map (\<lambda>a. nkey (heapOf c a)) (L b)" using assms(2) unfolding A store_of_Some by auto
  then show ?thesis using cache_ok_distinct [OF ok] inj_on_keys [OF ok] by (simp add: distinct_map)
qed

lemma refines_length:
  assumes "refines c A" and "A b = Some (cap, es)"
  shows "length es = card (keys_of es)"
  using distinct_card [OF refines_distinct [OF assms]] by (simp add: keys_of_def)

lemma lookup_keys: "lookup k es = None \<longleftrightarrow> k \<notin> keys_of es"
  by (auto simp: lookup_def keys_of_def map_of_eq_None_iff)

lemma node_holds_same_store: "same_store d d' \<Longrightarrow> node_holds now U B r n K d \<Longrightarrow> node_holds now U B r n K d'"
proof -
  assume same: "same_store d d'"
  have "refines d A \<Longrightarrow> refines d' A" for A by (rule refines_same_store [OF same])
  moreover have "nodeId d' = nodeId d" "replicas d' = replicas d" using same by (simp_all add: same_store_def)
  moreover assume "node_holds now U B r n K d"
  ultimately show ?thesis unfolding node_holds_def by metis
qed

lemma node_holds_stored:
  assumes "node_holds now U B r n K d" and "b \<in> B"
  shows "keyVal d (b @ k) \<noteq> None \<longleftrightarrow> k \<in> K b"
proof -
  obtain A where A: "refines d A" "dom A = B" "\<And>b cap es. A b = Some (cap, es) \<Longrightarrow> keys_of es = K b"
    using assms(1) unfolding node_holds_def by blast
  obtain cap es where "A b = Some (cap, es)" using A(2) assms(2) by (metis domD surj_pair)
  then show ?thesis using refined_index [OF A(1)] A(3) lookup_keys by metis
qed

lemma node_set:
  assumes node: "node_holds now U B r n K d" and b: "b \<in> B" and fin: "finite (U b)" and k: "k \<in> U b"
    and v: "live now (k, v, expiry now ttl)"
  shows "\<exists>d'. setLocal now b k v ttl d = Ret (Inr ()) d' \<and> node_holds now U B r n (K(b := insert k (K b))) d'"
proof -
  obtain A where A: "refines d A" "dom A = B" and each: "\<And>b cap es. A b = Some (cap, es) \<Longrightarrow>
      int (card (U b)) \<le> cap \<and> keys_of es = K b \<and> K b \<subseteq> U b \<and> (\<forall>e \<in> set es. live now e)"
    and conf: "nodeId d = n" "replicas d = r"
    using node unfolding node_holds_def by blast
  obtain cap es where es: "A b = Some (cap, es)" using A(2) b by (metis domD surj_pair)
  note E = each [OF es]
  have room: "int (length es) < cap" if "lookup k es = None"
  proof -
    have "k \<notin> K b" using that E lookup_keys by metis
    then have "Suc (card (K b)) = card (insert k (K b))" using E fin finite_subset by (metis card_insert_disjoint)
    also have "\<dots> \<le> card (U b)" using E k fin by (intro card_mono) auto
    finally show ?thesis using refines_length [OF A(1) es] E by simp
  qed
  have "admissible (OpSet now b k v ttl) A" using es room by (cases "lookup k es") auto
  from op_refines [OF A(1) this] obtain d' where
    run: "as_value (setLocal now b k v ttl d) = Ret (Inr ANil) d'"
    and ref: "refines d' (put_entries A b (a_set k v (expiry now ttl) es))"
    using es by (auto simp: entries_def)
  then have set: "setLocal now b k v ttl d = Ret (Inr ()) d'"
    by (auto simp: as_value_def split: outcome.split_asm sum.split_asm)
  let ?A = "A(b \<mapsto> (cap, a_set k v (expiry now ttl) es))"
  have ref': "refines d' ?A" using ref es by (simp add: put_entries_def)
  have dom: "dom ?A = B" using A(2) b by auto
  have new: "keys_of (a_set k v (expiry now ttl) es) = insert k (K b)" "\<forall>e \<in> set (a_set k v (expiry now ttl) es). live now e"
    using E v by (auto simp: a_set_def a_without_def keys_of_def simp del: live.simps)
  have "int (card (U b')) \<le> cap' \<and> keys_of es' = (K(b := insert k (K b))) b' \<and> (K(b := insert k (K b))) b' \<subseteq> U b'
      \<and> (\<forall>e \<in> set es'. live now e)" if "?A b' = Some (cap', es')" for b' cap' es'
  proof (cases "b' = b")
    case True
    with that have "cap' = cap" "es' = a_set k v (expiry now ttl) es" by simp_all
    with True E new k show ?thesis by simp
  next
    case False
    with that have "A b' = Some (cap', es')" by simp
    from each [OF this] False show ?thesis by simp
  qed
  then have "node_holds now U B r n (K(b := insert k (K b))) d'"
    unfolding node_holds_def using setLocal_conf [OF set] conf ref' dom by blast
  with set show ?thesis by blast
qed

lemma node_delete:
  assumes node: "node_holds now U B r n K d" and b: "b \<in> B"
  shows "\<exists>q d'. deleteLocal b k d = Ret q d' \<and> node_holds now U B r n (K(b := K b - {k})) d'"
proof -
  obtain A where A: "refines d A" "dom A = B" and each: "\<And>b cap es. A b = Some (cap, es) \<Longrightarrow>
      int (card (U b)) \<le> cap \<and> keys_of es = K b \<and> K b \<subseteq> U b \<and> (\<forall>e \<in> set es. live now e)"
    and conf: "nodeId d = n" "replicas d = r"
    using node unfolding node_holds_def by blast
  obtain cap es where es: "A b = Some (cap, es)" using A(2) b by (metis domD surj_pair)
  note E = each [OF es]
  obtain q d' where del: "deleteLocal b k d = Ret q d'" and ref: "refines d' (A(b \<mapsto> (cap, a_without k es)))"
    and conf': "nodeId d' = nodeId d" "replicas d' = replicas d"
    using deleteLocal_refines [OF A(1) es, of k] by blast
  let ?A = "A(b \<mapsto> (cap, a_without k es))"
  have dom: "dom ?A = B" using A(2) b by auto
  have new: "keys_of (a_without k es) = K b - {k}" "\<forall>e \<in> set (a_without k es). live now e"
    using E by (auto simp: a_without_def keys_of_def simp del: live.simps)
  have "int (card (U b')) \<le> cap' \<and> keys_of es' = (K(b := K b - {k})) b' \<and> (K(b := K b - {k})) b' \<subseteq> U b'
      \<and> (\<forall>e \<in> set es'. live now e)" if "?A b' = Some (cap', es')" for b' cap' es'
  proof (cases "b' = b")
    case True
    with that have "cap' = cap" "es' = a_without k es" by simp_all
    with True E new show ?thesis by auto
  next
    case False
    with that have "A b' = Some (cap', es')" by simp
    from each [OF this] False show ?thesis by simp
  qed
  then have "node_holds now U B r n (K(b := K b - {k})) d'"
    unfolding node_holds_def using conf conf' ref dom by metis
  with del show ?thesis by blast
qed

section \<open>The cluster\<close>

definition cluster_holds :: "instant \<Rightarrow> (string \<Rightarrow> string set) \<Rightarrow> string set \<Rightarrow> nat \<Rightarrow> string set
    \<Rightarrow> (string \<Rightarrow> string \<Rightarrow> string set) \<Rightarrow> cluster \<Rightarrow> bool" where
  "cluster_holds now U B r N K cl \<longleftrightarrow> (\<forall>n \<in> N. \<exists>d. cl n = Some d \<and> node_holds now U B r n (K n) d)"

text \<open>The replicas of a key among the nodes \<open>ns\<close>.\<close>

definition replica_set :: "env \<Rightarrow> string list \<Rightarrow> nat \<Rightarrow> string \<Rightarrow> string \<Rightarrow> string set" where
  "replica_set env ns r b k = set (take r (ranking (e_hash env) (routingKey b k) ns))"

text \<open>
  A settled cluster: every node is connected to all the others over working links, the clocks agree,
  and no two nodes have the same score for a key.
\<close>

definition mesh :: "env \<Rightarrow> string list \<Rightarrow> nat \<Rightarrow> instant \<Rightarrow> (string \<Rightarrow> string set) \<Rightarrow> string set \<Rightarrow> bool" where
  "mesh env ns r now U B \<longleftrightarrow> 0 < r \<and> finite B
     \<and> (\<forall>n \<in> set ns. set (e_peers env n) = set ns - {n} \<and> distinct (e_peers env n) \<and> e_clock env n = now \<and> e_link env n = Up)
     \<and> (\<forall>b \<in> B. finite (U b) \<and> (\<forall>k \<in> U b. well_scored (e_hash env) (routingKey b k) ns))"

lemma mesh_running:
  assumes "mesh env ns r now U B" and "n \<in> set ns" and "cl n = Some d" and "node_holds now U B r n K d"
  shows "running env n cl d"
  using assms by (auto simp: mesh_def running_def node_holds_def)

lemma mesh_ids:
  assumes mesh: "mesh env ns r now U B" and n: "n \<in> set ns" and d: "node_holds now U B r n K d"
    and b: "b \<in> B" and k: "k \<in> U b"
  shows "set (replica_ids env n d b k) = replica_set env ns r b k"
proof -
  have conf: "nodeId d = n" "replicas d = r" using d by (auto simp: node_holds_def)
  have "distinct (members (e_peers env n) d)" "set (members (e_peers env n) d) = set ns"
    using mesh n conf by (auto simp: mesh_def members_def)
  moreover have "well_scored (e_hash env) (routingKey b k) ns" using mesh b k by (auto simp: mesh_def)
  ultimately have "ranking (e_hash env) (routingKey b k) (members (e_peers env n) d)
      = ranking (e_hash env) (routingKey b k) ns" by (intro ranking_unique)
  then show ?thesis by (simp add: replica_ids_def getReplicaNodes_ranking replica_set_def conf)
qed

lemma replica_set_nodes: "replica_set env ns r b k \<subseteq> set ns"
  using set_take_subset [of r "ranking (e_hash env) (routingKey b k) ns"] by (simp add: replica_set_def ranking_def)

text \<open>What the keys \<open>T\<close> of node \<open>n\<close>, handled by the rebalancer there, do to the keys of every node.\<close>

definition after_handling :: "(string \<Rightarrow> string \<Rightarrow> string set) \<Rightarrow> string \<Rightarrow> (string \<Rightarrow> string set)
    \<Rightarrow> (string \<Rightarrow> string \<Rightarrow> string set) \<Rightarrow> string \<Rightarrow> string \<Rightarrow> string set" where
  "after_handling R n T K m b = (if m = n then K n b - {k \<in> T b. n \<notin> R b k}
     else K m b \<union> {k \<in> T b. n \<in> R b k \<and> m \<in> R b k})"

lemma after_handling_twice:
  "after_handling R n T2 (after_handling R n T1 K) = after_handling R n (\<lambda>b. T1 b \<union> T2 b) K"
  by (auto simp: after_handling_def fun_eq_iff)

lemma after_handling_none: "after_handling R n (\<lambda>_. {}) K = K"
  by (simp add: after_handling_def fun_eq_iff)

lemma setRemote_at:
  assumes gob: "gob_laws env" and link: "m \<in> set (e_peers env n)" "e_link env m = Up" and d: "cl m = Some d" "nodeId d = m"
    and v: "gob_registered v" and set: "setLocal (e_clock env m) b k v ttl d = Ret (Inr ()) d'"
  shows "snd (setRemoteToNode env n b k v ttl m cl) m = Some d'"
  using link d v set by (simp add: setRemoteToNode_deliver [OF gob] Let_def deliver_def)

lemma handle_key:
  assumes mesh: "mesh env ns r now U B" and gob: "gob_laws env" and n: "n \<in> set ns"
    and holds: "cluster_holds now U B r (set ns) K cl" and b: "b \<in> B" and k: "ksKey ks \<in> U b"
    and live: "live now (ksKey ks, ksData ks, ksExpiresAt ks)"
  shows "\<exists>st' cl'. rebalance_key env n b ks st cl = Ret (Inr st') cl'
    \<and> cluster_holds now U B r (set ns) (after_handling (replica_set env ns r) n ((\<lambda>_. {})(b := {ksKey ks})) K) cl'"
proof -
  let ?k = "ksKey ks" and ?R = "replica_set env ns r"
  let ?K = "after_handling ?R n ((\<lambda>_. {})(b := {?k})) K"
  have node: "\<exists>d. cl m = Some d \<and> node_holds now U B r m (K m) d" if "m \<in> set ns" for m
    using holds that by (auto simp: cluster_holds_def)
  obtain c where c: "cl n = Some c" and cn: "node_holds now U B r n (K n) c" using node [OF n] by blast
  have run: "running env n cl c" by (rule mesh_running [where cl = cl, OF mesh n c cn])
  have ids: "set (replica_ids env n c b ?k) = ?R b ?k" by (rule mesh_ids [OF mesh n cn b k])
  note nonempty = running_ids(2) [OF run, of b ?k]
  show ?thesis
  proof (cases "n \<in> ?R b ?k")
    case False
    obtain q c' where del: "deleteLocal b ?k c = Ret q c'" and c': "node_holds now U B r n ((K n)(b := K n b - {?k})) c'"
      using node_delete [OF cn b] by blast
    have "\<exists>st'. rebalance_key env n b ks st cl = Ret (Inr st') (cl(n \<mapsto> c'))"
      using c del False ids nonempty by (simp add: rebalance_key_def topReplicas_ids Let_def at_self_def)
    moreover have "?K n = (K n)(b := K n b - {?k})" using False by (auto simp: after_handling_def fun_eq_iff)
    moreover have "?K m = K m" if "m \<noteq> n" for m using False that by (auto simp: after_handling_def fun_eq_iff)
    ultimately show ?thesis using c' node by (auto simp: cluster_holds_def)
  next
    case True
    define ttl where "ttl = (case ksExpiresAt ks of None \<Rightarrow> 0 | Some t \<Rightarrow> t - now)"
    have clock: "e_clock env m = now" if "m \<in> set ns" for m using mesh that by (simp add: mesh_def)
    have expiry: "expiry now ttl = ksExpiresAt ks"
      using live by (auto simp: ttl_def expiry_def split: option.split)
    let ?st = "st\<lparr>keysProcessed := Suc (keysProcessed st)\<rparr>"
    obtain st' cl' where send: "send_replicas env n b ks ttl (replica_ids env n c b ?k) ?st cl = (st', cl')" by fastforce
    have step: "rebalance_key env n b ks st cl = Ret (Inr st') cl'"
      using c True ids nonempty live send clock [OF n]
      by (cases "ksExpiresAt ks") (auto simp: rebalance_key_def topReplicas_ids Let_def ttl_def)
    note at = send_replicas_node [OF send running_ids(1) [OF run], unfolded ids]
    have "\<exists>d'. cl' m = Some d' \<and> node_holds now U B r m (?K m) d'" if m: "m \<in> set ns" for m
    proof -
      obtain d where d: "cl m = Some d" "node_holds now U B r m (K m) d" using node [OF m] by blast
      show ?thesis
      proof (cases "m \<in> ?R b ?k \<and> m \<noteq> n")
        case ins: True
        have "finite (U b)" using mesh b by (simp add: mesh_def)
        from node_set [OF d(2) b this k, of "ksData ks" ttl] live expiry obtain d' where
          set: "setLocal now b ?k (ksData ks) ttl d = Ret (Inr ()) d'"
          and d': "node_holds now U B r m ((K m)(b := insert ?k (K m b))) d'" by auto
        have "m \<in> set (e_peers env n)" "e_link env m = Up" using mesh n m ins by (auto simp: mesh_def)
        then have "cl' m = Some d'"
          using at [of m] ins setRemote_at [where cl = cl and m = m and d = d, OF gob _ _ d(1), of n "ksData ks" b ?k ttl d'] d(2) live set clock [OF m]
          by (auto simp: node_holds_def)
        moreover have "?K m = (K m)(b := insert ?k (K m b))" using True ins by (auto simp: after_handling_def fun_eq_iff)
        ultimately show ?thesis using d' by simp
      next
        case False
        then have "cl' m = Some d" using at [of m] d(1) by auto
        moreover have "?K m b' = K m b'" for b'
        proof (cases "m = n")
          case False
          with \<open>\<not> (m \<in> ?R b ?k \<and> m \<noteq> n)\<close> show ?thesis by (auto simp: after_handling_def)
        qed (use True in \<open>auto simp: after_handling_def\<close>)
        then have "?K m = K m" by (rule ext)
        ultimately show ?thesis using d(2) by simp
      qed
    qed
    then have "cluster_holds now U B r (set ns) ?K cl'" unfolding cluster_holds_def by blast
    with step show ?thesis by blast
  qed
qed

section \<open>One cycle\<close>

lemma handle_keys:
  assumes mesh: "mesh env ns r now U B" and gob: "gob_laws env" and n: "n \<in> set ns" and b: "b \<in> B"
    and "cluster_holds now U B r (set ns) K cl"
    and "\<forall>ks \<in> set kss. ksKey ks \<in> U b \<and> live now (ksKey ks, ksData ks, ksExpiresAt ks)" and "length kss \<le> left"
  shows "\<exists>st' cl'. rebalance_keys env n b kss left st cl = Ret (Inr (Some (left - length kss, st'))) cl'
    \<and> cluster_holds now U B r (set ns) (after_handling (replica_set env ns r) n ((\<lambda>_. {})(b := ksKey ` set kss)) K) cl'"
  using assms(5-)
proof (induction kss arbitrary: left st cl K)
  case Nil
  have "(\<lambda>_. {})(b := {}) = (\<lambda>_. {})" by auto
  with Nil show ?case by (simp add: after_handling_none)
next
  case (Cons ks kss)
  let ?R = "replica_set env ns r"
  obtain left' where left: "left = Suc left'" "length kss \<le> left'" using Cons.prems(3) by (cases left) auto
  have ks: "ksKey ks \<in> U b" "live now (ksKey ks, ksData ks, ksExpiresAt ks)" using Cons.prems(2) by simp_all
  obtain st1 cl1 where key: "rebalance_key env n b ks st cl = Ret (Inr st1) cl1"
    and h1: "cluster_holds now U B r (set ns) (after_handling ?R n ((\<lambda>_. {})(b := {ksKey ks})) K) cl1"
    using handle_key [OF mesh gob n Cons.prems(1) b ks] by blast
  have "\<forall>ks \<in> set kss. ksKey ks \<in> U b \<and> live now (ksKey ks, ksData ks, ksExpiresAt ks)" using Cons.prems(2) by simp
  from Cons.IH [OF h1 this left(2)] obtain st' cl' where
    rest: "rebalance_keys env n b kss left' st1 cl1 = Ret (Inr (Some (left' - length kss, st'))) cl'"
    and h': "cluster_holds now U B r (set ns) (after_handling ?R n ((\<lambda>_. {})(b := ksKey ` set kss))
        (after_handling ?R n ((\<lambda>_. {})(b := {ksKey ks})) K)) cl'" by blast
  have "(\<lambda>b'. ((\<lambda>_. {})(b := {ksKey ks})) b' \<union> ((\<lambda>_. {})(b := ksKey ` set kss)) b') = (\<lambda>_. {})(b := ksKey ` set (ks # kss))"
    by (auto simp: fun_eq_iff)
  with h' have "cluster_holds now U B r (set ns) (after_handling ?R n ((\<lambda>_. {})(b := ksKey ` set (ks # kss))) K) cl'"
    by (simp only: after_handling_twice)
  moreover have "rebalance_keys env n b (ks # kss) left st cl = Ret (Inr (Some (left - length (ks # kss), st'))) cl'"
    using key rest left by simp
  ultimately show ?case by blast
qed

lemma handle_buckets:
  assumes mesh: "mesh env ns r now U B" and gob: "gob_laws env" and n: "n \<in> set ns"
    and "cluster_holds now U B r (set ns) K cl" and "set names \<subseteq> B" and "distinct names"
    and "(\<Sum>b \<leftarrow> names. Suc (card (U b))) \<le> left"
  shows "\<exists>left' st' cl'. rebalance_buckets env n names left st cl = Ret (Inr (Some (left', st'))) cl'
    \<and> cluster_holds now U B r (set ns) (after_handling (replica_set env ns r) n (\<lambda>b. if b \<in> set names then K n b else {}) K) cl'"
  using assms(4-)
proof (induction names arbitrary: left st cl K)
  case Nil
  then show ?case by (simp add: after_handling_none)
next
  case (Cons b names)
  let ?R = "replica_set env ns r"
  obtain left1 where left: "left = Suc left1" "card (U b) + (\<Sum>b \<leftarrow> names. Suc (card (U b))) \<le> left1"
    using Cons.prems(4) by (cases left) auto
  have b: "b \<in> B" and names: "set names \<subseteq> B" "b \<notin> set names" "distinct names" using Cons.prems(2,3) by auto
  obtain c where c: "cl n = Some c" and node: "node_holds now U B r n (K n) c"
    using Cons.prems(1) n by (auto simp: cluster_holds_def)
  obtain A where A: "refines c A" "dom A = B" and each: "\<And>b cap es. A b = Some (cap, es) \<Longrightarrow>
      keys_of es = K n b \<and> K n b \<subseteq> U b \<and> (\<forall>e \<in> set es. live now e)"
    using node unfolding node_holds_def by blast
  obtain L where ok: "cache_ok c L" and AL: "A = store_of c L" using A(1) by (auto simp: refines_def)
  obtain cap es where Ab: "A b = Some (cap, es)" using A(2) b by (metis domD surj_pair)
  then obtain bk where bk: "lruBuckets c b = Some bk" and es: "es = map (entry_of (heapOf c)) (L b)"
    unfolding AL store_of_Some by blast
  note E = each [OF Ab]
  let ?kss = "map (\<lambda>(k, v, t). \<lparr>ksKey = k, ksData = v, ksExpiresAt = t\<rparr>) es"
  have snap: "snapshot_keys c bk = Some ?kss" using snapshot_entries [OF ok bk] es by simp
  have keys: "ksKey ` set ?kss = K n b" using E by (auto simp: image_image case_prod_beta' keys_of_def)
  have "ksKey ks \<in> U b \<and> live now (ksKey ks, ksData ks, ksExpiresAt ks)" if ks: "ks \<in> set ?kss" for ks
  proof -
    from ks obtain e where e: "e \<in> set es" "ks = (case e of (k, v, t) \<Rightarrow> \<lparr>ksKey = k, ksData = v, ksExpiresAt = t\<rparr>)" by auto
    obtain k v t where kvt: "e = (k, v, t)" by (cases e)
    have "k \<in> keys_of es" using e(1) kvt by (force simp: keys_of_def)
    with E e kvt show ?thesis by (auto simp del: live.simps)
  qed
  then have "\<forall>ks \<in> set ?kss. ksKey ks \<in> U b \<and> live now (ksKey ks, ksData ks, ksExpiresAt ks)" by blast
  moreover have len: "length ?kss \<le> card (U b)"
    using refines_length [OF A(1) Ab] E mesh b by (auto simp: mesh_def intro: card_mono)
  then have "length ?kss \<le> left1" using left(2) by linarith
  ultimately obtain st1 cl1 where
    one: "rebalance_keys env n b ?kss left1 st cl = Ret (Inr (Some (left1 - length ?kss, st1))) cl1"
    and h1: "cluster_holds now U B r (set ns) (after_handling ?R n ((\<lambda>_. {})(b := K n b)) K) cl1"
    using handle_keys [OF mesh gob n b Cons.prems(1), of ?kss left1 st] unfolding keys by blast
  let ?K1 = "after_handling ?R n ((\<lambda>_. {})(b := K n b)) K"
  have "(\<Sum>b \<leftarrow> names. Suc (card (U b))) \<le> left1 - length ?kss" using len left(2) by linarith
  from Cons.IH [OF h1 names(1,3) this, of st1] obtain left' st' cl' where
    rest: "rebalance_buckets env n names (left1 - length ?kss) st1 cl1 = Ret (Inr (Some (left', st'))) cl'"
    and h': "cluster_holds now U B r (set ns) (after_handling ?R n (\<lambda>b. if b \<in> set names then ?K1 n b else {}) ?K1) cl'" by blast
  have T: "(\<lambda>b'. ((\<lambda>_. {})(b := K n b)) b' \<union> (if b' \<in> set names then ?K1 n b' else {}))
      = (\<lambda>b'. if b' \<in> set (b # names) then K n b' else {})"
    using names(2) by (auto simp: fun_eq_iff after_handling_def)
  have "cluster_holds now U B r (set ns) (after_handling ?R n (\<lambda>b'. if b' \<in> set (b # names) then K n b' else {}) K) cl'"
    using h' unfolding after_handling_twice T .
  moreover have "rebalance_buckets env n (b # names) left st cl = Ret (Inr (Some (left', st'))) cl'"
    using left(1) c bk snap one rest by simp
  ultimately show ?case by blast
qed

definition after_cycle :: "(string \<Rightarrow> string \<Rightarrow> string set) \<Rightarrow> string set \<Rightarrow> string
    \<Rightarrow> (string \<Rightarrow> string \<Rightarrow> string set) \<Rightarrow> string \<Rightarrow> string \<Rightarrow> string set" where
  "after_cycle R B n K = after_handling R n (\<lambda>b. if b \<in> B then K n b else {}) K"

lemma cycle_effect:
  assumes mesh: "mesh env ns r now U B" and gob: "gob_laws env" and n: "n \<in> set ns"
    and holds: "cluster_holds now U B r (set ns) K cl" and enum: "visits enum B"
    and left: "(\<Sum>b \<leftarrow> enum B. Suc (card (U b))) \<le> left"
  shows "\<exists>cl'. rebalancerWorkerTask env enum left n cl = Ret (Inr ()) cl'
    \<and> cluster_holds now U B r (set ns) (after_cycle (replica_set env ns r) B n K) cl'"
proof -
  let ?st = "\<lparr>keysProcessed = 0, keysDeleted = 0, replicationAttempts = 0, replicationErrors = 0\<rparr>"
  obtain c A where c: "cl n = Some c" and A: "refines c A" "dom A = B"
    using holds n by (auto simp: cluster_holds_def node_holds_def)
  then have dom: "dom (lruBuckets c) = B" unfolding refines_def using dom_store_of by metis
  from enum have names: "set (enum B) = B" "distinct (enum B)" by (simp_all add: visits_def)
  obtain left' st' cl' where run: "rebalance_buckets env n (enum B) left ?st cl = Ret (Inr (Some (left', st'))) cl'"
    and h': "cluster_holds now U B r (set ns) (after_cycle (replica_set env ns r) B n K) cl'"
    using handle_buckets [OF mesh gob n holds _ names(2) left, of ?st] names(1) by (auto simp: after_cycle_def)
  let ?f = "recordRebalancerCycle (int (keysProcessed st')) (int (keysDeleted st'))
      (int (replicationAttempts st')) (int (replicationErrors st'))"
  have "rebalancerWorkerTask env enum left n cl = Ret (Inr ()) (update n ?f cl')"
    using run c dom by (simp add: rebalancerWorkerTask_def)
  moreover have "same_store d (?f d)" for d by (simp add: recordRebalancerCycle_def)
  then have "cluster_holds now U B r (set ns) (after_cycle (replica_set env ns r) B n K) (update n ?f cl')"
    using h' node_holds_same_store by (fastforce simp: cluster_holds_def update_def)
  ultimately show ?thesis by blast
qed

section \<open>A round of cycles\<close>

fun rebalance_round :: "env \<Rightarrow> (string set \<Rightarrow> string list) \<Rightarrow> nat \<Rightarrow> string list \<Rightarrow> cluster \<Rightarrow> (unit, cluster) outcome" where
  "rebalance_round env enum left [] cl = Ret (Inr ()) cl"
| "rebalance_round env enum left (n # ns) cl =
     and_then (rebalancerWorkerTask env enum left n cl) (\<lambda>_. rebalance_round env enum left ns)"

lemma round_effect:
  assumes mesh: "mesh env ns r now U B" and gob: "gob_laws env" and enum: "visits enum B"
    and left: "(\<Sum>b \<leftarrow> enum B. Suc (card (U b))) \<le> left"
    and "set os \<subseteq> set ns" and "cluster_holds now U B r (set ns) K cl"
  shows "\<exists>cl'. rebalance_round env enum left os cl = Ret (Inr ()) cl'
    \<and> cluster_holds now U B r (set ns) (fold (after_cycle (replica_set env ns r) B) os K) cl'"
  using assms(5,6)
proof (induction os arbitrary: cl K)
  case (Cons n os)
  then obtain cl1 where "rebalancerWorkerTask env enum left n cl = Ret (Inr ()) cl1"
    "cluster_holds now U B r (set ns) (after_cycle (replica_set env ns r) B n K) cl1"
    using cycle_effect [OF mesh gob _ Cons.prems(2) enum left, of n] by auto
  with Cons.IH [of "after_cycle (replica_set env ns r) B n K" cl1] Cons.prems(1) show ?case by auto
qed auto

text \<open>
  One key during a round: \<open>P\<close> are the nodes that have run their cycle. They hold the key only as
  replicas, and if one of them is a replica that holds it then all replicas hold it.
\<close>

definition settled :: "string set \<Rightarrow> string set \<Rightarrow> (string \<Rightarrow> bool) \<Rightarrow> bool" where
  "settled R P h \<longleftrightarrow> (\<forall>m \<in> P. h m \<longrightarrow> m \<in> R) \<and> ((\<exists>n \<in> P \<inter> R. h n) \<longrightarrow> (\<forall>n \<in> R. h n))"

definition key_cycle :: "string set \<Rightarrow> string \<Rightarrow> (string \<Rightarrow> bool) \<Rightarrow> string \<Rightarrow> bool" where
  "key_cycle R n h m = (if m = n then h n \<and> n \<in> R else h m \<or> (h n \<and> n \<in> R \<and> m \<in> R))"

lemma key_cycle_eq: "key_cycle R n h m \<longleftrightarrow> (if n \<in> R \<and> h n then h m \<or> m \<in> R else h m \<and> m \<noteq> n)"
  by (auto simp: key_cycle_def)

lemma key_cycle_settled:
  assumes "settled R P h"
  shows "settled R (insert n P) (key_cycle R n h)"
proof (cases "n \<in> R \<and> h n")
  case True
  with assms show ?thesis by (auto simp: settled_def key_cycle_eq)
next
  case False
  then have eq: "key_cycle R n h m \<longleftrightarrow> h m \<and> m \<noteq> n" for m by (simp only: key_cycle_eq if_False)
  have all: "\<forall>m \<in> R. h m" if "x \<in> P" "x \<in> R" "h x" for x using assms that unfolding settled_def by blast
  show ?thesis unfolding settled_def eq
  proof (intro conjI ballI impI)
    fix m assume "m \<in> insert n P" "h m \<and> m \<noteq> n"
    with assms show "m \<in> R" unfolding settled_def by blast
  next
    fix m assume "\<exists>x \<in> insert n P \<inter> R. h x \<and> x \<noteq> n" and m: "m \<in> R"
    then obtain x where "x \<in> P" "x \<in> R" "h x" by blast
    from all [OF this] m show "h m" by blast
    from all [OF \<open>x \<in> P\<close> \<open>x \<in> R\<close> \<open>h x\<close>] False m show "m \<noteq> n" by blast
  qed
qed

lemma key_cycle_replica: "(\<exists>m \<in> R. key_cycle R n h m) \<longleftrightarrow> (\<exists>m \<in> R. h m)"
  by (cases "n \<in> R \<and> h n") (auto simp: key_cycle_eq)

lemma key_round:
  "settled R P h \<Longrightarrow> settled R (P \<union> set os) (fold (key_cycle R) os h)
    \<and> ((\<exists>m \<in> R. fold (key_cycle R) os h m) \<longleftrightarrow> (\<exists>m \<in> R. h m))"
proof (induction os arbitrary: P h)
  case (Cons n os)
  from Cons.IH [OF key_cycle_settled [OF Cons.prems, of n]] show ?case
    by (simp add: key_cycle_replica)
qed simp

lemma fold_key:
  "b \<in> B \<Longrightarrow> k \<in> fold (after_cycle R B) os K m b \<longleftrightarrow> fold (key_cycle (R b k)) os (\<lambda>m. k \<in> K m b) m"
proof (induction os arbitrary: K)
  case (Cons n os)
  have "(\<lambda>m. k \<in> after_cycle R B n K m b) = key_cycle (R b k) n (\<lambda>m. k \<in> K m b)"
    using Cons.prems by (auto simp: fun_eq_iff after_cycle_def after_handling_def key_cycle_def)
  with Cons.IH [OF Cons.prems, of "after_cycle R B n K"] show ?case by simp
qed simp

lemma round_keys:
  assumes b: "b \<in> B" and R: "R b k \<subseteq> set os" and m: "m \<in> set os"
  shows "k \<in> fold (after_cycle R B) os K m b \<longleftrightarrow> m \<in> R b k \<and> (\<exists>n \<in> R b k. k \<in> K n b)"
proof -
  let ?h = "fold (key_cycle (R b k)) os (\<lambda>m. k \<in> K m b)"
  have "settled (R b k) {} (\<lambda>m. k \<in> K m b)" by (simp add: settled_def)
  from key_round [OF this, of os] have fin: "settled (R b k) (set os) ?h"
    and some: "(\<exists>n \<in> R b k. ?h n) \<longleftrightarrow> (\<exists>n \<in> R b k. k \<in> K n b)" by simp_all
  have "?h m \<longleftrightarrow> m \<in> R b k \<and> (\<exists>n \<in> R b k. ?h n)"
    using fin R m unfolding settled_def by blast
  then show ?thesis unfolding fold_key [OF b] some .
qed

text \<open>
  C12: A round of the rebalancer brings every key to its replicas, or loses it. In a settled
  cluster (\<open>mesh\<close>: a full mesh of working links, agreeing clocks, distinct scores) of intact nodes
  with live entries and room for all keys (\<open>cluster_holds\<close>), let every node run a cycle, in any order, once or more. All
  cycles return, and afterwards a node stores a key exactly if it is one of its replicas and at
  least one of its replicas stored it before: the keys that were only on other nodes (after a
  change of the topology: on the former replicas) are gone.
\<close>

theorem round_converges:
  assumes mesh: "mesh env ns r now U B" and gob: "gob_laws env" and enum: "visits enum B"
    and left: "(\<Sum>b \<leftarrow> enum B. Suc (card (U b))) \<le> left" and os: "set os = set ns"
    and holds: "cluster_holds now U B r (set ns) K cl"
  shows "\<exists>cl'. rebalance_round env enum left os cl = Ret (Inr ()) cl'
    \<and> (\<forall>n \<in> set ns. \<forall>b \<in> B. \<forall>k. stored cl' n b k
        \<longleftrightarrow> n \<in> replica_set env ns r b k \<and> (\<exists>m \<in> replica_set env ns r b k. stored cl m b k))"
proof -
  let ?R = "replica_set env ns r"
  obtain cl' where run: "rebalance_round env enum left os cl = Ret (Inr ()) cl'"
    and holds': "cluster_holds now U B r (set ns) (fold (after_cycle ?R B) os K) cl'"
    using round_effect [OF mesh gob enum left _ holds, of os] os by auto
  have at: "stored cl1 n b k \<longleftrightarrow> k \<in> K1 n b" if "cluster_holds now U B r (set ns) K1 cl1" "n \<in> set ns" "b \<in> B" for cl1 K1 n b k
    using that node_holds_stored [of now U B r n "K1 n" _ b k] by (auto simp: cluster_holds_def stored_def)
  have "stored cl' n b k \<longleftrightarrow> n \<in> ?R b k \<and> (\<exists>m \<in> ?R b k. stored cl m b k)" if n: "n \<in> set ns" and b: "b \<in> B" for n b k
  proof -
    have sub: "?R b k \<subseteq> set ns" by (rule replica_set_nodes)
    have "stored cl' n b k \<longleftrightarrow> n \<in> ?R b k \<and> (\<exists>m \<in> ?R b k. k \<in> K m b)"
      unfolding at [OF holds' n b] using round_keys [OF b, of ?R k os n K] sub n os by simp
    also have "(\<exists>m \<in> ?R b k. k \<in> K m b) \<longleftrightarrow> (\<exists>m \<in> ?R b k. stored cl m b k)"
      using at [OF holds _ b] sub by blast
    finally show ?thesis .
  qed
  with run show ?thesis by blast
qed

section \<open>Witness\<close>

text \<open>Four nodes, three replicas; the nodes \<open>S\<close> store the key, the others nothing.\<close>

definition new_key :: "string \<Rightarrow> cache" where
  "new_key n = state_after [OpCreate ''s'' 0 2, OpSet 5 ''s'' ''k'' (AInt 1) 0] (initCache n 3)"

definition no_key :: "string \<Rightarrow> cache" where
  "no_key n = state_after [OpCreate ''s'' 0 2] (initCache n 3)"

definition some_nodes :: "string set \<Rightarrow> cluster" where
  "some_nodes S n = (if n \<in> {''a'', ''b'', ''c'', ''d''} then Some (if n \<in> S then new_key n else no_key n) else None)"

abbreviation up_env :: env where
  "up_env \<equiv> toy_env demo_hash four_peers (\<lambda>_. Up) rev"

lemma new_key_holds: "node_holds 0 (\<lambda>_. {''k''}) {''s''} 3 n (\<lambda>_. {''k''}) (new_key n)"
proof -
  have "refines (new_key n) [''s'' \<mapsto> (2, [(''k'', AInt 1, None)])]" "nodeId (new_key n) = n" "replicas (new_key n) = 3"
    using refines_state_after [of "[OpCreate ''s'' 0 2, OpSet 5 ''s'' ''k'' (AInt 1) 0]" n 3]
      state_after_conf [of "[OpCreate ''s'' 0 2, OpSet 5 ''s'' ''k'' (AInt 1) 0]" n 3]
    by (simp_all add: new_key_def spec_eval)
  then show ?thesis unfolding node_holds_def
    by (intro conjI exI [of _ "[''s'' \<mapsto> (2, [(''k'', AInt 1, None)])]"]) (simp_all add: keys_of_def)
qed

lemma no_key_holds: "node_holds 0 (\<lambda>_. {''k''}) {''s''} 3 n (\<lambda>_. {}) (no_key n)"
proof -
  have "refines (no_key n) [''s'' \<mapsto> (2, [])]" "nodeId (no_key n) = n" "replicas (no_key n) = 3"
    using refines_state_after [of "[OpCreate ''s'' 0 2]" n 3] state_after_conf [of "[OpCreate ''s'' 0 2]" n 3]
    by (simp_all add: no_key_def spec_eval)
  then show ?thesis unfolding node_holds_def
    by (intro conjI exI [of _ "[''s'' \<mapsto> (2, [])]"]) (simp_all add: keys_of_def)
qed

lemma some_nodes_hold:
  "cluster_holds 0 (\<lambda>_. {''k''}) {''s''} 3 (set [''b'', ''c'', ''d'', ''a'']) (\<lambda>n _. if n \<in> S then {''k''} else {}) (some_nodes S)"
  using new_key_holds no_key_holds by (auto simp: cluster_holds_def some_nodes_def)

lemma up_mesh: "mesh up_env [''b'', ''c'', ''d'', ''a''] 3 0 (\<lambda>_. {''k''}) {''s''}"
proof -
  have "well_scored demo_hash (routingKey ''s'' ''k'') [''b'', ''c'', ''d'', ''a'']"
    by (simp add: well_scored_def scoreRegular_def demo_hash_def bytes_of_def routingKey_def itoa.simps digit_char_def)
  then show ?thesis by (auto simp: mesh_def four_peers_def)
qed

lemma up_replicas: "replica_set up_env [''b'', ''c'', ''d'', ''a''] 3 ''s'' ''k'' = {''d'', ''c'', ''b''}"
  by (simp add: replica_set_def demo_ranking)

theorem round_converges_witness:
  "(\<exists>cl'. rebalance_round up_env (\<lambda>_. [''s'']) 2 [''a'', ''b'', ''c'', ''d''] (some_nodes {''a'', ''b''}) = Ret (Inr ()) cl'
     \<and> stored cl' ''c'' ''s'' ''k'' \<and> stored cl' ''d'' ''s'' ''k'' \<and> \<not> stored cl' ''a'' ''s'' ''k'')
   \<and> (\<exists>cl'. rebalance_round up_env (\<lambda>_. [''s'']) 2 [''a'', ''b'', ''c'', ''d''] (some_nodes {''a''}) = Ret (Inr ()) cl'
     \<and> \<not> (\<exists>n \<in> {''a'', ''b'', ''c'', ''d''}. stored cl' n ''s'' ''k''))"
proof -
  have left: "(\<Sum>b \<leftarrow> (\<lambda>_. [''s'']) {''s''}. Suc (card ((\<lambda>_. {''k''}) b))) \<le> (2 :: nat)" by simp
  have os: "set [''a'', ''b'', ''c'', ''d''] = set [''b'', ''c'', ''d'', ''a'']" by auto
  have st: "stored (some_nodes S) n ''s'' ''k'' \<longleftrightarrow> n \<in> S" if "n \<in> {''a'', ''b'', ''c'', ''d''}" for S n
    using that node_holds_stored [OF new_key_holds, of "''s''" n "''k''"] node_holds_stored [OF no_key_holds, of "''s''" n "''k''"]
    by (simp add: stored_def some_nodes_def)
  have result: "\<exists>cl'. rebalance_round up_env (\<lambda>_. [''s'']) 2 [''a'', ''b'', ''c'', ''d''] (some_nodes S) = Ret (Inr ()) cl'
      \<and> (\<forall>n \<in> {''a'', ''b'', ''c'', ''d''}. stored cl' n ''s'' ''k'' \<longleftrightarrow> n \<noteq> ''a'' \<and> (''b'' \<in> S \<or> ''c'' \<in> S \<or> ''d'' \<in> S))" for S
  proof -
    obtain cl' where cl': "rebalance_round up_env (\<lambda>_. [''s'']) 2 [''a'', ''b'', ''c'', ''d''] (some_nodes S) = Ret (Inr ()) cl'"
      and at: "\<forall>n \<in> set [''b'', ''c'', ''d'', ''a'']. \<forall>b \<in> {''s''}. \<forall>k. stored cl' n b k
          \<longleftrightarrow> n \<in> replica_set up_env [''b'', ''c'', ''d'', ''a''] 3 b k
            \<and> (\<exists>m \<in> replica_set up_env [''b'', ''c'', ''d'', ''a''] 3 b k. stored (some_nodes S) m b k)"
      using round_converges [OF up_mesh toy_gob_laws visits_one left os some_nodes_hold [of S]] by blast
    have "stored cl' n ''s'' ''k'' \<longleftrightarrow> n \<noteq> ''a'' \<and> (''b'' \<in> S \<or> ''c'' \<in> S \<or> ''d'' \<in> S)"
      if n: "n \<in> {''a'', ''b'', ''c'', ''d''}" for n
    proof -
      have "n \<in> set [''b'', ''c'', ''d'', ''a'']" using n by auto
      with at have "stored cl' n ''s'' ''k'' \<longleftrightarrow> n \<in> {''d'', ''c'', ''b''}
          \<and> (\<exists>m \<in> {''d'', ''c'', ''b''}. stored (some_nodes S) m ''s'' ''k'')"
        unfolding up_replicas [symmetric] by blast
      moreover have "n \<in> {''d'', ''c'', ''b''} \<longleftrightarrow> n \<noteq> ''a''" using n by auto
      moreover have "stored (some_nodes S) ''b'' ''s'' ''k'' \<longleftrightarrow> ''b'' \<in> S" "stored (some_nodes S) ''c'' ''s'' ''k'' \<longleftrightarrow> ''c'' \<in> S"
        "stored (some_nodes S) ''d'' ''s'' ''k'' \<longleftrightarrow> ''d'' \<in> S" by (rule st, simp)+
      ultimately show ?thesis by blast
    qed
    with cl' show ?thesis by blast
  qed
  show ?thesis using result [of "{''a'', ''b''}"] result [of "{''a''}"] by simp blast
qed

end
