(* ===== verification/Nodosum.thy ===== *)
theory Nodosum
  imports Frames "HOL-Library.Sublist"
begin

text \<open>
  The connection table and the membership events of a node (\<open>internal/nodosum/memberlist.go\<close>,
  \<open>conn.go\<close>, \<open>nodosum.go\<close>). memberlist calls \<open>NotifyJoin\<close>, \<open>NotifyLeave\<close> and \<open>NotifyUpdate\<close>;
  \<open>NotifyJoin\<close> dials the node and registers the connection, \<open>handleQuicConn\<close> registers
  connections that come in. Each critical section is one function; the step relation
  interleaves them, with dials in flight between the check and the registration.

  QUIC is a parameter: a connection is a number, the fate of a dial is an argument. The node
  keeps what it did to the outside: the connections it closed and the calls of the topology
  hook. An entry of the attempts map that is absent counts 0, as Go reads it.
\<close>

section \<open>State\<close>

type_synonym conn = nat
type_synonym stream = nat

record memberNode =
  mName :: string
  mMeta :: "byte list"

record nodosum =
  nsId :: string
  quicAdvertisePort :: nat
  quicConns :: "string \<rightharpoonup> conn"
  quicStreams :: "string \<rightharpoonup> stream"
  dialAttempts :: "string \<Rightarrow> nat"
  hookSet :: bool
  closedConns :: "conn set"
  closedStreams :: "stream set"
  hookCalls :: "(string \<times> bool) list"

definition newNodosum :: "string \<Rightarrow> nat \<Rightarrow> nodosum" where
  "newNodosum self port = \<lparr>nsId = self, quicAdvertisePort = port, quicConns = Map.empty,
     quicStreams = Map.empty, dialAttempts = (\<lambda>_. 0), hookSet = False, closedConns = {},
     closedStreams = {}, hookCalls = []\<rparr>"

definition SetTopologyChangeHook :: "nodosum \<Rightarrow> nodosum" where
  "SetTopologyChangeHook n = n\<lparr>hookSet := True\<rparr>"

definition callHook :: "string \<Rightarrow> bool \<Rightarrow> nodosum \<Rightarrow> nodosum" where
  "callHook name joined n = (if hookSet n then n\<lparr>hookCalls := hookCalls n @ [(name, joined)]\<rparr> else n)"

definition clearAttempts :: "string \<Rightarrow> nodosum \<Rightarrow> nodosum" where
  "clearAttempts name n = n\<lparr>dialAttempts := (dialAttempts n)(name := 0)\<rparr>"

section \<open>Joining\<close>

text \<open>The metadata of a node is its port (\<open>uint16\<close>); \<open>node.Meta[:2]\<close> panics when it is shorter.\<close>

definition NodeMeta :: "nodosum \<Rightarrow> byte list" where
  "NodeMeta n = put_u16 (word_of_nat (quicAdvertisePort n))"

definition quicPort :: "memberNode \<Rightarrow> nat option" where
  "quicPort node = (if length (mMeta node) < 2 then None else Some (unat (get_u16 (take 2 (mMeta node)))))"

text \<open>The check before the dial; \<open>True\<close> if the node is to be dialled.\<close>

definition join_check :: "memberNode \<Rightarrow> nodosum \<Rightarrow> bool \<times> nodosum" where
  "join_check node n =
     (if mName node = nsId n then (False, n)
      else case quicConns n (mName node) of
        Some _ \<Rightarrow> (False, clearAttempts (mName node) n)
      | None \<Rightarrow> (True, n))"

text \<open>A failed dial: the delay of the retry (nanoseconds), if there is one.\<close>

definition join_failed :: "memberNode \<Rightarrow> nodosum \<Rightarrow> int option \<times> nodosum" where
  "join_failed node n =
     (let attempts = Suc (dialAttempts n (mName node));
          n' = n\<lparr>dialAttempts := (dialAttempts n)(mName node := attempts)\<rparr>
      in if attempts < 5 then (Some (int (attempts * attempts) * 100000000), n') else (None, n'))"

definition join_dialled :: "memberNode \<Rightarrow> conn \<Rightarrow> nodosum \<Rightarrow> nodosum" where
  "join_dialled node c n =
     (case quicConns n (mName node) of
        Some _ \<Rightarrow> n\<lparr>closedConns := insert c (closedConns n)\<rparr>
      | None \<Rightarrow> callHook (mName node) True
          (clearAttempts (mName node) (n\<lparr>quicConns := (quicConns n)(mName node \<mapsto> c)\<rparr>)))"

text \<open>
  \<open>NotifyJoin\<close> when nothing interferes: \<open>resolves\<close> is the outcome of \<open>net.ResolveUDPAddr\<close>, \<open>dial\<close> that
  of \<open>Dial\<close>. The panic on short metadata is recovered and leaves everything as it was.
\<close>

definition NotifyJoin :: "bool \<Rightarrow> conn option \<Rightarrow> memberNode \<Rightarrow> nodosum \<Rightarrow> int option \<times> nodosum" where
  "NotifyJoin resolves dial node n =
     (case join_check node n of
        (False, n') \<Rightarrow> (None, n')
      | (True, n') \<Rightarrow>
          (case quicPort node of
             None \<Rightarrow> (None, n')
           | Some port \<Rightarrow>
               if \<not> resolves then (None, n')
               else (case dial of
                   None \<Rightarrow> join_failed node n'
                 | Some c \<Rightarrow> (None, join_dialled node c n'))))"

section \<open>Leaving, updates, health checks\<close>

definition closeStreams :: "string \<Rightarrow> nodosum \<Rightarrow> nodosum" where
  "closeStreams nodeId n =
     n\<lparr>closedStreams := closedStreams n \<union> {s. \<exists>key. quicStreams n key = Some s \<and> prefix (nodeId @ '':'') key},
       quicStreams := (\<lambda>key. if prefix (nodeId @ '':'') key then None else quicStreams n key)\<rparr>"

definition closeConn :: "string \<Rightarrow> nodosum \<Rightarrow> nodosum" where
  "closeConn nodeId n =
     (case quicConns n nodeId of
        None \<Rightarrow> n
      | Some c \<Rightarrow> n\<lparr>closedConns := insert c (closedConns n), quicConns := (quicConns n)(nodeId := None)\<rparr>)"

definition closeQuicConnection :: "string \<Rightarrow> nodosum \<Rightarrow> nodosum" where
  "closeQuicConnection nodeId n = closeConn nodeId (closeStreams nodeId n)"

definition NotifyLeave :: "memberNode \<Rightarrow> nodosum \<Rightarrow> nodosum" where
  "NotifyLeave node n = callHook (mName node) False
     (clearAttempts (mName node) (closeQuicConnection (mName node) n))"

text \<open>\<open>NotifyUpdate\<close> ends with \<open>go NotifyJoin(node)\<close>, a step of its own.\<close>

definition NotifyUpdate :: "memberNode \<Rightarrow> nodosum \<Rightarrow> nodosum" where
  "NotifyUpdate node n = clearAttempts (mName node) (closeConn (mName node) n)"

text \<open>\<open>NotifyAlive\<close>: whether it starts a \<open>NotifyJoin\<close>; \<open>alive\<close> tells if a connection's context is alive.\<close>

definition NotifyAlive :: "(conn \<Rightarrow> bool) \<Rightarrow> memberNode \<Rightarrow> nodosum \<Rightarrow> bool \<times> nodosum" where
  "NotifyAlive alive node n =
     (if mName node = nsId n then (False, n)
      else case quicConns n (mName node) of
        None \<Rightarrow> (True, n)
      | Some c \<Rightarrow> if \<not> alive c then (True, closeQuicConnection (mName node) n) else (False, n))"

fun NotifyMerge :: "memberNode list \<Rightarrow> nodosum \<Rightarrow> memberNode list" where
  "NotifyMerge [] n = []"
| "NotifyMerge (p # ps) n = (if mName p \<noteq> nsId n then p # NotifyMerge ps n else NotifyMerge ps n)"

section \<open>Incoming connections\<close>

text \<open>
  The start of \<open>handleQuicConn\<close>: \<open>certs\<close> are the common names of the peer's certificates. The
  result is the node id when the connection is served, and whether it was registered.
\<close>

definition handleQuicConn :: "string list \<Rightarrow> conn \<Rightarrow> nodosum \<Rightarrow> (string \<times> bool) option \<times> nodosum" where
  "handleQuicConn certs c n =
     (case certs of
        [] \<Rightarrow> (None, n)
      | nodeID # _ \<Rightarrow>
          if nodeID = '''' then (None, n\<lparr>closedConns := insert c (closedConns n)\<rparr>)
          else if nodeID = nsId n then (None, n\<lparr>closedConns := insert c (closedConns n)\<rparr>)
          else (case quicConns n nodeID of
              None \<Rightarrow> (Some (nodeID, True), n\<lparr>quicConns := (quicConns n)(nodeID \<mapsto> c)\<rparr>)
            | Some _ \<Rightarrow> (Some (nodeID, False), n)))"

text \<open>The deferred function: a handler that registered its connection takes it out again.\<close>

definition handleQuicConn_exit :: "string \<Rightarrow> conn \<Rightarrow> bool \<Rightarrow> nodosum \<Rightarrow> nodosum" where
  "handleQuicConn_exit nodeID c shouldRegister n =
     (if shouldRegister \<and> quicConns n nodeID = Some c
      then n\<lparr>quicConns := (quicConns n)(nodeID := None)\<rparr> else n)"

definition getConnectedNodes :: "(string set \<Rightarrow> string list) \<Rightarrow> nodosum \<Rightarrow> string list" where
  "getConnectedNodes enum n = filter (\<lambda>nid. nsId n \<noteq> nid) (enum (dom (quicConns n)))"

fun filterNodes :: "string \<Rightarrow> string list \<Rightarrow> string list" where
  "filterNodes localAddr [] = []"
| "filterNodes localAddr (ip # ips) =
     (if ip \<noteq> localAddr then ip # filterNodes localAddr ips else filterNodes localAddr ips)"

section \<open>Retries\<close>

text \<open>
  The chain of retries after one event, with the outcomes of the successive dials; the result
  counts the dials.
\<close>

function join_attempts :: "(nat \<Rightarrow> conn option) \<Rightarrow> memberNode \<Rightarrow> nat \<Rightarrow> nodosum \<Rightarrow> nat \<times> nodosum" where
  "join_attempts dials node i n =
     (case NotifyJoin True (dials i) node n of
        (None, n') \<Rightarrow> (if fst (join_check node n) \<and> quicPort node \<noteq> None then Suc i else i, n')
      | (Some backoff, n') \<Rightarrow> join_attempts dials node (Suc i) n')"
  by pat_completeness auto

lemma NotifyJoin_retry:
  assumes "NotifyJoin resolves dial node n = (Some w, n')"
  shows "fst (join_check node n)" and "dial = None" and "quicPort node \<noteq> None"
    and "dialAttempts n' (mName node) = Suc (dialAttempts n (mName node))"
    and "dialAttempts n (mName node) < 4" and "quicConns n' = quicConns n" and "nsId n' = nsId n"
    and "w = int (Suc (dialAttempts n (mName node)) * Suc (dialAttempts n (mName node))) * 100000000"
  using assms
  by (auto simp: NotifyJoin_def join_check_def join_failed_def Let_def
      split: if_split_asm option.split_asm prod.split_asm bool.split_asm)

lemma NotifyJoin_decreases:
  assumes "(Some w, n') = NotifyJoin resolves dial node n"
  shows "5 - dialAttempts n' (mName node) < 5 - dialAttempts n (mName node)"
  using NotifyJoin_retry(4,5) [OF assms [symmetric]] by linarith

termination join_attempts
  by (relation "measure (\<lambda>(dials, node, i, n). 5 - dialAttempts n (mName node))")
    (simp_all add: NotifyJoin_decreases)

declare join_attempts.simps [simp del]

lemma join_attempts_bound:
  "fst (join_attempts dials node i n) \<le> i + max 1 (5 - dialAttempts n (mName node))
   \<and> i \<le> fst (join_attempts dials node i n)"
proof (induction dials node i n rule: join_attempts.induct)
  case (1 dials node i n)
  show ?case
  proof (cases "NotifyJoin True (dials i) node n")
    case (Pair w n')
    show ?thesis
    proof (cases w)
      case None
      with Pair show ?thesis by (subst (1 2) join_attempts.simps) auto
    next
      case (Some d)
      note R = NotifyJoin_retry [OF Pair [unfolded Some]]
      have "join_attempts dials node i n = join_attempts dials node (Suc i) n'"
        by (subst join_attempts.simps) (simp add: Pair Some)
      with "1.IH" [OF Pair [symmetric] Some] R(4,5) show ?thesis by auto
    qed
  qed
qed

text \<open>
  C32: A join that goes wrong is retried at most four times. Whatever the dials do, the chain of
  retries after an event ends after at most five dials, or one dial when five have failed
  before. The only change to the connection table is the connection that the last dial
  returned, entered for the node that was missing.
\<close>

theorem join_attempts_bounded:
  "\<exists>k n'. join_attempts dials node 0 n = (k, n') \<and> k \<le> max 1 (5 - dialAttempts n (mName node))
    \<and> (quicConns n' = quicConns n \<or> (\<exists>c. 0 < k \<and> dials (k - 1) = Some c
        \<and> quicConns n (mName node) = None \<and> quicConns n' = (quicConns n)(mName node \<mapsto> c)))"
proof -
  have "quicConns (snd (join_attempts dials node i n)) = quicConns n
      \<or> (\<exists>c. i < fst (join_attempts dials node i n) \<and> dials (fst (join_attempts dials node i n) - 1) = Some c
        \<and> quicConns n (mName node) = None
        \<and> quicConns (snd (join_attempts dials node i n)) = (quicConns n)(mName node \<mapsto> c))" for i n
  proof (induction dials node i n rule: join_attempts.induct)
    case (1 dials node i n)
    show ?case
    proof (cases "NotifyJoin True (dials i) node n")
      case (Pair w n')
      show ?thesis
      proof (cases w)
        case None
        have "quicConns n' = quicConns n \<or> (\<exists>c. dials i = Some c \<and> fst (join_check node n)
            \<and> quicPort node \<noteq> None \<and> quicConns n (mName node) = None
            \<and> quicConns n' = (quicConns n)(mName node \<mapsto> c))"
          using Pair None
          by (auto simp: NotifyJoin_def join_check_def join_failed_def join_dialled_def clearAttempts_def
              callHook_def Let_def split: if_split_asm option.split_asm)
        with Pair None show ?thesis by (subst (1 2 3 4) join_attempts.simps) auto
      next
        case (Some d)
        note R = NotifyJoin_retry [OF Pair [unfolded Some]]
        have step: "join_attempts dials node i n = join_attempts dials node (Suc i) n'"
          by (subst join_attempts.simps) (simp add: Pair Some)
        show ?thesis using "1.IH" [OF Pair [symmetric] Some] R(6) unfolding step by auto
      qed
    qed
  qed
  from this [of 0 n] join_attempts_bound [of dials node 0 n] show ?thesis
    by (cases "join_attempts dials node 0 n") auto
qed

section \<open>Interleaved steps\<close>

text \<open>
  A node and its surroundings: connections ever created, those it dialled, dials that returned
  a connection which is not registered yet, and the handlers that registered their
  connection. A dial may return at any time after its check.
\<close>

record netsys =
  sysNode :: nodosum
  usedConns :: "conn set"
  dialledConns :: "conn set"
  inFlight :: "(memberNode \<times> conn) set"
  handlers :: "(string \<times> conn) set"

definition start_sys :: "string \<Rightarrow> nat \<Rightarrow> netsys" where
  "start_sys self port = \<lparr>sysNode = newNodosum self port, usedConns = {}, dialledConns = {},
     inFlight = {}, handlers = {}\<rparr>"

inductive net_step :: "netsys \<Rightarrow> netsys \<Rightarrow> bool" where
  hook: "net_step s (s\<lparr>sysNode := SetTopologyChangeHook (sysNode s)\<rparr>)"
| check: "net_step s (s\<lparr>sysNode := snd (join_check m (sysNode s))\<rparr>)"
| dial: "mName m \<noteq> nsId (sysNode s) \<Longrightarrow> c \<notin> usedConns s \<Longrightarrow> net_step s (s\<lparr>usedConns := insert c (usedConns s),
    dialledConns := insert c (dialledConns s), inFlight := insert (m, c) (inFlight s)\<rparr>)"
| failed: "net_step s (s\<lparr>sysNode := snd (join_failed m (sysNode s))\<rparr>)"
| register: "(m, c) \<in> inFlight s \<Longrightarrow> net_step s (s\<lparr>sysNode := join_dialled m c (sysNode s),
    inFlight := inFlight s - {(m, c)}\<rparr>)"
| leave: "net_step s (s\<lparr>sysNode := NotifyLeave m (sysNode s)\<rparr>)"
| update: "net_step s (s\<lparr>sysNode := NotifyUpdate m (sysNode s)\<rparr>)"
| alive: "net_step s (s\<lparr>sysNode := snd (NotifyAlive al m (sysNode s))\<rparr>)"
| accept: "c \<notin> usedConns s \<Longrightarrow> handleQuicConn certs c (sysNode s) = (res, n') \<Longrightarrow>
    net_step s (s\<lparr>sysNode := n', usedConns := insert c (usedConns s),
      handlers := handlers s \<union> {(nid, c) | nid. res = Some (nid, True)}\<rparr>)"
| exit: "(nid, c) \<in> handlers s \<Longrightarrow> net_step s (s\<lparr>sysNode := handleQuicConn_exit nid c True (sysNode s),
    handlers := handlers s - {(nid, c)}\<rparr>)"

inductive net_reachable :: "netsys \<Rightarrow> bool" where
  start: "net_reachable (start_sys self port)"
| step: "net_reachable s \<Longrightarrow> net_step s t \<Longrightarrow> net_reachable t"

text \<open>What the operations do to the table, the closed connections and the identity.\<close>

lemma table_simps [simp]:
  "quicConns (SetTopologyChangeHook n) = quicConns n" "closedConns (SetTopologyChangeHook n) = closedConns n"
  "quicConns (callHook a b n) = quicConns n" "closedConns (callHook a b n) = closedConns n"
  "quicConns (clearAttempts a n) = quicConns n" "closedConns (clearAttempts a n) = closedConns n"
  "quicConns (closeStreams a n) = quicConns n" "closedConns (closeStreams a n) = closedConns n"
  "quicConns (closeConn a n) = (quicConns n)(a := None)"
  "closedConns (closeConn a n) = closedConns n \<union> set_option (quicConns n a)"
  "quicConns (snd (join_check m n)) = quicConns n" "closedConns (snd (join_check m n)) = closedConns n"
  "quicConns (snd (join_failed m n)) = quicConns n" "closedConns (snd (join_failed m n)) = closedConns n"
  "nsId (SetTopologyChangeHook n) = nsId n" "nsId (callHook a b n) = nsId n" "nsId (clearAttempts a n) = nsId n"
  "nsId (closeStreams a n) = nsId n" "nsId (closeConn a n) = nsId n" "nsId (snd (join_check m n)) = nsId n"
  "nsId (snd (join_failed m n)) = nsId n" "nsId (join_dialled m c n) = nsId n"
  "nsId (handleQuicConn_exit nid c b n) = nsId n"
  by (auto simp: SetTopologyChangeHook_def callHook_def clearAttempts_def closeStreams_def closeConn_def
      join_check_def join_failed_def join_dialled_def handleQuicConn_exit_def Let_def split: option.split)

lemma closing_simps [simp]:
  "quicConns (closeQuicConnection a n) = (quicConns n)(a := None)"
  "closedConns (closeQuicConnection a n) = closedConns n \<union> set_option (quicConns n a)"
  "nsId (closeQuicConnection a n) = nsId n"
  "quicConns (NotifyLeave m n) = (quicConns n)(mName m := None)"
  "closedConns (NotifyLeave m n) = closedConns n \<union> set_option (quicConns n (mName m))"
  "nsId (NotifyLeave m n) = nsId n"
  "quicConns (NotifyUpdate m n) = (quicConns n)(mName m := None)"
  "closedConns (NotifyUpdate m n) = closedConns n \<union> set_option (quicConns n (mName m))"
  "nsId (NotifyUpdate m n) = nsId n"
  by (simp_all add: closeQuicConnection_def NotifyLeave_def NotifyUpdate_def)

text \<open>
  The invariant: a connection is in at most one place (in flight, in the table under one node,
  closed), and what was dialled is in one of them. Handlers serve connections that came in.
\<close>

definition places_ok :: "(string \<rightharpoonup> conn) \<Rightarrow> conn set \<Rightarrow> netsys \<Rightarrow> bool" where
  "places_ok T C s \<longleftrightarrow>
     (\<forall>a c. T a = Some c \<longrightarrow> c \<in> usedConns s \<and> c \<notin> C) \<and> C \<subseteq> usedConns s \<and>
     (\<forall>a b c. T a = Some c \<longrightarrow> T b = Some c \<longrightarrow> a = b) \<and>
     (\<forall>m c. (m, c) \<in> inFlight s \<longrightarrow> c \<in> dialledConns s \<and> c \<notin> C \<and> (\<forall>a. T a \<noteq> Some c)) \<and>
     (\<forall>m m' c. (m, c) \<in> inFlight s \<longrightarrow> (m', c) \<in> inFlight s \<longrightarrow> m = m') \<and>
     dialledConns s \<subseteq> usedConns s \<and>
     (\<forall>c \<in> dialledConns s. c \<in> C \<or> (\<exists>m. (m, c) \<in> inFlight s) \<or> (\<exists>a. T a = Some c)) \<and>
     (\<forall>a c. (a, c) \<in> handlers s \<longrightarrow> c \<in> usedConns s \<and> c \<notin> dialledConns s)"

definition net_ok :: "netsys \<Rightarrow> bool" where
  "net_ok s \<longleftrightarrow> quicConns (sysNode s) (nsId (sysNode s)) = None
     \<and> (\<forall>m c. (m, c) \<in> inFlight s \<longrightarrow> mName m \<noteq> nsId (sysNode s))
     \<and> places_ok (quicConns (sysNode s)) (closedConns (sysNode s)) s"

lemma places_close:
  assumes ok: "places_ok T C s"
  shows "places_ok (T(a := None)) (C \<union> set_option (T a)) s"
proof -
  have "\<forall>c \<in> dialledConns s. c \<in> C \<union> set_option (T a) \<or> (\<exists>m. (m, c) \<in> inFlight s)
      \<or> (\<exists>b. (T(a := None)) b = Some c)"
  proof
    fix c
    assume "c \<in> dialledConns s"
    with ok consider "c \<in> C" | "\<exists>m. (m, c) \<in> inFlight s" | b where "T b = Some c"
      unfolding places_ok_def by blast
    then show "c \<in> C \<union> set_option (T a) \<or> (\<exists>m. (m, c) \<in> inFlight s) \<or> (\<exists>b. (T(a := None)) b = Some c)"
    proof cases
      case (3 b)
      then show ?thesis by (cases "b = a") auto
    qed auto
  qed
  with ok show ?thesis unfolding places_ok_def by (auto simp: fun_upd_apply split: if_splits)
qed

lemma places_node: "places_ok T C (s\<lparr>sysNode := n\<rparr>) = places_ok T C s"
  by (simp add: places_ok_def)

lemma net_ok_close:
  assumes "net_ok s" and "quicConns n = (quicConns (sysNode s))(a := None)"
    and "closedConns n = closedConns (sysNode s) \<union> set_option (quicConns (sysNode s) a)"
    and "nsId n = nsId (sysNode s)"
  shows "net_ok (s\<lparr>sysNode := n\<rparr>)"
  using assms places_close [of "quicConns (sysNode s)" "closedConns (sysNode s)" s a]
  by (simp add: net_ok_def places_node)

lemma net_ok_same:
  assumes "net_ok s" and "quicConns n = quicConns (sysNode s)" and "closedConns n = closedConns (sysNode s)"
    and "nsId n = nsId (sysNode s)"
  shows "net_ok (s\<lparr>sysNode := n\<rparr>)"
  using assms by (simp add: net_ok_def places_node)

lemma net_ok_register:
  assumes ok: "net_ok s" and fl: "(m, c) \<in> inFlight s"
  shows "net_ok (s\<lparr>sysNode := join_dialled m c (sysNode s), inFlight := inFlight s - {(m, c)}\<rparr>)"
proof (cases "quicConns (sysNode s) (mName m)")
  case None
  then have "quicConns (join_dialled m c (sysNode s)) = (quicConns (sysNode s))(mName m \<mapsto> c)"
    "closedConns (join_dialled m c (sysNode s)) = closedConns (sysNode s)"
    by (simp_all add: join_dialled_def)
  with ok fl None show ?thesis
    by (auto simp: net_ok_def places_ok_def) metis+
next
  case (Some c')
  then have "quicConns (join_dialled m c (sysNode s)) = quicConns (sysNode s)"
    "closedConns (join_dialled m c (sysNode s)) = insert c (closedConns (sysNode s))"
    by (simp_all add: join_dialled_def)
  with ok fl Some show ?thesis
    by (auto simp: net_ok_def places_ok_def)
qed

lemma net_ok_alive:
  assumes "net_ok s"
  shows "net_ok (s\<lparr>sysNode := snd (NotifyAlive al m (sysNode s))\<rparr>)"
proof (cases "snd (NotifyAlive al m (sysNode s)) = sysNode s")
  case True
  with assms show ?thesis by simp
next
  case False
  then have "snd (NotifyAlive al m (sysNode s)) = closeQuicConnection (mName m) (sysNode s)"
    by (auto simp: NotifyAlive_def split: if_splits option.splits)
  then show ?thesis using net_ok_close [OF assms] by simp
qed

lemma net_okI:
  assumes "quicConns (sysNode s) (nsId (sysNode s)) = None"
    and "\<And>m c. (m, c) \<in> inFlight s \<Longrightarrow> mName m \<noteq> nsId (sysNode s)"
    and "\<And>a c. quicConns (sysNode s) a = Some c \<Longrightarrow> c \<in> usedConns s"
    and "\<And>a c. quicConns (sysNode s) a = Some c \<Longrightarrow> c \<notin> closedConns (sysNode s)"
    and "\<And>c. c \<in> closedConns (sysNode s) \<Longrightarrow> c \<in> usedConns s"
    and "\<And>a b c. quicConns (sysNode s) a = Some c \<Longrightarrow> quicConns (sysNode s) b = Some c \<Longrightarrow> a = b"
    and "\<And>m c. (m, c) \<in> inFlight s \<Longrightarrow> c \<in> dialledConns s"
    and "\<And>m c. (m, c) \<in> inFlight s \<Longrightarrow> c \<notin> closedConns (sysNode s)"
    and "\<And>m c a. (m, c) \<in> inFlight s \<Longrightarrow> quicConns (sysNode s) a \<noteq> Some c"
    and "\<And>m m' c. (m, c) \<in> inFlight s \<Longrightarrow> (m', c) \<in> inFlight s \<Longrightarrow> m = m'"
    and "\<And>c. c \<in> dialledConns s \<Longrightarrow> c \<in> usedConns s"
    and "dialledConns s \<subseteq> closedConns (sysNode s) \<union> snd ` inFlight s \<union> ran (quicConns (sysNode s))"
    and "\<And>a c. (a, c) \<in> handlers s \<Longrightarrow> c \<in> usedConns s"
    and "\<And>a c. (a, c) \<in> handlers s \<Longrightarrow> c \<notin> dialledConns s"
  shows "net_ok s"
proof -
  have "c \<in> closedConns (sysNode s) \<or> (\<exists>m. (m, c) \<in> inFlight s) \<or> (\<exists>a. quicConns (sysNode s) a = Some c)"
    if "c \<in> dialledConns s" for c
    using assms(12) that by (force simp: ran_def)
  then show ?thesis unfolding net_ok_def places_ok_def
    by (intro conjI allI ballI impI subsetI) (rule assms, assumption+ | rule assms(1) | simp)+
qed

lemma net_okD:
  assumes "net_ok s"
  shows "quicConns (sysNode s) (nsId (sysNode s)) = None"
    and "(m, c) \<in> inFlight s \<Longrightarrow> mName m \<noteq> nsId (sysNode s)"
    and "quicConns (sysNode s) a = Some c \<Longrightarrow> c \<in> usedConns s"
    and "quicConns (sysNode s) a = Some c \<Longrightarrow> c \<notin> closedConns (sysNode s)"
    and "c \<in> closedConns (sysNode s) \<Longrightarrow> c \<in> usedConns s"
    and "quicConns (sysNode s) a = Some c \<Longrightarrow> quicConns (sysNode s) b = Some c \<Longrightarrow> a = b"
    and "(m, c) \<in> inFlight s \<Longrightarrow> c \<in> dialledConns s"
    and "(m, c) \<in> inFlight s \<Longrightarrow> c \<notin> closedConns (sysNode s)"
    and "(m, c) \<in> inFlight s \<Longrightarrow> quicConns (sysNode s) a \<noteq> Some c"
    and "(m, c) \<in> inFlight s \<Longrightarrow> (m', c) \<in> inFlight s \<Longrightarrow> m = m'"
    and "c \<in> dialledConns s \<Longrightarrow> c \<in> usedConns s"
    and "dialledConns s \<subseteq> closedConns (sysNode s) \<union> snd ` inFlight s \<union> ran (quicConns (sysNode s))"
    and "(a, c) \<in> handlers s \<Longrightarrow> c \<in> usedConns s"
    and "(a, c) \<in> handlers s \<Longrightarrow> c \<notin> dialledConns s"
proof -
  have places: "places_ok (quicConns (sysNode s)) (closedConns (sysNode s)) s"
    using assms unfolding net_ok_def by blast
  note P = places [unfolded places_ok_def]
  have T: "\<forall>a c. quicConns (sysNode s) a = Some c \<longrightarrow> c \<in> usedConns s \<and> c \<notin> closedConns (sysNode s)"
    and U: "\<forall>a b c. quicConns (sysNode s) a = Some c \<longrightarrow> quicConns (sysNode s) b = Some c \<longrightarrow> a = b"
    and F: "\<forall>m c. (m, c) \<in> inFlight s \<longrightarrow> c \<in> dialledConns s \<and> c \<notin> closedConns (sysNode s)
      \<and> (\<forall>a. quicConns (sysNode s) a \<noteq> Some c)"
    and M: "\<forall>m m' c. (m, c) \<in> inFlight s \<longrightarrow> (m', c) \<in> inFlight s \<longrightarrow> m = m'"
    and H: "\<forall>a c. (a, c) \<in> handlers s \<longrightarrow> c \<in> usedConns s \<and> c \<notin> dialledConns s"
    and C: "closedConns (sysNode s) \<subseteq> usedConns s" and D: "dialledConns s \<subseteq> usedConns s"
    by (rule P [THEN conjunct1] P [THEN conjunct2, THEN conjunct2, THEN conjunct1]
        P [THEN conjunct2, THEN conjunct2, THEN conjunct2, THEN conjunct1]
        P [THEN conjunct2, THEN conjunct2, THEN conjunct2, THEN conjunct2, THEN conjunct1]
        P [THEN conjunct2, THEN conjunct2, THEN conjunct2, THEN conjunct2, THEN conjunct2, THEN conjunct2, THEN conjunct2]
        P [THEN conjunct2, THEN conjunct1]
        P [THEN conjunct2, THEN conjunct2, THEN conjunct2, THEN conjunct2, THEN conjunct2, THEN conjunct1])+
  show "dialledConns s \<subseteq> closedConns (sysNode s) \<union> snd ` inFlight s \<union> ran (quicConns (sysNode s))"
  proof
    fix d
    assume "d \<in> dialledConns s"
    then have "d \<in> closedConns (sysNode s) \<or> (\<exists>m. (m, d) \<in> inFlight s) \<or> (\<exists>a. quicConns (sysNode s) a = Some d)"
      by (rule P [THEN conjunct2, THEN conjunct2, THEN conjunct2, THEN conjunct2, THEN conjunct2, THEN conjunct2,
          THEN conjunct1, rule_format])
    then consider "d \<in> closedConns (sysNode s)" | m where "(m, d) \<in> inFlight s"
      | a where "quicConns (sysNode s) a = Some d"
      by (elim disjE exE)
    then show "d \<in> closedConns (sysNode s) \<union> snd ` inFlight s \<union> ran (quicConns (sysNode s))"
    proof cases
      case (2 m)
      then show ?thesis using image_eqI [of d snd "(m, d)" "inFlight s"] by simp
    qed (auto intro: ranI)
  qed
  show "quicConns (sysNode s) (nsId (sysNode s)) = None" "(m, c) \<in> inFlight s \<Longrightarrow> mName m \<noteq> nsId (sysNode s)"
    using assms unfolding net_ok_def by blast+
  show "quicConns (sysNode s) a = Some c \<Longrightarrow> c \<in> usedConns s"
    "quicConns (sysNode s) a = Some c \<Longrightarrow> c \<notin> closedConns (sysNode s)"
    using T by blast+
  show "quicConns (sysNode s) a = Some c \<Longrightarrow> quicConns (sysNode s) b = Some c \<Longrightarrow> a = b" using U by blast
  show "(m, c) \<in> inFlight s \<Longrightarrow> c \<in> dialledConns s" "(m, c) \<in> inFlight s \<Longrightarrow> c \<notin> closedConns (sysNode s)"
    "(m, c) \<in> inFlight s \<Longrightarrow> quicConns (sysNode s) a \<noteq> Some c"
    using F by blast+
  show "(m, c) \<in> inFlight s \<Longrightarrow> (m', c) \<in> inFlight s \<Longrightarrow> m = m'" using M by blast
  show "c \<in> closedConns (sysNode s) \<Longrightarrow> c \<in> usedConns s" using C by blast
  show "c \<in> dialledConns s \<Longrightarrow> c \<in> usedConns s" using D by blast
  show "(a, c) \<in> handlers s \<Longrightarrow> c \<in> usedConns s" "(a, c) \<in> handlers s \<Longrightarrow> c \<notin> dialledConns s"
    using H by blast+
qed

lemma net_ok_dial:
  assumes ok: "net_ok s" and "mName m \<noteq> nsId (sysNode s)" and new: "c \<notin> usedConns s"
  shows "net_ok (s\<lparr>usedConns := insert c (usedConns s), dialledConns := insert c (dialledConns s),
    inFlight := insert (m, c) (inFlight s)\<rparr>)"
proof -
  have fresh: "(m', c) \<notin> inFlight s" "(a, c) \<notin> handlers s" "c \<notin> closedConns (sysNode s)"
    "quicConns (sysNode s) a \<noteq> Some c" for m' a
    using new net_okD(3,5,7,11,13) [OF ok] by blast+
  show ?thesis
    by (rule net_okI) (use assms(2) fresh net_okD [OF ok] in \<open>auto dest: sym\<close>)
qed

lemma handleQuicConn_cases:
  assumes "handleQuicConn certs c n = (res, n')"
  obtains (same) "n' = n" "\<And>nid. res \<noteq> Some (nid, True)"
    | (shut) "n' = n\<lparr>closedConns := insert c (closedConns n)\<rparr>" "res = None"
    | (reg) nid where "n' = n\<lparr>quicConns := (quicConns n)(nid \<mapsto> c)\<rparr>" "nid \<noteq> nsId n"
      "quicConns n nid = None" "res = Some (nid, True)"
proof (cases certs)
  case Nil
  with assms same show ?thesis by (simp add: handleQuicConn_def)
next
  case (Cons nid rest)
  consider "nid = ''''" | "nid = nsId n" | d where "nid \<noteq> ''''" "nid \<noteq> nsId n" "quicConns n nid = Some d"
    | "nid \<noteq> ''''" "nid \<noteq> nsId n" "quicConns n nid = None"
    by (cases "quicConns n nid") blast+
  then show ?thesis
  proof cases
    case 1
    with assms shut Cons show ?thesis by (simp add: handleQuicConn_def)
  next
    case 2
    with assms shut Cons show ?thesis by (simp add: handleQuicConn_def split: if_split_asm)
  next
    case (3 d)
    with assms Cons have "n' = n" "res = Some (nid, False)" by (simp_all add: handleQuicConn_def)
    then show ?thesis by (intro same) simp_all
  next
    case 4
    with assms Cons have "n' = n\<lparr>quicConns := (quicConns n)(nid \<mapsto> c)\<rparr>" "res = Some (nid, True)"
      by (simp_all add: handleQuicConn_def)
    with 4 show ?thesis by (intro reg)
  qed
qed

lemma ran_upd_remove: "\<lbrakk>d \<in> ran f; f a \<noteq> Some d\<rbrakk> \<Longrightarrow> d \<in> ran (f(a := None))"
  by (auto simp: ran_def split: if_splits)

lemma net_ok_accept:
  assumes ok: "net_ok s" and new: "c \<notin> usedConns s" and h: "handleQuicConn certs c (sysNode s) = (res, n')"
  shows "net_ok (s\<lparr>sysNode := n', usedConns := insert c (usedConns s),
    handlers := handlers s \<union> {(nid, c) | nid. res = Some (nid, True)}\<rparr>)"
proof -
  have fresh: "(m', c) \<notin> inFlight s" "(a, c) \<notin> handlers s" "c \<notin> closedConns (sysNode s)"
    "quicConns (sysNode s) a \<noteq> Some c" "c \<notin> dialledConns s" for m' a
    using new net_okD(3,5,7,11,13) [OF ok] by blast+
  from h show ?thesis
  proof (cases rule: handleQuicConn_cases)
    case same
    show ?thesis
      by (rule net_okI) (use same fresh net_okD [OF ok] in \<open>auto\<close>)
  next
    case shut
    show ?thesis
      by (rule net_okI) (use shut fresh net_okD [OF ok] in \<open>auto\<close>)
  next
    case (reg nid)
    show ?thesis
      by (rule net_okI) (use reg fresh net_okD [OF ok] in \<open>auto split: if_splits\<close>)
  qed
qed

lemma net_ok_exit:
  assumes ok: "net_ok s" and h: "(nid, c) \<in> handlers s"
  shows "net_ok (s\<lparr>sysNode := handleQuicConn_exit nid c True (sysNode s), handlers := handlers s - {(nid, c)}\<rparr>)"
proof (cases "quicConns (sysNode s) nid = Some c")
  case False
  then have "handleQuicConn_exit nid c True (sysNode s) = sysNode s" by (simp add: handleQuicConn_exit_def)
  then show ?thesis
    by (intro net_okI) (use net_okD [OF ok] in \<open>auto\<close>)
next
  case True
  have nd: "c \<notin> dialledConns s" using net_okD(14) [OF ok] h by blast
  have gone: "handleQuicConn_exit nid c True (sysNode s)
      = (sysNode s)\<lparr>quicConns := (quicConns (sysNode s))(nid := None)\<rparr>"
    using True by (simp add: handleQuicConn_exit_def)
  have dialled: "dialledConns s \<subseteq> closedConns (sysNode s) \<union> snd ` inFlight s
      \<union> ran ((quicConns (sysNode s))(nid := None))"
  proof
    fix d
    assume d: "d \<in> dialledConns s"
    with nd True have "quicConns (sysNode s) nid \<noteq> Some d" by auto
    then have "d \<in> ran (quicConns (sysNode s)) \<Longrightarrow> d \<in> ran ((quicConns (sysNode s))(nid := None))"
      using ran_upd_remove [of d "quicConns (sysNode s)" nid] by simp
    with d net_okD(12) [OF ok] show "d \<in> closedConns (sysNode s) \<union> snd ` inFlight s
      \<union> ran ((quicConns (sysNode s))(nid := None))" by auto
  qed
  let ?t = "s\<lparr>sysNode := (sysNode s)\<lparr>quicConns := (quicConns (sysNode s))(nid := None)\<rparr>, handlers := handlers s - {(nid, c)}\<rparr>"
  have shrink: "quicConns (sysNode s) b = Some d" if "quicConns (sysNode ?t) b = Some d" for b d
    using that by (simp split: if_split_asm)
  show ?thesis unfolding gone
  proof (rule net_okI)
    show "dialledConns ?t \<subseteq> closedConns (sysNode ?t) \<union> snd ` inFlight ?t \<union> ran (quicConns (sysNode ?t))"
      using dialled by simp
    show "quicConns (sysNode ?t) (nsId (sysNode ?t)) = None" using net_okD(1) [OF ok] by simp
  next
    fix a b d
    assume "quicConns (sysNode ?t) a = Some d" "quicConns (sysNode ?t) b = Some d"
    then show "a = b" by (intro net_okD(6) [OF ok] shrink)
  next
    fix a d
    assume "quicConns (sysNode ?t) a = Some d"
    from net_okD(3,4) [OF ok shrink [OF this]] show "d \<in> usedConns ?t" "d \<notin> closedConns (sysNode ?t)" by simp_all
  next
    fix m a d
    assume "(m, d) \<in> inFlight ?t"
    with net_okD(9) [OF ok] show "quicConns (sysNode ?t) a \<noteq> Some d" by auto
  qed (use net_okD(2,5,7,8,10,11,13,14) [OF ok] in auto)
qed

lemma net_step_ok:
  assumes "net_step s t" and "net_ok s"
  shows "net_ok t"
  using assms
proof (cases rule: net_step.cases)
  case hook
  then show ?thesis using assms(2) by (simp add: net_ok_same)
next
  case check
  then show ?thesis using assms(2) by (simp add: net_ok_same)
next
  case (dial m c)
  then show ?thesis using net_ok_dial [OF assms(2)] by simp
next
  case failed
  then show ?thesis using assms(2) by (simp add: net_ok_same)
next
  case register
  then show ?thesis using net_ok_register [OF assms(2)] by simp
next
  case leave
  then show ?thesis using net_ok_close [OF assms(2)] by simp
next
  case update
  then show ?thesis using net_ok_close [OF assms(2)] by simp
next
  case alive
  then show ?thesis using net_ok_alive [OF assms(2)] by simp
next
  case accept
  then show ?thesis using net_ok_accept [OF assms(2)] by simp
next
  case exit
  then show ?thesis using net_ok_exit [OF assms(2)] by simp
qed

lemma net_ok_start: "net_ok (start_sys self port)"
  by (simp add: net_ok_def places_ok_def start_sys_def newNodosum_def)

lemma net_ok_reachable: "net_reachable s \<Longrightarrow> net_ok s"
  by (induction rule: net_reachable.induct) (auto intro: net_ok_start net_step_ok)

text \<open>
  C2: Connections are accounted for. However dials, joins, leaves, updates, health checks and
  incoming connections interleave: the node never has a connection to itself; two nodes never
  share a connection; no connection of the table has been closed by the node; and every
  connection the node dialled is in its table, or still returned by a dial in flight, or was
  closed (no leak).
\<close>

theorem connections_accounted:
  assumes "net_reachable s"
  shows "quicConns (sysNode s) (nsId (sysNode s)) = None
    \<and> inj_on (quicConns (sysNode s)) (dom (quicConns (sysNode s)))
    \<and> ran (quicConns (sysNode s)) \<inter> closedConns (sysNode s) = {}
    \<and> dialledConns s \<subseteq> ran (quicConns (sysNode s)) \<union> snd ` inFlight s \<union> closedConns (sysNode s)"
proof -
  note ok = net_ok_reachable [OF assms]
  have "inj_on (quicConns (sysNode s)) (dom (quicConns (sysNode s)))"
    using net_okD(6) [OF ok] by (fastforce simp: inj_on_def)
  moreover have "ran (quicConns (sysNode s)) \<inter> closedConns (sysNode s) = {}"
    using net_okD(4) [OF ok] by (fastforce simp: ran_def)
  ultimately show ?thesis using net_okD(1,12) [OF ok] by auto
qed

definition demo_member :: "string \<Rightarrow> memberNode" where
  "demo_member i = \<lparr>mName = i, mMeta = [0x1F, 0x90]\<rparr>"

definition demo_race :: netsys where
  "demo_race = (let m = demo_member ''b'';
      s = start_sys ''a'' 8080;
      s = s\<lparr>usedConns := insert 2 (usedConns s), dialledConns := insert 2 (dialledConns s),
        inFlight := insert (m, 2) (inFlight s)\<rparr>;
      s = s\<lparr>sysNode := snd (handleQuicConn [''b''] 3 (sysNode s)), usedConns := insert 3 (usedConns s),
        handlers := handlers s \<union> {(nid, 3) | nid. Some (''b'', True) = Some (nid, True)}\<rparr>
      in s\<lparr>sysNode := join_dialled m 2 (sysNode s), inFlight := inFlight s - {(m, 2)}\<rparr>)"

lemma demo_race_reachable: "net_reachable demo_race"
proof -
  let ?m = "demo_member ''b''"
  let ?s0 = "start_sys ''a'' 8080"
  let ?s1 = "?s0\<lparr>usedConns := insert 2 (usedConns ?s0), dialledConns := insert 2 (dialledConns ?s0),
    inFlight := insert (?m, 2) (inFlight ?s0)\<rparr>"
  let ?n = "snd (handleQuicConn [''b''] 3 (sysNode ?s1))"
  let ?s2 = "?s1\<lparr>sysNode := ?n, usedConns := insert 3 (usedConns ?s1),
    handlers := handlers ?s1 \<union> {(nid, 3) | nid. Some (''b'', True) = Some (nid, True)}\<rparr>"
  have "net_step ?s0 ?s1"
    by (rule net_step.dial) (simp_all add: start_sys_def newNodosum_def demo_member_def)
  moreover have "net_step ?s1 ?s2"
    by (rule net_step.accept [where certs = "[''b'']"])
      (simp_all add: start_sys_def newNodosum_def demo_member_def handleQuicConn_def)
  moreover have "net_step ?s2 demo_race"
    unfolding demo_race_def Let_def by (rule net_step.register) simp
  ultimately show ?thesis
    by (meson net_reachable.start net_reachable.step)
qed

theorem connections_accounted_witness:
  "quicConns (sysNode demo_race) ''b'' = Some 3 \<and> dialledConns demo_race = {2}
   \<and> 2 \<in> ran (quicConns (sysNode demo_race)) \<union> snd ` inFlight demo_race \<union> closedConns (sysNode demo_race)"
proof -
  have "quicConns (sysNode demo_race) ''b'' = Some 3" "dialledConns demo_race = {2}"
    by (simp_all add: demo_race_def start_sys_def newNodosum_def demo_member_def handleQuicConn_def
        join_dialled_def Let_def)
  with connections_accounted [OF demo_race_reachable] show ?thesis by auto
qed

text \<open>
  Ports and metadata. A node announces its port in two bytes; the peers that read them dial
  the port modulo 65536, so exactly ports below 65536 arrive as they were configured. A node
  whose metadata is shorter is never dialled (the slice panics, the panic is recovered), and
  the attempt changes nothing.
\<close>

theorem announced_port:
  "quicPort \<lparr>mName = i, mMeta = NodeMeta n\<rparr> = Some (quicAdvertisePort n mod 65536)
   \<and> (quicPort \<lparr>mName = i, mMeta = NodeMeta n\<rparr> = Some (quicAdvertisePort n) \<longleftrightarrow> quicAdvertisePort n < 65536)
   \<and> (\<forall>b. quicConns n i = None \<longrightarrow> NotifyJoin resolves dial \<lparr>mName = i, mMeta = [b]\<rparr> n = (None, n))"
  by (auto simp: quicPort_def NodeMeta_def unat_of_nat NotifyJoin_def join_check_def)

theorem announced_port_witness:
  "NotifyJoin True (Some 4) \<lparr>mName = ''b'', mMeta = [7]\<rparr> (newNodosum ''a'' 8080) = (None, newNodosum ''a'' 8080)"
  using announced_port [of "''b''" "newNodosum ''a'' 8080" True "Some 4"] by (simp add: newNodosum_def)

section \<open>Streams of a node\<close>

text \<open>The key of a stream in the table, \<open>"%s:%s:%s"\<close>.\<close>

definition streamKey :: "string \<Rightarrow> string \<Rightarrow> string \<Rightarrow> string" where
  "streamKey nid app name = nid @ '':'' @ app @ '':'' @ name"

lemma prefix_streamKey:
  assumes "CHR '':'' \<notin> set nid" and "CHR '':'' \<notin> set left"
  shows "prefix (left @ '':'') (streamKey nid app name) \<longleftrightarrow> nid = left"
proof
  assume "prefix (left @ '':'') (streamKey nid app name)"
  then obtain zs where "left @ CHR '':'' # zs = nid @ CHR '':'' # (app @ '':'' @ name)"
    by (auto simp: streamKey_def prefix_def)
  from split_at_separator [OF this assms(2,1)] show "nid = left" by simp
qed (simp add: streamKey_def prefix_def)

lemma NotifyLeave_streams:
  "quicStreams (NotifyLeave m n) = (\<lambda>key. if prefix (mName m @ '':'') key then None else quicStreams n key)"
  "closedStreams (NotifyLeave m n)
     = closedStreams n \<union> {s. \<exists>key. quicStreams n key = Some s \<and> prefix (mName m @ '':'') key}"
  by (simp_all add: NotifyLeave_def closeQuicConnection_def closeStreams_def closeConn_def callHook_def
      clearAttempts_def split: option.split)

text \<open>
  Leaving. When a node leaves, its connection is closed and forgotten, its failed dials are
  forgotten, every stream to it is closed and forgotten, the topology hook is called, and the
  streams to a node of another name stay, provided that names contain no colon. A name with a
  colon breaks the last part: when \<open>a\<close> leaves, the streams to \<open>a:x\<close> are closed as well, though
  the connection to it stays.
\<close>

theorem leave_cleans_up:
  assumes "CHR '':'' \<notin> set (mName m)" and "quicConns n (mName m) = Some c"
  defines "n' \<equiv> NotifyLeave m n"
  shows "quicConns n' (mName m) = None \<and> c \<in> closedConns n' \<and> dialAttempts n' (mName m) = 0
    \<and> hookCalls n' = (if hookSet n then hookCalls n @ [(mName m, False)] else hookCalls n)
    \<and> (\<forall>app name s. quicStreams n (streamKey (mName m) app name) = Some s \<longrightarrow>
        quicStreams n' (streamKey (mName m) app name) = None \<and> s \<in> closedStreams n')
    \<and> (\<forall>nid app name. CHR '':'' \<notin> set nid \<longrightarrow> nid \<noteq> mName m \<longrightarrow>
        quicStreams n' (streamKey nid app name) = quicStreams n (streamKey nid app name)
        \<and> quicConns n' nid = quicConns n nid)
    \<and> (\<forall>x app name. x \<noteq> '''' \<longrightarrow> quicStreams n' (streamKey (mName m @ '':'' @ x) app name) = None
        \<and> quicConns n' (mName m @ '':'' @ x) = quicConns n (mName m @ '':'' @ x))"
proof -
  have "dialAttempts n' (mName m) = 0"
    "hookCalls n' = (if hookSet n then hookCalls n @ [(mName m, False)] else hookCalls n)"
    by (simp_all add: n'_def NotifyLeave_def closeQuicConnection_def closeStreams_def closeConn_def
        callHook_def clearAttempts_def split: option.split)
  moreover have own: "prefix (mName m @ '':'') (streamKey (mName m) app name)" for app name
    by (simp add: streamKey_def prefix_def)
  moreover have "prefix (mName m @ '':'') (streamKey (mName m @ '':'' @ x) app name)" for x app name
    by (simp add: streamKey_def prefix_def)
  moreover have "mName m @ '':'' @ x \<noteq> mName m" for x by simp
  ultimately show ?thesis
    using assms(2) prefix_streamKey [OF _ assms(1)]
    by (auto simp: n'_def NotifyLeave_streams)
qed

definition demo_streams :: nodosum where
  "demo_streams = (newNodosum ''a'' 8080)\<lparr>hookSet := True,
     quicConns := [''b'' \<mapsto> 3, ''b:2'' \<mapsto> 4, ''d'' \<mapsto> 5],
     quicStreams := [streamKey ''b'' ''S'' ''data'' \<mapsto> 6, streamKey ''b:2'' ''S'' ''data'' \<mapsto> 7,
       streamKey ''d'' ''S'' ''data'' \<mapsto> 8]\<rparr>"

theorem leave_cleans_up_witness:
  "quicStreams (NotifyLeave (demo_member ''b'') demo_streams) (streamKey ''b'' ''S'' ''data'') = None
   \<and> quicStreams (NotifyLeave (demo_member ''b'') demo_streams) (streamKey ''d'' ''S'' ''data'') = Some 8
   \<and> quicStreams (NotifyLeave (demo_member ''b'') demo_streams) (streamKey (''b'' @ '':'' @ ''2'') ''S'' ''data'') = None
   \<and> quicConns (NotifyLeave (demo_member ''b'') demo_streams) (''b'' @ '':'' @ ''2'') = Some 4"
proof -
  have A: "CHR '':'' \<notin> set (mName (demo_member ''b''))"
    "quicConns demo_streams (mName (demo_member ''b'')) = Some 3"
    by (simp_all add: demo_member_def demo_streams_def)
  note L = leave_cleans_up [OF A]
  have D: "mName (demo_member ''b'') = ''b''"
    "quicStreams demo_streams (streamKey ''b'' ''S'' ''data'') = Some 6"
    "quicStreams demo_streams (streamKey ''d'' ''S'' ''data'') = Some 8"
    "quicConns demo_streams (''b'' @ '':'' @ ''2'') = Some 4"
    by (simp_all add: demo_member_def demo_streams_def streamKey_def)
  have "CHR '':'' \<notin> set ''d''" "''d'' \<noteq> ''b''" "''2'' \<noteq> ''''" by simp_all
  with L D show ?thesis by metis
qed

end
