(* ===== verification/Streams.thy ===== *)
theory Streams
  imports Nodosum Remote
begin

text \<open>
  Streams and applications (\<open>internal/nodosum/registry.go\<close>, \<open>conn.go\<close>, \<open>application.go\<close>): opening
  and closing streams, the read loop and its handlers, sending, requests and their responses.

  The two tables are guarded by read-write mutexes, which are part of the state, because two
  paths leave one locked: \<open>getOrOpenQuicStream\<close> for a node without a connection, and the end of
  every read loop. An operation is run alone, so a mutex that is not free when an operation
  starts was left locked and is never unlocked: an operation that has to wait for it never
  goes on, which is the result \<open>None\<close>.
\<close>

section \<open>Mutexes\<close>

text \<open>
  \<open>sync.RWMutex\<close>: a reader waits for a writer, held or waiting; a writer waits for readers and
  writers, and holds back readers from then on.
\<close>

record rwmutex =
  rdrs :: nat
  held :: bool
  waiting :: bool

definition free_mutex :: rwmutex where
  "free_mutex = \<lparr>rdrs = 0, held = False, waiting = False\<rparr>"

definition mutex_RLock :: "rwmutex \<Rightarrow> bool \<times> rwmutex" where
  "mutex_RLock m = (if held m \<or> waiting m then (False, m) else (True, m\<lparr>rdrs := Suc (rdrs m)\<rparr>))"

definition mutex_RUnlock :: "rwmutex \<Rightarrow> rwmutex" where
  "mutex_RUnlock m = m\<lparr>rdrs := rdrs m - 1\<rparr>"

definition mutex_Lock :: "rwmutex \<Rightarrow> bool \<times> rwmutex" where
  "mutex_Lock m = (if held m \<or> 0 < rdrs m then (False, m\<lparr>waiting := True\<rparr>) else (True, m\<lparr>held := True\<rparr>))"

definition mutex_Unlock :: "rwmutex \<Rightarrow> rwmutex" where
  "mutex_Unlock m = m\<lparr>held := False\<rparr>"

section \<open>State\<close>

text \<open>
  An application: the queue of its receive worker (capacity 100), what the worker has taken,
  the buffered channels (capacity 1) of its pending requests, its request handler. A handler
  works on the state of the application; \<open>None\<close> means it does not return.
\<close>

type_synonym 's request_handler = "byte list \<Rightarrow> string \<Rightarrow> 's \<Rightarrow> ((byte list \<times> string option) \<times> 's) option"

record 's application =
  inputChan :: "byte list list"
  handled :: "byte list list"
  pendingRequests :: "string \<rightharpoonup> ResponseFrame list"
  requestHandler :: "'s request_handler option"

text \<open>
  A node with its streams: \<open>outBytes\<close> is what was written to a stream, \<open>readLoops\<close> the read loops
  that were started (stream, node, application, name).
\<close>

record 's peer =
  pNode :: nodosum
  connsMu :: rwmutex
  streamsMu :: rwmutex
  nextStream :: stream
  outBytes :: "stream \<Rightarrow> byte list"
  readLoops :: "(stream \<times> string \<times> string \<times> string) list"
  applications :: "string \<rightharpoonup> 's application"
  appState :: 's

type_synonym ('s, 'a) act = "'s peer \<Rightarrow> 'a option \<times> 's peer"

definition finish :: "'a \<Rightarrow> ('s, 'a) act" where
  "finish x p = (Some x, p)"

definition seq :: "('s, 'a) act \<Rightarrow> ('a \<Rightarrow> ('s, 'b) act) \<Rightarrow> ('s, 'b) act" where
  "seq m f p = (case m p of (None, p') \<Rightarrow> (None, p') | (Some x, p') \<Rightarrow> f x p')"

definition conns_RLock :: "('s, unit) act" where
  "conns_RLock p = (case mutex_RLock (connsMu p) of (ok, m) \<Rightarrow>
     (if ok then Some () else None, p\<lparr>connsMu := m\<rparr>))"

definition conns_Lock :: "('s, unit) act" where
  "conns_Lock p = (case mutex_Lock (connsMu p) of (ok, m) \<Rightarrow>
     (if ok then Some () else None, p\<lparr>connsMu := m\<rparr>))"

definition conns_RUnlock :: "('s, unit) act" where
  "conns_RUnlock p = (Some (), p\<lparr>connsMu := mutex_RUnlock (connsMu p)\<rparr>)"

definition conns_Unlock :: "('s, unit) act" where
  "conns_Unlock p = (Some (), p\<lparr>connsMu := mutex_Unlock (connsMu p)\<rparr>)"

definition streams_RLock :: "('s, unit) act" where
  "streams_RLock p = (case mutex_RLock (streamsMu p) of (ok, m) \<Rightarrow>
     (if ok then Some () else None, p\<lparr>streamsMu := m\<rparr>))"

definition streams_Lock :: "('s, unit) act" where
  "streams_Lock p = (case mutex_Lock (streamsMu p) of (ok, m) \<Rightarrow>
     (if ok then Some () else None, p\<lparr>streamsMu := m\<rparr>))"

definition streams_RUnlock :: "('s, unit) act" where
  "streams_RUnlock p = (Some (), p\<lparr>streamsMu := mutex_RUnlock (streamsMu p)\<rparr>)"

definition streams_Unlock :: "('s, unit) act" where
  "streams_Unlock p = (Some (), p\<lparr>streamsMu := mutex_Unlock (streamsMu p)\<rparr>)"

definition on_node :: "(nodosum \<Rightarrow> nodosum) \<Rightarrow> ('s, unit) act" where
  "on_node f p = (Some (), p\<lparr>pNode := f (pNode p)\<rparr>)"

definition look :: "('s peer \<Rightarrow> 'a) \<Rightarrow> ('s, 'a) act" where
  "look f p = (Some (f p), p)"

section \<open>Streams\<close>

text \<open>
  What QUIC does: whether a stream can be opened on a connection, and whether a write to a
  stream to or from a node succeeds.
\<close>

record quic =
  qOpens :: "conn \<Rightarrow> bool"
  qWrites :: "string \<Rightarrow> bool"

datatype net_error = NoConnection string | OpenFails | WriteError

definition stream_write :: "quic \<Rightarrow> string \<Rightarrow> stream \<Rightarrow> byte list \<Rightarrow> ('s, bool) act" where
  "stream_write q nid st bs p =
     (if qWrites q nid then (Some True, p\<lparr>outBytes := (outBytes p)(st := outBytes p st @ bs)\<rparr>)
      else (Some False, p))"

definition new_stream :: "('s, stream) act" where
  "new_stream p = (Some (nextStream p), p\<lparr>nextStream := Suc (nextStream p)\<rparr>)"

definition put_stream :: "string \<Rightarrow> stream \<Rightarrow> ('s, unit) act" where
  "put_stream key st = on_node (\<lambda>n. n\<lparr>quicStreams := (quicStreams n)(key \<mapsto> st)\<rparr>)"

definition start_loop :: "stream \<Rightarrow> string \<Rightarrow> string \<Rightarrow> string \<Rightarrow> ('s, unit) act" where
  "start_loop st nid app name p = (Some (), p\<lparr>readLoops := readLoops p @ [(st, nid, app, name)]\<rparr>)"

text \<open>A failed write of the initial frame is only logged.\<close>

definition open_stream :: "quic \<Rightarrow> string \<Rightarrow> string \<Rightarrow> string \<Rightarrow> conn \<Rightarrow> ('s, net_error + stream) act" where
  "open_stream q nid app name c =
     (if \<not> qOpens q c then finish (Inl OpenFails)
      else seq new_stream (\<lambda>st. seq (look (\<lambda>p. nsId (pNode p))) (\<lambda>self.
        seq (stream_write q nid st (encodeStreamInit self app name)) (\<lambda>_.
        seq streams_Lock (\<lambda>_. seq (put_stream (streamKey nid app name) st) (\<lambda>_. seq streams_Unlock (\<lambda>_.
        seq (start_loop st nid app name) (\<lambda>_. finish (Inr st)))))))))"

definition getOrOpenQuicStream ::
    "quic \<Rightarrow> string \<Rightarrow> string \<Rightarrow> string \<Rightarrow> ('s, net_error + stream) act" where
  "getOrOpenQuicStream q nid app name =
     (let key = streamKey nid app name in
      seq streams_RLock (\<lambda>_. seq (look (\<lambda>p. quicStreams (pNode p) key)) (\<lambda>found.
      seq streams_RUnlock (\<lambda>_. case found of
        Some st \<Rightarrow> finish (Inr st)
      | None \<Rightarrow>
          seq conns_RLock (\<lambda>_. seq (look (\<lambda>p. quicConns (pNode p) nid)) (\<lambda>conn. case conn of
            None \<Rightarrow> finish (Inl (NoConnection key))
          | Some c \<Rightarrow> seq conns_RUnlock (\<lambda>_. open_stream q nid app name c)))))))"

text \<open>\<open>closeQuicStream\<close> takes no lock.\<close>

definition closeQuicStream :: "string \<Rightarrow> ('s, unit) act" where
  "closeQuicStream key = on_node (\<lambda>n. case quicStreams n key of
       None \<Rightarrow> n
     | Some st \<Rightarrow> n\<lparr>closedStreams := insert st (closedStreams n), quicStreams := (quicStreams n)(key := None)\<rparr>)"

definition closeAllQuicStreams :: "('s, unit) act" where
  "closeAllQuicStreams = seq streams_Lock (\<lambda>_.
     seq (on_node (\<lambda>n. n\<lparr>closedStreams := closedStreams n \<union> ran (quicStreams n), quicStreams := Map.empty\<rparr>))
       (\<lambda>_. streams_Unlock))"

text \<open>The operations of the connection table with their locks.\<close>

definition locked_closeQuicConnection :: "string \<Rightarrow> ('s, unit) act" where
  "locked_closeQuicConnection nid =
     seq streams_Lock (\<lambda>_. seq (on_node (closeStreams nid)) (\<lambda>_. seq streams_Unlock (\<lambda>_.
     seq conns_Lock (\<lambda>_. seq (on_node (closeConn nid)) (\<lambda>_. conns_Unlock)))))"

definition locked_join_dialled :: "memberNode \<Rightarrow> conn \<Rightarrow> ('s, unit) act" where
  "locked_join_dialled m c =
     seq conns_Lock (\<lambda>_. seq (on_node (join_dialled m c)) (\<lambda>_. conns_Unlock))"

definition locked_getConnectedNodes :: "(string set \<Rightarrow> string list) \<Rightarrow> ('s, string list) act" where
  "locked_getConnectedNodes enum =
     seq conns_RLock (\<lambda>_. seq (look (\<lambda>p. getConnectedNodes enum (pNode p))) (\<lambda>ids.
     seq conns_RUnlock (\<lambda>_. finish ids)))"

text \<open>The accepting side: the initial frame names the stream.\<close>

definition handleStream :: "stream \<Rightarrow> instream \<Rightarrow> ('s, instream) act" where
  "handleStream st inp =
     (case acceptStreamInit inp of
        (Inr (Some (nid, app, name)), rest) \<Rightarrow>
          seq streams_Lock (\<lambda>_. seq (put_stream (streamKey nid app name) st) (\<lambda>_.
          seq streams_Unlock (\<lambda>_. seq (start_loop st nid app name) (\<lambda>_. finish rest))))
      | (_, rest) \<Rightarrow> finish rest)"

section \<open>Applications\<close>

definition new_application :: "'s application" where
  "new_application = \<lparr>inputChan = [], handled = [], pendingRequests = Map.empty, requestHandler = None\<rparr>"

text \<open>A second registration under the same identifier replaces the first.\<close>

definition RegisterApplication :: "string \<Rightarrow> ('s, unit) act" where
  "RegisterApplication app p = (Some (), p\<lparr>applications := (applications p)(app \<mapsto> new_application)\<rparr>)"

definition GetApplication :: "string \<Rightarrow> ('s, 's application option) act" where
  "GetApplication app = look (\<lambda>p. applications p app)"

definition on_app :: "string \<Rightarrow> ('s application \<Rightarrow> 's application) \<Rightarrow> ('s, unit) act" where
  "on_app app f p = (Some (), p\<lparr>applications := (applications p)(app := map_option f (applications p app))\<rparr>)"

definition SetRequestHandler :: "string \<Rightarrow> 's request_handler \<Rightarrow> ('s, unit) act" where
  "SetRequestHandler app h = on_app app (\<lambda>a. a\<lparr>requestHandler := Some h\<rparr>)"

text \<open>
  The receive queue. When it is full the sender waits for up to 100 ms: \<open>drains\<close> tells whether the
  worker takes a message in that time.
\<close>

definition receive_one :: "'s application \<Rightarrow> 's application" where
  "receive_one a = (case inputChan a of [] \<Rightarrow> a
     | m # ms \<Rightarrow> a\<lparr>inputChan := ms, handled := handled a @ [m]\<rparr>)"

definition enqueue_message :: "bool \<Rightarrow> byte list \<Rightarrow> 's application \<Rightarrow> 's application" where
  "enqueue_message drains payload a =
     (if length (inputChan a) < 100 then a\<lparr>inputChan := inputChan a @ [payload]\<rparr>
      else if drains then (let a' = receive_one a in a'\<lparr>inputChan := inputChan a' @ [payload]\<rparr>)
      else a)"

definition routeToApplication :: "bool \<Rightarrow> string \<Rightarrow> byte list \<Rightarrow> ('s, unit) act" where
  "routeToApplication drains app payload = on_app app (enqueue_message drains payload)"

section \<open>Sending\<close>

fun send_each ::
    "quic \<Rightarrow> string \<Rightarrow> byte list \<Rightarrow> string list \<Rightarrow> (string \<times> net_error) list
      \<Rightarrow> ('s, (string \<times> net_error) list) act" where
  "send_each q app payload [] errs = finish errs"
| "send_each q app payload (nid # nids) errs =
     seq (getOrOpenQuicStream q nid app ''data'') (\<lambda>r. case r of
       Inl e \<Rightarrow> send_each q app payload nids (errs @ [(nid, e)])
     | Inr st \<Rightarrow> seq (stream_write q nid st (encodeDataFrame payload)) (\<lambda>ok.
         if ok then send_each q app payload nids errs
         else send_each q app payload nids (errs @ [(nid, WriteError)])))"

datatype send_error = NoNodes | FailedTo nat nat "(string \<times> net_error) list"

definition Send ::
    "quic \<Rightarrow> (string set \<Rightarrow> string list) \<Rightarrow> string \<Rightarrow> byte list \<Rightarrow> string list \<Rightarrow> ('s, send_error + unit) act" where
  "Send q enum app payload ids =
     seq (if ids = [] then locked_getConnectedNodes enum else finish ids) (\<lambda>targetNodes.
       if targetNodes = [] then finish (Inl NoNodes)
       else seq (send_each q app payload targetNodes []) (\<lambda>sendErrors.
         if sendErrors \<noteq> [] then finish (Inl (FailedTo (length sendErrors) (length targetNodes) sendErrors))
         else finish (Inr ())))"

section \<open>Requests\<close>

definition sendRequestFrame :: "quic \<Rightarrow> string \<Rightarrow> RequestFrame \<Rightarrow> string \<Rightarrow> ('s, net_error + unit) act" where
  "sendRequestFrame q app req target =
     seq (getOrOpenQuicStream q target app ''request'') (\<lambda>r. case r of
       Inl e \<Rightarrow> finish (Inl e)
     | Inr st \<Rightarrow> seq (stream_write q target st (encodeRequestFrame req)) (\<lambda>ok.
         if ok then finish (Inr ()) else finish (Inl WriteError)))"

definition set_pending :: "string \<Rightarrow> ResponseFrame list option \<Rightarrow> 's application \<Rightarrow> 's application" where
  "set_pending cid v a = a\<lparr>pendingRequests := (pendingRequests a)(cid := v)\<rparr>"

datatype request_error = SendFailed net_error | RemoteError string | RequestTimeout | ContextCancelled

text \<open>
  \<open>Request\<close> up to the \<open>select\<close>, with the correlation id (\<open>uuid\<close>) as an argument, and from the \<open>select\<close>
  on, with what wakes it up; the channel is ready if a response is in it.
\<close>

definition Request_send :: "quic \<Rightarrow> string \<Rightarrow> string \<Rightarrow> byte list \<Rightarrow> string \<Rightarrow> ('s, request_error + unit) act" where
  "Request_send q app cid payload target =
     seq (on_app app (set_pending cid (Some []))) (\<lambda>_.
     seq (sendRequestFrame q app \<lparr>reqCorrelationID = cid, reqPayload = payload\<rparr> target) (\<lambda>r. case r of
       Inl e \<Rightarrow> seq (on_app app (set_pending cid None)) (\<lambda>_. finish (Inl (SendFailed e)))
     | Inr _ \<Rightarrow> finish (Inr ())))"

datatype wakeup = ResponseArrived | TimedOut | Cancelled

definition Request_wait :: "string \<Rightarrow> string \<Rightarrow> wakeup \<Rightarrow> ('s, request_error + byte list) act" where
  "Request_wait app cid w =
     seq (look (\<lambda>p. case applications p app of None \<Rightarrow> None | Some a \<Rightarrow> pendingRequests a cid)) (\<lambda>chan.
     seq (on_app app (set_pending cid None)) (\<lambda>_. case w of
       TimedOut \<Rightarrow> finish (Inl RequestTimeout)
     | Cancelled \<Rightarrow> finish (Inl ContextCancelled)
     | ResponseArrived \<Rightarrow> (case chan of
           Some (resp # _) \<Rightarrow>
             if respError resp \<noteq> '''' then finish (Inl (RemoteError (respError resp)))
             else finish (Inr (respPayload resp))
         | _ \<Rightarrow> (\<lambda>p. (None, p)))))"

section \<open>The read loop\<close>

definition respond :: "quic \<Rightarrow> string \<Rightarrow> stream \<Rightarrow> ResponseFrame \<Rightarrow> ('s, unit) act" where
  "respond q nid st resp p =
     (Some (), if qWrites q nid then p\<lparr>outBytes := (outBytes p)(st := sendResponseFrame resp (outBytes p st))\<rparr> else p)"

definition call_handler :: "'s request_handler \<Rightarrow> byte list \<Rightarrow> string \<Rightarrow> ('s, byte list \<times> string option) act" where
  "call_handler h payload nid p = (case h payload nid (appState p) of
     None \<Rightarrow> (None, p) | Some (r, s') \<Rightarrow> (Some r, p\<lparr>appState := s'\<rparr>))"

definition handleRequest :: "quic \<Rightarrow> stream \<Rightarrow> string \<Rightarrow> byte list \<Rightarrow> string \<Rightarrow> ('s, unit) act" where
  "handleRequest q st app frameData nid =
     (case decodeRequestFrame frameData empty_request of
        (_, Some e) \<Rightarrow> finish ()
      | (req, None) \<Rightarrow>
          seq (look (\<lambda>p. case applications p app of None \<Rightarrow> None | Some a \<Rightarrow> requestHandler a)) (\<lambda>h. case h of
            None \<Rightarrow> respond q nid st \<lparr>respCorrelationID = reqCorrelationID req, respPayload = [],
                respError = ''application not found or no request handler''\<rparr>
          | Some f \<Rightarrow> seq (call_handler f (reqPayload req) nid) (\<lambda>(respPayload, err).
              respond q nid st \<lparr>respCorrelationID = reqCorrelationID req, respPayload = respPayload,
                respError = (case err of None \<Rightarrow> '''' | Some e \<Rightarrow> e)\<rparr>)))"

text \<open>The application that waits for a response: the first, in the order of the map, with its id.\<close>

fun find_pending :: "string \<Rightarrow> (string \<rightharpoonup> 's application) \<Rightarrow> string list \<Rightarrow> string option" where
  "find_pending cid appls [] = None"
| "find_pending cid appls (app # rest) =
     (case appls app of
        Some a \<Rightarrow> (if pendingRequests a cid \<noteq> None then Some app else find_pending cid appls rest)
      | None \<Rightarrow> find_pending cid appls rest)"

text \<open>A send to a channel that already holds a response is dropped.\<close>

definition deliver_response :: "ResponseFrame \<Rightarrow> 's application \<Rightarrow> 's application" where
  "deliver_response resp a =
     (case pendingRequests a (respCorrelationID resp) of
        Some [] \<Rightarrow> set_pending (respCorrelationID resp) (Some [resp]) a
      | _ \<Rightarrow> a)"

definition handleResponse :: "(string set \<Rightarrow> string list) \<Rightarrow> byte list \<Rightarrow> ('s, unit) act" where
  "handleResponse enum frameData =
     (case decodeResponseFrame frameData empty_response of
        (_, Some e) \<Rightarrow> finish ()
      | (resp, None) \<Rightarrow>
          seq (look (\<lambda>p. find_pending (respCorrelationID resp) (applications p) (enum (dom (applications p))))) (\<lambda>found.
            case found of None \<Rightarrow> finish () | Some app \<Rightarrow> on_app app (deliver_response resp)))"

definition isQuicConnectionClosed :: "read_error \<Rightarrow> bool" where
  "isQuicConnectionClosed err = (case err of
       ApplicationError \<Rightarrow> True | IdleTimeoutError \<Rightarrow> True | StatelessResetError \<Rightarrow> True
     | EOF \<Rightarrow> True | NetErrClosed \<Rightarrow> True
     | OtherError s \<Rightarrow> sublist ''timeout: no recent network activity'' s
     | _ \<Rightarrow> False)"

definition handleFrame ::
    "quic \<Rightarrow> bool \<Rightarrow> (string set \<Rightarrow> string list) \<Rightarrow> stream \<Rightarrow> string \<Rightarrow> string \<Rightarrow> byte \<times> byte list \<Rightarrow> ('s, unit) act" where
  "handleFrame q drains enum st nid app frame =
     (if fst frame = FRAME_TYPE_DATA then routeToApplication drains app (snd frame)
      else if fst frame = FRAME_TYPE_REQUEST then handleRequest q st app (snd frame) nid
      else if fst frame = FRAME_TYPE_RESPONSE then handleResponse enum (snd frame)
      else finish ())"

text \<open>The deferred function: the stream table is locked and stays so.\<close>

definition streamReadLoop_exit :: "stream \<Rightarrow> string \<Rightarrow> string \<Rightarrow> string \<Rightarrow> ('s, unit) act" where
  "streamReadLoop_exit st nid app name =
     seq (on_node (\<lambda>n. n\<lparr>closedStreams := insert st (closedStreams n)\<rparr>)) (\<lambda>_.
     seq streams_Lock (\<lambda>_.
       on_node (\<lambda>n. n\<lparr>quicStreams := (quicStreams n)(streamKey nid app name := None)\<rparr>)))"

text \<open>\<open>left\<close> is the number of checks that find the context alive; the result says how the loop ended.\<close>

fun streamReadLoop ::
    "quic \<Rightarrow> bool \<Rightarrow> (string set \<Rightarrow> string list) \<Rightarrow> stream \<Rightarrow> string \<Rightarrow> string \<Rightarrow> string \<Rightarrow> nat \<Rightarrow> instream
      \<Rightarrow> ('s, unit) act" where
  "streamReadLoop q drains enum st nid app name 0 inp = streamReadLoop_exit st nid app name"
| "streamReadLoop q drains enum st nid app name (Suc left) inp =
     (case readFrame inp of
        (Inl e, inp') \<Rightarrow>
          if isQuicConnectionClosed e then streamReadLoop_exit st nid app name
          else streamReadLoop q drains enum st nid app name left inp'
      | (Inr frame, inp') \<Rightarrow> seq (handleFrame q drains enum st nid app frame)
          (\<lambda>_. streamReadLoop q drains enum st nid app name left inp'))"

lemmas mutex_defs = mutex_RLock_def mutex_RUnlock_def mutex_Lock_def mutex_Unlock_def

lemmas lock_defs = conns_RLock_def conns_Lock_def conns_RUnlock_def conns_Unlock_def streams_RLock_def
  streams_Lock_def streams_RUnlock_def streams_Unlock_def mutex_defs

lemmas act_defs = seq_def finish_def look_def on_node_def on_app_def put_stream_def new_stream_def
  start_loop_def stream_write_def

end
