(* ===== verification/Stream_Locks.thy ===== *)
theory Stream_Locks
  imports Streams
begin

text \<open>
  The mutexes of the stream and connection tables that the code leaves locked: which operations
  wait for them, that no operation ever unlocks them, and what that does to a node. \<open>peer_step\<close>
  is any operation of a node, run to its end or to where it blocks.
\<close>

section \<open>What a locked mutex does\<close>

text \<open>
  An action keeps a condition if the state after it satisfies it whenever the state before did,
  whether the action ends or blocks.
\<close>

definition keeps :: "('s peer \<Rightarrow> bool) \<Rightarrow> ('s, 'a) act \<Rightarrow> bool" where
  "keeps P m \<longleftrightarrow> (\<forall>p. P p \<longrightarrow> P (snd (m p)))"

lemma keepsD: "keeps P m \<Longrightarrow> P p \<Longrightarrow> P (snd (m p))"
  by (simp add: keeps_def)

lemma keeps_seq: "keeps P m \<Longrightarrow> (\<And>x. keeps P (f x)) \<Longrightarrow> keeps P (seq m f)"
  unfolding keeps_def seq_def by (auto split: prod.split option.split)

lemma keeps_option: "keeps P m \<Longrightarrow> (\<And>x. keeps P (f x)) \<Longrightarrow> keeps P (case x of None \<Rightarrow> m | Some y \<Rightarrow> f y)"
  by (cases x) simp_all

lemma keeps_sum: "(\<And>x. keeps P (f x)) \<Longrightarrow> (\<And>x. keeps P (g x)) \<Longrightarrow> keeps P (case x of Inl y \<Rightarrow> f y | Inr y \<Rightarrow> g y)"
  by (cases x) simp_all

lemma keeps_if: "keeps P m \<Longrightarrow> keeps P m' \<Longrightarrow> keeps P (if c then m else m')"
  by simp

definition streams_stuck :: "'s peer \<Rightarrow> bool" where
  "streams_stuck p \<longleftrightarrow> held (streamsMu p)"

definition conns_stuck :: "'s peer \<Rightarrow> bool" where
  "conns_stuck p \<longleftrightarrow> 0 < rdrs (connsMu p)"

definition conns_shut :: "'s peer \<Rightarrow> bool" where
  "conns_shut p \<longleftrightarrow> 0 < rdrs (connsMu p) \<and> waiting (connsMu p)"

lemmas stuck_defs = streams_stuck_def conns_stuck_def conns_shut_def

text \<open>Conditions on the mutexes alone, and the actions that do not touch these.\<close>

definition on_mutexes :: "('s peer \<Rightarrow> bool) \<Rightarrow> bool" where
  "on_mutexes P \<longleftrightarrow> (\<forall>p p'. connsMu p' = connsMu p \<longrightarrow> streamsMu p' = streamsMu p \<longrightarrow> P p \<longrightarrow> P p')"

lemma on_mutexes_stuck [simp]: "on_mutexes streams_stuck" "on_mutexes conns_stuck" "on_mutexes conns_shut"
  by (simp_all add: on_mutexes_def stuck_defs)

lemma keeps_same:
  assumes "on_mutexes P"
    and "\<And>p. connsMu (snd (m p)) = connsMu p" and "\<And>p. streamsMu (snd (m p)) = streamsMu p"
  shows "keeps P m"
  using assms unfolding keeps_def on_mutexes_def by blast

lemma keeps_others:
  assumes "on_mutexes P"
  shows "keeps P (finish x)" "keeps P (look g)" "keeps P (on_node f)" "keeps P (on_app app h)" "keeps P (put_stream key st)"
    "keeps P new_stream" "keeps P (start_loop st nid app name)" "keeps P (stream_write q nid st bs)"
    "keeps P (respond q nid st resp)" "keeps P (call_handler rh payload nid)" "keeps P (\<lambda>p. (None, p))"
  by (intro keeps_same [OF assms]; simp add: act_defs respond_def call_handler_def split: option.split)+

lemma keeps_streams_stuck:
  "keeps streams_stuck (seq streams_Lock f)" "keeps streams_stuck (seq streams_RLock f)"
  "keeps streams_stuck streams_Lock" "keeps streams_stuck conns_RLock" "keeps streams_stuck conns_RUnlock"
  "keeps streams_stuck conns_Lock" "keeps streams_stuck conns_Unlock"
  by (simp_all add: keeps_def streams_stuck_def lock_defs seq_def)

definition conns_gone :: "('s peer \<Rightarrow> bool) \<Rightarrow> bool" where
  "conns_gone P \<longleftrightarrow> P = conns_stuck \<or> P = conns_shut"

lemma conns_gone_mutexes: "conns_gone P \<Longrightarrow> on_mutexes P"
  by (auto simp: conns_gone_def)

lemma keeps_conns_gone:
  assumes "conns_gone P"
  shows "keeps P (seq conns_Lock f)" "keeps P streams_RLock" "keeps P streams_RUnlock" "keeps P streams_Lock"
    "keeps P streams_Unlock"
  using assms by (auto simp: conns_gone_def keeps_def stuck_defs lock_defs seq_def)

lemma keeps_conns_read:
  assumes P: "conns_gone P" and f: "\<And>x. keeps P (f x)"
  shows "keeps P (seq conns_RLock (\<lambda>_. seq (look h) (\<lambda>x. seq conns_RUnlock (\<lambda>_. f x))))"
    and "keeps P (seq conns_RLock (\<lambda>_. seq (look h') (\<lambda>x. case x of None \<Rightarrow> finish r
      | Some c \<Rightarrow> seq conns_RUnlock (\<lambda>_. f c))))"
proof -
  let ?up = "\<lambda>p. p\<lparr>connsMu := (connsMu p)\<lparr>rdrs := Suc (rdrs (connsMu p))\<rparr>\<rparr>"
  have down: "P (?up p\<lparr>connsMu := (connsMu p)\<lparr>rdrs := rdrs (connsMu p)\<rparr>\<rparr>)" and up: "P (?up p)" if "P p" for p
    using P that by (auto simp: conns_gone_def stuck_defs)
  show "keeps P (seq conns_RLock (\<lambda>_. seq (look h) (\<lambda>x. seq conns_RUnlock (\<lambda>_. f x))))"
    unfolding keeps_def
  proof (intro allI impI)
    fix p
    assume p: "P p"
    show "P (snd (seq conns_RLock (\<lambda>_. seq (look h) (\<lambda>x. seq conns_RUnlock (\<lambda>_. f x))) p))"
      using p keepsD [OF f down [OF p]]
      by (simp add: seq_def conns_RLock_def mutex_RLock_def look_def conns_RUnlock_def mutex_RUnlock_def)
  qed
  show "keeps P (seq conns_RLock (\<lambda>_. seq (look h') (\<lambda>x. case x of None \<Rightarrow> finish r
      | Some c \<Rightarrow> seq conns_RUnlock (\<lambda>_. f c))))"
    unfolding keeps_def
  proof (intro allI impI)
    fix p
    assume p: "P p"
    show "P (snd (seq conns_RLock (\<lambda>_. seq (look h') (\<lambda>x. case x of None \<Rightarrow> finish r
      | Some c \<Rightarrow> seq conns_RUnlock (\<lambda>_. f c))) p))"
      using p up [OF p] keepsD [OF f down [OF p]]
      by (simp add: seq_def conns_RLock_def mutex_RLock_def look_def conns_RUnlock_def mutex_RUnlock_def
          finish_def split: option.split)
  qed
qed

lemma keeps_open:
  "keeps streams_stuck (getOrOpenQuicStream q nid app name)"
  "conns_gone P \<Longrightarrow> keeps P (getOrOpenQuicStream q nid app name)"
proof -
  show "keeps streams_stuck (getOrOpenQuicStream q nid app name)"
    by (simp add: getOrOpenQuicStream_def Let_def keeps_streams_stuck)
  assume P: "conns_gone P"
  note K = keeps_others [OF conns_gone_mutexes [OF P]] keeps_conns_gone [OF P]
  have "keeps P (open_stream q nid app name c)" for c
    unfolding open_stream_def by (intro keeps_if keeps_seq K)
  then show "keeps P (getOrOpenQuicStream q nid app name)"
    unfolding getOrOpenQuicStream_def Let_def
    by (intro keeps_option keeps_conns_read(2) [OF P] keeps_seq [of _ streams_RLock]
        keeps_seq [of _ "look _"] keeps_seq [of _ streams_RUnlock] K)
qed

section \<open>Everything that can happen at a node\<close>

inductive peer_step :: "'s peer \<Rightarrow> 's peer \<Rightarrow> bool" where
  open_it: "peer_step p (snd (getOrOpenQuicStream q nid app name p))"
| close_stream: "peer_step p (snd (closeQuicStream key p))"
| close_all: "peer_step p (snd (closeAllQuicStreams p))"
| close_conn: "peer_step p (snd (locked_closeQuicConnection nid p))"
| dialled: "peer_step p (snd (locked_join_dialled m c p))"
| nodes: "peer_step p (snd (locked_getConnectedNodes enum p))"
| accepted: "peer_step p (snd (handleStream st inp p))"
| register_app: "peer_step p (snd (RegisterApplication app p))"
| set_handler: "peer_step p (snd (SetRequestHandler app h p))"
| worker: "peer_step p (snd (on_app app receive_one p))"
| send: "peer_step p (snd (Send q enum app payload ids p))"
| request: "peer_step p (snd (Request_send q app cid payload target p))"
| wait: "peer_step p (snd (Request_wait app cid w p))"
| frame: "peer_step p (snd (handleFrame q drains enum st nid app fr p))"
| loop: "peer_step p (snd (streamReadLoop q drains enum st nid app name left inp p))"

lemma keeps_send_each:
  assumes "on_mutexes P" and "\<And>nid. keeps P (getOrOpenQuicStream q nid app ''data'')"
  shows "keeps P (send_each q app payload nids errs)"
proof (induction nids arbitrary: errs)
  case Nil
  then show ?case by (simp add: keeps_others [OF assms(1)])
next
  case (Cons nid nids)
  show ?case
    unfolding send_each.simps
    by (intro keeps_seq keeps_sum keeps_if assms(2) Cons.IH keeps_others [OF assms(1)])
qed

lemma keeps_steps:
  assumes P: "on_mutexes P" and op: "\<And>q nid app name. keeps P (getOrOpenQuicStream q nid app name)"
    and ns: "\<And>enum. keeps P (locked_getConnectedNodes enum)"
    and all: "keeps P closeAllQuicStreams" "\<And>nid. keeps P (locked_closeQuicConnection nid)"
      "\<And>m c. keeps P (locked_join_dialled m c)" "\<And>st inp. keeps P (handleStream st inp)"
      "\<And>st nid app name. keeps P (streamReadLoop_exit st nid app name)"
    and step: "peer_step p p'" and p: "P p"
  shows "P p'"
proof -
  note K = keeps_others [OF P]
  have K_frame: "keeps P (handleFrame q drains enum st nid app fr)" for q drains enum st nid app fr
    unfolding handleFrame_def routeToApplication_def handleRequest_def handleResponse_def
    by (auto split: prod.split option.split intro!: K keeps_seq)
  have K_loop: "keeps P (streamReadLoop q drains enum st nid app name left inp)"
    for q drains enum st nid app name left inp
    by (induction left arbitrary: inp) (auto split: prod.split sum.split intro!: all(5) keeps_seq K_frame)
  have K_send: "keeps P (Send q enum app payload ids)" for q enum app payload ids
    unfolding Send_def by (intro keeps_seq keeps_if ns K keeps_send_each P op)
  have K_request: "keeps P (Request_send q app cid payload target)" for q app cid payload target
    unfolding Request_send_def sendRequestFrame_def by (intro keeps_seq keeps_sum keeps_if K op)
  have K_wait: "keeps P (Request_wait app cid w)" for app cid w
    unfolding Request_wait_def
    by (intro keeps_seq K) (auto split: wakeup.split option.split list.split intro!: K)
  have reg: "keeps P (RegisterApplication app)" for app
    by (intro keeps_same [OF P]) (simp_all add: RegisterApplication_def)
  from step show ?thesis
  proof cases
    case open_it
    then show ?thesis using keepsD [OF op p] by simp
  next
    case close_stream
    then show ?thesis using keepsD [OF K(3) p] by (simp add: closeQuicStream_def)
  next
    case close_all
    then show ?thesis using keepsD [OF all(1) p] by simp
  next
    case close_conn
    then show ?thesis using keepsD [OF all(2) p] by simp
  next
    case dialled
    then show ?thesis using keepsD [OF all(3) p] by simp
  next
    case nodes
    then show ?thesis using keepsD [OF ns p] by simp
  next
    case accepted
    then show ?thesis using keepsD [OF all(4) p] by simp
  next
    case register_app
    then show ?thesis using keepsD [OF reg p] by simp
  next
    case set_handler
    then show ?thesis using keepsD [OF K(4) p] by (simp add: SetRequestHandler_def)
  next
    case worker
    then show ?thesis using keepsD [OF K(4) p] by simp
  next
    case send
    then show ?thesis using keepsD [OF K_send p] by simp
  next
    case request
    then show ?thesis using keepsD [OF K_request p] by simp
  next
    case wait
    then show ?thesis using keepsD [OF K_wait p] by simp
  next
    case frame
    then show ?thesis using keepsD [OF K_frame p] by simp
  next
    case loop
    then show ?thesis using keepsD [OF K_loop p] by simp
  qed
qed

lemma streams_stuck_step: "peer_step p p' \<Longrightarrow> streams_stuck p \<Longrightarrow> streams_stuck p'"
proof (erule keeps_steps [OF on_mutexes_stuck(1), rotated -2])
  note K = keeps_streams_stuck keeps_others [OF on_mutexes_stuck(1)]
  show "keeps streams_stuck (getOrOpenQuicStream q nid app name)" for q nid app name by (rule keeps_open(1))
  show "keeps streams_stuck (locked_getConnectedNodes enum)" for enum
    unfolding locked_getConnectedNodes_def by (intro keeps_seq K)
  show "keeps streams_stuck closeAllQuicStreams" unfolding closeAllQuicStreams_def by (rule K)
  show "keeps streams_stuck (locked_closeQuicConnection nid)" for nid
    unfolding locked_closeQuicConnection_def by (rule K)
  show "keeps streams_stuck (locked_join_dialled m c)" for m c
    unfolding locked_join_dialled_def by (intro keeps_seq K)
  show "keeps streams_stuck (handleStream st inp)" for st inp
    unfolding handleStream_def by (auto split: prod.split sum.split option.split intro: K)
  show "keeps streams_stuck (streamReadLoop_exit st nid app name)" for st nid app name
    unfolding streamReadLoop_exit_def by (intro keeps_seq K)
qed assumption

lemma conns_gone_step:
  assumes P: "conns_gone P"
  shows "peer_step p p' \<Longrightarrow> P p \<Longrightarrow> P p'"
proof (erule keeps_steps [OF conns_gone_mutexes [OF P], rotated -2])
  note K = keeps_conns_gone [OF P] keeps_others [OF conns_gone_mutexes [OF P]]
  show "keeps P (getOrOpenQuicStream q nid app name)" for q nid app name by (rule keeps_open(2) [OF P])
  show "keeps P (locked_getConnectedNodes enum)" for enum
    unfolding locked_getConnectedNodes_def by (intro keeps_conns_read(1) [OF P] K)
  show "keeps P closeAllQuicStreams" unfolding closeAllQuicStreams_def by (intro keeps_seq K)
  show "keeps P (locked_closeQuicConnection nid)" for nid
    unfolding locked_closeQuicConnection_def
    by (intro keeps_seq [of _ streams_Lock] keeps_seq [of _ "on_node _"] keeps_seq [of _ streams_Unlock] K)
  show "keeps P (locked_join_dialled m c)" for m c
    unfolding locked_join_dialled_def by (rule K)
  show "keeps P (handleStream st inp)" for st inp
    unfolding handleStream_def by (auto split: prod.split sum.split option.split intro!: keeps_seq K)
  show "keeps P (streamReadLoop_exit st nid app name)" for st nid app name
    unfolding streamReadLoop_exit_def by (intro keeps_seq K)
qed assumption

section \<open>Lost unlocks\<close>

lemma streams_stuck_forever: "peer_step\<^sup>*\<^sup>* p p' \<Longrightarrow> streams_stuck p \<Longrightarrow> streams_stuck p'"
  by (induction rule: rtranclp_induct) (simp_all add: streams_stuck_step)

lemma conns_gone_forever:
  assumes "conns_gone P"
  shows "peer_step\<^sup>*\<^sup>* p p' \<Longrightarrow> P p \<Longrightarrow> P p'"
  by (induction rule: rtranclp_induct) (simp_all add: conns_gone_step [OF assms])

lemma seq_locked:
  assumes "streams_stuck p"
  shows "seq streams_Lock f p = (None, snd (streams_Lock p))" "seq streams_RLock f p = (None, snd (streams_RLock p))"
  using assms by (simp_all add: streams_stuck_def seq_def streams_Lock_def streams_RLock_def mutex_defs)

lemma streams_stuck_cong: "streamsMu p' = streamsMu p \<Longrightarrow> streams_stuck p' = streams_stuck p"
  by (simp add: streams_stuck_def)

lemma streams_stuck_blocks:
  assumes stuck: "streams_stuck p"
  shows "fst (getOrOpenQuicStream q nid app name p) = None" "fst (locked_closeQuicConnection nid p) = None"
    "fst (closeAllQuicStreams p) = None" "fst (streamReadLoop_exit st nid app name p) = None"
    "fst (Request_send q app cid payload nid p) = None" "fst (Send q enum app payload (nid # nids) p) = None"
    "acceptStreamInit inp = (Inr (Some ids), rest) \<Longrightarrow> fst (handleStream st inp p) = None"
proof -
  note L = seq_locked
  have O: "getOrOpenQuicStream q nid app name p' = (None, snd (streams_RLock p'))"
    if "streams_stuck p'" for p' :: "'a peer" and q nid app name
    using L(2) [OF that] by (simp add: getOrOpenQuicStream_def Let_def)
  have app: "streams_stuck (p\<lparr>applications := x\<rparr>)" "streams_stuck (p\<lparr>pNode := y\<rparr>)" for x y
    using stuck by (simp_all add: streams_stuck_def)
  show "fst (getOrOpenQuicStream q nid app name p) = None" by (simp add: O stuck)
  show "fst (locked_closeQuicConnection nid p) = None" by (simp add: locked_closeQuicConnection_def L stuck)
  show "fst (closeAllQuicStreams p) = None" by (simp add: closeAllQuicStreams_def L stuck)
  show "fst (streamReadLoop_exit st nid app name p) = None"
    by (simp add: streamReadLoop_exit_def seq_def [of "on_node _"] on_node_def L(1) [OF app(2)])
  show "fst (Request_send q app cid payload nid p) = None"
    using O [OF app(1)] by (simp add: Request_send_def sendRequestFrame_def seq_def on_app_def)
  show "fst (Send q enum app payload (nid # nids) p) = None"
    using O [OF stuck] by (simp add: Send_def seq_def finish_def)
  show "acceptStreamInit inp = (Inr (Some ids), rest) \<Longrightarrow> fst (handleStream st inp p) = None"
    by (cases ids) (simp add: handleStream_def L stuck)
qed

text \<open>
  C19: The end of a read loop wedges the node. The deferred function of \<open>streamReadLoop\<close> locks the
  stream table and does not unlock it. Once one read loop has ended (its peer closed a stream,
  say), whatever happens afterwards: no stream is opened or reused, so no \<open>Send\<close> to a node and
  no \<open>Request\<close> goes on, no incoming stream is registered, a node that leaves is not cleaned up,
  and the next read loop that ends blocks as well.
\<close>

theorem read_loop_end_wedges:
  assumes "\<not> held (streamsMu p)" and "rdrs (streamsMu p) = 0"
    and "streamReadLoop_exit st nid app name p = (r, p1)" and "peer_step\<^sup>*\<^sup>* p1 p'"
  shows "r = Some () \<and> quicStreams (pNode p1) (streamKey nid app name) = None
    \<and> fst (getOrOpenQuicStream q n a s p') = None \<and> fst (Send q enum a payload (n # ns) p') = None
    \<and> fst (Request_send q a cid payload n p') = None \<and> fst (locked_closeQuicConnection n p') = None
    \<and> fst (streamReadLoop_exit st' n a s p') = None
    \<and> (\<forall>inp ids rest. acceptStreamInit inp = (Inr (Some ids), rest) \<longrightarrow> fst (handleStream st' inp p') = None)"
proof -
  have r: "r = Some ()" and s: "streams_stuck p1" and k: "quicStreams (pNode p1) (streamKey nid app name) = None"
    using assms(1-3) by (auto simp: streamReadLoop_exit_def seq_def on_node_def streams_Lock_def
        mutex_Lock_def streams_stuck_def)
  have "streams_stuck p'" by (rule streams_stuck_forever [OF assms(4) s])
  note B = streams_stuck_blocks [OF this]
  show ?thesis using r k B(7) by (simp add: B(1-6))
qed

lemma conns_stuck_blocks:
  "conns_stuck p \<Longrightarrow> fst (locked_join_dialled m c p) = None \<and> conns_shut (snd (locked_join_dialled m c p))"
  by (simp add: stuck_defs locked_join_dialled_def seq_def conns_Lock_def mutex_Lock_def)

lemma conns_shut_blocks:
  assumes "conns_shut p"
  shows "fst (locked_getConnectedNodes enum p) = None" "fst (Send q enum app payload [] p) = None"
  using assms by (simp_all add: Send_def locked_getConnectedNodes_def seq_def conns_RLock_def mutex_RLock_def
      conns_shut_def)

text \<open>
  C20: A message to a node without a connection wedges the connection table. Asking for a stream to
  such a node reports that there is no connection, but keeps the read lock of the table. From
  then on no connection can be entered; and once one was to be entered, the list of connected
  nodes, and with it every routing decision and every broadcast, is blocked for ever. (A node
  has no connection to itself, so one request to the own id is enough.)
\<close>

theorem unconnected_target_wedges:
  assumes "quicConns (pNode p) nid = None" and "quicStreams (pNode p) (streamKey nid app name) = None"
    and "\<not> held (streamsMu p)" and "\<not> waiting (streamsMu p)" and "\<not> held (connsMu p)" and "\<not> waiting (connsMu p)"
    and "getOrOpenQuicStream q nid app name p = (r, p1)"
  shows "r = Some (Inl (NoConnection (streamKey nid app name)))
    \<and> (\<forall>p2. peer_step\<^sup>*\<^sup>* p1 p2 \<longrightarrow> fst (locked_join_dialled m c p2) = None
      \<and> (\<forall>p3. peer_step\<^sup>*\<^sup>* (snd (locked_join_dialled m c p2)) p3 \<longrightarrow>
          fst (locked_getConnectedNodes enum p3) = None \<and> fst (Send q' enum a payload [] p3) = None))"
proof -
  have r: "r = Some (Inl (NoConnection (streamKey nid app name)))" and s: "conns_stuck p1"
    using assms by (auto simp: getOrOpenQuicStream_def Let_def act_defs lock_defs conns_stuck_def)
  have "conns_stuck p2" if "peer_step\<^sup>*\<^sup>* p1 p2" for p2
    using conns_gone_forever [of conns_stuck, OF _ that s] by (simp add: conns_gone_def)
  moreover have "conns_shut p3" if "peer_step\<^sup>*\<^sup>* (snd (locked_join_dialled m c p2)) p3" "conns_stuck p2" for p2 p3
    using conns_gone_forever [of conns_shut, OF _ that(1)] conns_stuck_blocks [OF that(2)] by (simp add: conns_gone_def)
  ultimately show ?thesis using r conns_stuck_blocks conns_shut_blocks by blast
qed

definition demo_peer :: "unit peer" where
  "demo_peer = \<lparr>pNode = demo_streams, connsMu = free_mutex, streamsMu = free_mutex, nextStream = 20,
     outBytes = (\<lambda>_. []), readLoops = [], applications = [''S'' \<mapsto> new_application], appState = ()\<rparr>"

theorem read_loop_end_wedges_witness:
  "fst (Send \<lparr>qOpens = \<lambda>_. True, qWrites = \<lambda>_. True\<rparr> (\<lambda>_. []) ''S'' [1] [''d'']
     (snd (RegisterApplication ''T'' (snd (streamReadLoop_exit 6 ''b'' ''S'' ''data'' demo_peer))))) = None"
proof -
  obtain r p1 where e: "streamReadLoop_exit 6 ''b'' ''S'' ''data'' demo_peer = (r, p1)" by fastforce
  have f: "\<not> held (streamsMu demo_peer)" "rdrs (streamsMu demo_peer) = 0"
    by (simp_all add: demo_peer_def free_mutex_def)
  have s: "peer_step\<^sup>*\<^sup>* p1 (snd (RegisterApplication ''T'' p1))"
    by (intro r_into_rtranclp peer_step.register_app)
  from read_loop_end_wedges [OF f e s] have
    "fst (Send q enum a payload (n # ns) (snd (RegisterApplication ''T'' p1))) = None" for q enum a payload n ns
    by blast
  then show ?thesis by (simp add: e)
qed

theorem unconnected_target_wedges_witness:
  "fst (locked_join_dialled (demo_member ''e'') 9
     (snd (getOrOpenQuicStream \<lparr>qOpens = \<lambda>_. True, qWrites = \<lambda>_. True\<rparr> ''a'' ''S'' ''request'' demo_peer))) = None"
proof -
  let ?q = "\<lparr>qOpens = \<lambda>_. True, qWrites = \<lambda>_. True\<rparr>"
  obtain r p1 where e: "getOrOpenQuicStream ?q ''a'' ''S'' ''request'' demo_peer = (r, p1)" by fastforce
  have f: "quicConns (pNode demo_peer) ''a'' = None"
    "quicStreams (pNode demo_peer) (streamKey ''a'' ''S'' ''request'') = None"
    "\<not> held (streamsMu demo_peer)" "\<not> waiting (streamsMu demo_peer)"
    "\<not> held (connsMu demo_peer)" "\<not> waiting (connsMu demo_peer)"
    by (simp_all add: demo_peer_def free_mutex_def demo_streams_def newNodosum_def streamKey_def)
  from unconnected_target_wedges [OF f e] have "fst (locked_join_dialled m c p1) = None" for m c
    by blast
  then show ?thesis by (simp add: e)
qed

end
