(* ===== verification/Sending.thy ===== *)
theory Sending
  imports Stream_Locks
begin

text \<open>
  Opening streams and sending over a node whose mutexes are free: what one target does to the
  tables, and the loop over the targets.
\<close>

section \<open>Sending to nodes\<close>

definition unlocked :: "'s peer \<Rightarrow> bool" where
  "unlocked p \<longleftrightarrow> \<not> held (streamsMu p) \<and> \<not> waiting (streamsMu p) \<and> rdrs (streamsMu p) = 0
     \<and> \<not> held (connsMu p) \<and> \<not> waiting (connsMu p)"

text \<open>Streams are used once, and nothing was written to streams that are not open yet.\<close>

definition streams_ok :: "'s peer \<Rightarrow> bool" where
  "streams_ok p \<longleftrightarrow> inj_on (quicStreams (pNode p)) (dom (quicStreams (pNode p)))
     \<and> (\<forall>k s. quicStreams (pNode p) k = Some s \<longrightarrow> s < nextStream p)
     \<and> (\<forall>s. nextStream p \<le> s \<longrightarrow> outBytes p s = [])"

definition reach :: "quic \<Rightarrow> 's peer \<Rightarrow> string \<Rightarrow> string \<Rightarrow> string \<Rightarrow> bool" where
  "reach q p app name nid \<longleftrightarrow> qWrites q nid \<and> (quicStreams (pNode p) (streamKey nid app name) \<noteq> None
     \<or> (\<exists>c. quicConns (pNode p) nid = Some c \<and> qOpens q c))"

definition missing :: "'s peer \<Rightarrow> string \<Rightarrow> string \<Rightarrow> string \<Rightarrow> bool" where
  "missing p app name nid \<longleftrightarrow> quicStreams (pNode p) (streamKey nid app name) = None \<and> quicConns (pNode p) nid = None"

text \<open>\<open>bs\<close> is the only new data on the stream, after the initial frame if the stream is new.\<close>

definition delivered :: "'s peer \<Rightarrow> 's peer \<Rightarrow> string \<Rightarrow> string \<Rightarrow> byte list \<Rightarrow> string \<Rightarrow> bool" where
  "delivered p p' app name bs nid \<longleftrightarrow> (\<exists>st. quicStreams (pNode p') (streamKey nid app name) = Some st
     \<and> outBytes p' st = (case quicStreams (pNode p) (streamKey nid app name) of
          Some s \<Rightarrow> outBytes p s | None \<Rightarrow> encodeStreamInit (nsId (pNode p)) app name) @ bs)"

definition untouched :: "string set \<Rightarrow> 's peer \<Rightarrow> 's peer \<Rightarrow> bool" where
  "untouched K p p' \<longleftrightarrow> (\<forall>k. k \<notin> K \<longrightarrow> quicStreams (pNode p') k = quicStreams (pNode p) k
     \<and> (\<forall>s. quicStreams (pNode p) k = Some s \<longrightarrow> outBytes p' s = outBytes p s))"

definition same_node :: "'s peer \<Rightarrow> 's peer \<Rightarrow> bool" where
  "same_node p p' \<longleftrightarrow> nsId (pNode p') = nsId (pNode p) \<and> quicConns (pNode p') = quicConns (pNode p)
     \<and> applications p' = applications p \<and> appState p' = appState p"

lemma streamKey_eq: "streamKey nid app name = streamKey nid' app name \<longleftrightarrow> nid = nid'"
  by (simp add: streamKey_def)

lemma getOrOpen_found:
  assumes "unlocked p" and "quicStreams (pNode p) (streamKey nid app name) = Some st"
  shows "getOrOpenQuicStream q nid app name p = (Some (Inr st), p)"
  using assms by (simp add: getOrOpenQuicStream_def Let_def act_defs lock_defs unlocked_def)

lemma getOrOpen_missing:
  assumes "unlocked p" and "missing p app name nid"
  shows "getOrOpenQuicStream q nid app name p = (Some (Inl (NoConnection (streamKey nid app name))),
    p\<lparr>connsMu := (connsMu p)\<lparr>rdrs := Suc (rdrs (connsMu p))\<rparr>\<rparr>)"
  using assms by (simp add: getOrOpenQuicStream_def Let_def act_defs lock_defs unlocked_def missing_def)

lemma getOrOpen_refused:
  assumes "unlocked p" and "quicStreams (pNode p) (streamKey nid app name) = None"
    and "quicConns (pNode p) nid = Some c" and "\<not> qOpens q c"
  shows "getOrOpenQuicStream q nid app name p = (Some (Inl OpenFails), p)"
  using assms by (simp add: getOrOpenQuicStream_def open_stream_def Let_def act_defs lock_defs unlocked_def)

lemma getOrOpen_opened:
  assumes "unlocked p" and "quicStreams (pNode p) (streamKey nid app name) = None"
    and "quicConns (pNode p) nid = Some c" and "qOpens q c"
  shows "getOrOpenQuicStream q nid app name p = (Some (Inr (nextStream p)),
    p\<lparr>nextStream := Suc (nextStream p),
      outBytes := (if qWrites q nid then (outBytes p)(nextStream p :=
        outBytes p (nextStream p) @ encodeStreamInit (nsId (pNode p)) app name) else outBytes p),
      pNode := (pNode p)\<lparr>quicStreams := (quicStreams (pNode p))(streamKey nid app name \<mapsto> nextStream p)\<rparr>,
      readLoops := readLoops p @ [(nextStream p, nid, app, name)]\<rparr>)"
  using assms by (simp add: getOrOpenQuicStream_def open_stream_def Let_def act_defs lock_defs unlocked_def)

text \<open>One target: open or reuse the stream, write to it.\<close>

definition push_to :: "quic \<Rightarrow> string \<Rightarrow> string \<Rightarrow> byte list \<Rightarrow> string \<Rightarrow> ('s, net_error option) act" where
  "push_to q app name bs nid = seq (getOrOpenQuicStream q nid app name) (\<lambda>r. case r of
     Inl e \<Rightarrow> finish (Some e)
   | Inr st \<Rightarrow> seq (stream_write q nid st bs) (\<lambda>ok. finish (if ok then None else Some WriteError)))"

lemma push_to_effect:
  assumes u: "unlocked p" and ok: "streams_ok p"
  shows "\<exists>e p'. push_to q app name bs nid p = (Some e, p') \<and> (e = None \<longleftrightarrow> reach q p app name nid)
    \<and> unlocked p' \<and> streams_ok p' \<and> same_node p p' \<and> untouched {streamKey nid app name} p p'
    \<and> (reach q p app name nid \<longrightarrow> delivered p p' app name bs nid)
    \<and> rdrs (connsMu p') = rdrs (connsMu p) + (if missing p app name nid then 1 else 0)"
proof -
  let ?key = "streamKey nid app name"
  consider (found) st where "quicStreams (pNode p) ?key = Some st"
    | (missing) "missing p app name nid"
    | (refused) c where "quicStreams (pNode p) ?key = None" "quicConns (pNode p) nid = Some c" "\<not> qOpens q c"
    | (opened) c where "quicStreams (pNode p) ?key = None" "quicConns (pNode p) nid = Some c" "qOpens q c"
    unfolding missing_def by fastforce
  then show ?thesis
  proof cases
    case (found st)
    have other: "s \<noteq> st" if "quicStreams (pNode p) k = Some s" "k \<noteq> ?key" for k s
      using ok found that unfolding streams_ok_def inj_on_def by (metis domI)
    have lt: "st < nextStream p" using ok found by (auto simp: streams_ok_def)
    show ?thesis
      using u ok found other lt
      by (auto simp: push_to_def seq_def getOrOpen_found [OF u found] stream_write_def finish_def reach_def
          unlocked_def streams_ok_def same_node_def untouched_def delivered_def missing_def dest: leD)
  next
    case missing
    with u ok show ?thesis
      by (simp add: push_to_def seq_def getOrOpen_missing [OF u missing] finish_def reach_def missing_def
          unlocked_def streams_ok_def same_node_def untouched_def)
  next
    case (refused c)
    with u ok show ?thesis
      by (simp add: push_to_def seq_def getOrOpen_refused [OF u refused] finish_def reach_def missing_def
          unlocked_def streams_ok_def same_node_def untouched_def)
  next
    case (opened c)
    let ?n = "nextStream p" and ?init = "encodeStreamInit (nsId (pNode p)) app name"
    have fresh: "outBytes p ?n = []" and lt: "\<And>k s. quicStreams (pNode p) k = Some s \<Longrightarrow> s < ?n"
      using ok by (auto simp: streams_ok_def)
    let ?p = "p\<lparr>nextStream := Suc ?n, outBytes := (if qWrites q nid then (outBytes p)(?n := ?init @ bs) else outBytes p),
      pNode := (pNode p)\<lparr>quicStreams := (quicStreams (pNode p))(?key \<mapsto> ?n)\<rparr>,
      readLoops := readLoops p @ [(?n, nid, app, name)]\<rparr>"
    have run: "push_to q app name bs nid p = (Some (if qWrites q nid then None else Some WriteError), ?p)"
      by (simp add: push_to_def seq_def getOrOpen_opened [OF u opened] stream_write_def finish_def fresh)
    have "inj_on ((quicStreams (pNode p))(?key \<mapsto> ?n)) (dom ((quicStreams (pNode p))(?key \<mapsto> ?n)))"
    proof (rule inj_onI)
      fix k k'
      assume k: "k \<in> dom ((quicStreams (pNode p))(?key \<mapsto> ?n))"
        and eq: "((quicStreams (pNode p))(?key \<mapsto> ?n)) k = ((quicStreams (pNode p))(?key \<mapsto> ?n)) k'"
      have inj: "k = k'" if "quicStreams (pNode p) k = Some s" "quicStreams (pNode p) k' = Some s" for s
        using ok that unfolding streams_ok_def inj_on_def by (metis domI)
      from k eq inj lt show "k = k'" by (auto split: if_split_asm dest: lt simp: dom_def)
    qed
    moreover have "\<forall>k s. ((quicStreams (pNode p))(?key \<mapsto> ?n)) k = Some s \<longrightarrow> s < Suc ?n"
      by (auto intro: less_SucI lt)
    moreover have "\<forall>s. Suc ?n \<le> s \<longrightarrow> outBytes ?p s = []" using ok by (auto simp: streams_ok_def)
    ultimately have "streams_ok ?p" by (simp add: streams_ok_def)
    moreover have "untouched {?key} p ?p" using lt by (auto simp: untouched_def dest: lt)
    moreover have "qWrites q nid \<Longrightarrow> delivered p ?p app name bs nid" using opened by (simp add: delivered_def)
    ultimately show ?thesis
      using u opened unfolding run by (auto simp: reach_def unlocked_def same_node_def missing_def)
  qed
qed

lemma seq_assoc: "seq (seq m f) g = seq m (\<lambda>x. seq (f x) g)"
  by (rule ext) (simp add: seq_def split: prod.split option.split)

lemma seq_finish: "seq (finish x) f = f x"
  by (rule ext) (simp add: seq_def finish_def)

lemma send_each_push:
  "send_each q app payload (nid # nids) errs =
     seq (push_to q app ''data'' (encodeDataFrame payload) nid) (\<lambda>e. send_each q app payload nids
       (errs @ (case e of None \<Rightarrow> [] | Some x \<Rightarrow> [(nid, x)])))"
proof -
  have "(case r of Inl e \<Rightarrow> send_each q app payload nids (errs @ [(nid, e)])
      | Inr st \<Rightarrow> seq (stream_write q nid st (encodeDataFrame payload)) (\<lambda>ok.
          if ok then send_each q app payload nids errs
          else send_each q app payload nids (errs @ [(nid, WriteError)])))
    = seq (case r of Inl e \<Rightarrow> finish (Some e)
      | Inr st \<Rightarrow> seq (stream_write q nid st (encodeDataFrame payload)) (\<lambda>ok. finish (if ok then None else Some WriteError)))
        (\<lambda>e. send_each q app payload nids (errs @ (case e of None \<Rightarrow> [] | Some x \<Rightarrow> [(nid, x)])))" for r
    by (cases r) (auto simp: seq_assoc seq_finish intro!: arg_cong [of _ _ "seq _"])
  note eq = ext [of _ _, OF this]
  show ?thesis unfolding send_each.simps push_to_def seq_assoc by (rule arg_cong [OF eq])
qed

lemma untouched_trans: "untouched K p p' \<Longrightarrow> untouched L p' p'' \<Longrightarrow> untouched (K \<union> L) p p''"
  by (auto simp: untouched_def)

lemma reach_untouched:
  assumes "untouched {streamKey nid app name} p p'" and "same_node p p'" and "nid' \<noteq> nid"
  shows "reach q p' app name nid' = reach q p app name nid'" "missing p' app name nid' = missing p app name nid'"
  using assms by (simp_all add: reach_def missing_def untouched_def same_node_def streamKey_eq)

lemma delivered_before:
  assumes "untouched {streamKey nid app name} p p1" and "same_node p p1" and "nid' \<noteq> nid"
    and "delivered p1 p' app name bs nid'"
  shows "delivered p p' app name bs nid'"
proof -
  have "streamKey nid' app name \<notin> {streamKey nid app name}" using assms(3) by (simp add: streamKey_eq)
  with assms(1) have "quicStreams (pNode p1) (streamKey nid' app name) = quicStreams (pNode p) (streamKey nid' app name)"
    "\<And>s. quicStreams (pNode p) (streamKey nid' app name) = Some s \<Longrightarrow> outBytes p1 s = outBytes p s"
    unfolding untouched_def by blast+
  with assms(2,4) show ?thesis
    by (cases "quicStreams (pNode p) (streamKey nid' app name)") (auto simp: delivered_def same_node_def)
qed

lemma delivered_after:
  assumes "delivered p p1 app name bs nid" and "untouched K p1 p'" and "streamKey nid app name \<notin> K"
  shows "delivered p p' app name bs nid"
  using assms unfolding delivered_def untouched_def by metis

lemma send_each_effect:
  assumes "unlocked p" and "streams_ok p" and "distinct nids"
  shows "\<exists>es p'. send_each q app payload nids errs p = (Some (errs @ es), p')
    \<and> map fst es = filter (\<lambda>nid. \<not> reach q p app ''data'' nid) nids
    \<and> unlocked p' \<and> streams_ok p' \<and> same_node p p' \<and> untouched ((\<lambda>nid. streamKey nid app ''data'') ` set nids) p p'
    \<and> (\<forall>nid \<in> set nids. reach q p app ''data'' nid \<longrightarrow> delivered p p' app ''data'' (encodeDataFrame payload) nid)
    \<and> rdrs (connsMu p') = rdrs (connsMu p) + length (filter (missing p app ''data'') nids)"
  using assms
proof (induction nids arbitrary: p errs)
  case Nil
  then show ?case by (simp add: finish_def same_node_def untouched_def)
next
  case (Cons nid nids)
  let ?bs = "encodeDataFrame payload" and ?keys = "\<lambda>ns. (\<lambda>nid. streamKey nid app ''data'') ` ns"
  from push_to_effect [OF Cons.prems(1,2), of q app "''data''" ?bs nid] obtain e p1 where
    run: "push_to q app ''data'' ?bs nid p = (Some e, p1)" and e: "e = None \<longleftrightarrow> reach q p app ''data'' nid"
    and p1: "unlocked p1" "streams_ok p1" "same_node p p1" "untouched {streamKey nid app ''data''} p p1"
      "reach q p app ''data'' nid \<longrightarrow> delivered p p1 app ''data'' ?bs nid"
      "rdrs (connsMu p1) = rdrs (connsMu p) + (if missing p app ''data'' nid then 1 else 0)" by blast
  let ?es1 = "case e of None \<Rightarrow> [] | Some x \<Rightarrow> [(nid, x)]"
  from Cons.IH [OF p1(1,2), of "errs @ ?es1"] Cons.prems(3) obtain es p' where
    rest: "send_each q app payload nids (errs @ ?es1) p1 = (Some ((errs @ ?es1) @ es), p')"
    and es: "map fst es = filter (\<lambda>nid. \<not> reach q p1 app ''data'' nid) nids"
    and p': "unlocked p'" "streams_ok p'" "same_node p1 p'" "untouched (?keys (set nids)) p1 p'"
      "\<forall>nid \<in> set nids. reach q p1 app ''data'' nid \<longrightarrow> delivered p1 p' app ''data'' ?bs nid"
      "rdrs (connsMu p') = rdrs (connsMu p1) + length (filter (missing p1 app ''data'') nids)" by auto
  have ne: "n \<noteq> nid" if "n \<in> set nids" for n using that Cons.prems(3) by auto
  have R: "reach q p1 app ''data'' n = reach q p app ''data'' n" "missing p1 app ''data'' n = missing p app ''data'' n"
    if "n \<in> set nids" for n
    using reach_untouched [OF p1(4,3) ne [OF that]] by simp_all
  have "streamKey nid app ''data'' \<notin> ?keys (set nids)"
    using Cons.prems(3) by (auto simp: streamKey_eq)
  then have own: "reach q p app ''data'' nid \<Longrightarrow> delivered p p' app ''data'' ?bs nid"
    using delivered_after p1(5) p'(4) by blast
  have others: "delivered p p' app ''data'' ?bs n" if "n \<in> set nids" "reach q p app ''data'' n" for n
    using delivered_before [OF p1(4,3) ne [OF that(1)]] p'(5) R(1) that by blast
  have step: "send_each q app payload (nid # nids) errs p = (Some (errs @ ?es1 @ es), p')"
    using rest by (simp add: send_each_push seq_def [of "push_to _ _ _ _ _"] run del: send_each.simps)
  have fs: "map fst (?es1 @ es) = filter (\<lambda>nid. \<not> reach q p app ''data'' nid) (nid # nids)"
    using e es R(1) by (cases e) (auto cong: filter_cong)
  have un: "untouched (?keys (set (nid # nids))) p p'"
    using untouched_trans [OF p1(4) p'(4)] by simp
  have rd: "rdrs (connsMu p') = rdrs (connsMu p) + length (filter (missing p app ''data'') (nid # nids))"
    using p'(6) p1(6) R(2) by (simp cong: filter_cong)
  have sn: "same_node p p'" using p1(3) p'(3) by (simp add: same_node_def)
  show ?case
    using step fs p'(1,2) sn un own others rd by (intro exI [of _ "?es1 @ es"] exI [of _ p'] conjI) auto
qed

text \<open>
  C16: Sending. Over a node whose mutexes are free, \<open>Send\<close> to distinct targets returns; it succeeds
  exactly when every target can be reached, and names exactly the others when it does not.
  Every target that can be reached gets the payload, as one DATA frame and after the initial
  frame if the stream is new, whatever goes wrong with the other targets; no other stream is
  written to. With no targets given the connected nodes are meant, and without any it is an
  error. Each target without a connection leaves one read lock behind.
\<close>

theorem Send_reaches_all:
  fixes enum :: "string set \<Rightarrow> string list" and ids :: "string list" and p :: "'s peer"
  assumes "unlocked p" and "streams_ok p"
  defines "targets \<equiv> (if ids = [] then getConnectedNodes enum (pNode p) else ids)"
  assumes "distinct targets"
  shows "\<exists>r p'. Send q enum app payload ids p = (Some r, p') \<and> unlocked p' \<and> streams_ok p'
    \<and> (r = Inr () \<longleftrightarrow> targets \<noteq> [] \<and> (\<forall>nid \<in> set targets. reach q p app ''data'' nid))
    \<and> (\<forall>k n es. r = Inl (FailedTo k n es) \<longrightarrow> n = length targets \<and> k = length es
        \<and> map fst es = filter (\<lambda>nid. \<not> reach q p app ''data'' nid) targets)
    \<and> (\<forall>nid \<in> set targets. reach q p app ''data'' nid
        \<longrightarrow> delivered p p' app ''data'' (encodeDataFrame payload) nid)
    \<and> untouched ((\<lambda>nid. streamKey nid app ''data'') ` set targets) p p'
    \<and> rdrs (connsMu p') = rdrs (connsMu p) + length (filter (missing p app ''data'') targets)"
proof -
  have start: "(if ids = [] then locked_getConnectedNodes enum else finish ids) p = (Some targets, p)"
    using assms(1) by (simp add: targets_def locked_getConnectedNodes_def act_defs lock_defs unlocked_def)
  show ?thesis
  proof (cases "targets = []")
    case True
    then have "Send q enum app payload ids p = (Some (Inl NoNodes), p)"
      unfolding Send_def seq_def [of "if _ then _ else _"] start by (simp add: finish_def)
    with True assms(1,2) show ?thesis by (simp add: untouched_def)
  next
    case False
    from send_each_effect [OF assms(1,2,4), of q app payload "[]"] obtain es p' where
      run: "send_each q app payload targets [] p = (Some es, p')"
      and es: "map fst es = filter (\<lambda>nid. \<not> reach q p app ''data'' nid) targets"
      and p': "unlocked p'" "streams_ok p'" "untouched ((\<lambda>nid. streamKey nid app ''data'') ` set targets) p p'"
        "\<forall>nid \<in> set targets. reach q p app ''data'' nid \<longrightarrow> delivered p p' app ''data'' (encodeDataFrame payload) nid"
        "rdrs (connsMu p') = rdrs (connsMu p) + length (filter (missing p app ''data'') targets)"
      by auto
    let ?r = "if es \<noteq> [] then Inl (FailedTo (length es) (length targets) es) else Inr ()"
    have "Send q enum app payload ids p = (Some ?r, p')"
      using False unfolding Send_def seq_def [of "if _ then _ else _"] start
      by (simp add: seq_def run finish_def)
    moreover have "es = [] \<longleftrightarrow> (\<forall>nid \<in> set targets. reach q p app ''data'' nid)"
    proof -
      have "es = [] \<longleftrightarrow> map fst es = []" by simp
      then show ?thesis unfolding es by (simp add: filter_empty_conv)
    qed
    moreover have "(?r = Inr ()) = (targets \<noteq> [] \<and> (\<forall>nid \<in> set targets. reach q p app ''data'' nid))"
      using calculation(2) False by simp
    moreover have "\<forall>k n es'. ?r = Inl (FailedTo k n es') \<longrightarrow> n = length targets \<and> k = length es'
        \<and> map fst es' = filter (\<lambda>nid. \<not> reach q p app ''data'' nid) targets"
      using es by simp
    ultimately show ?thesis
      using p' by (intro exI [of _ ?r] exI [of _ p'] conjI)
  qed
qed

theorem Send_reaches_all_witness:
  "\<exists>r p'. Send \<lparr>qOpens = \<lambda>_. True, qWrites = \<lambda>_. True\<rparr> (\<lambda>_. [''b'', ''d'']) ''S'' [1, 2] [] demo_peer = (Some r, p')
    \<and> r = Inr () \<and> delivered demo_peer p' ''S'' ''data'' (encodeDataFrame [1, 2]) ''d''"
proof -
  let ?q = "\<lparr>qOpens = \<lambda>_. True, qWrites = \<lambda>_. True\<rparr>" and ?enum = "\<lambda>_. [''b'', ''d'']"
  have n: "getConnectedNodes ?enum (pNode demo_peer) = [''b'', ''d'']"
    by (simp add: getConnectedNodes_def demo_peer_def demo_streams_def newNodosum_def)
  have k: "streamKey ''b:2'' ''S'' ''data'' \<noteq> streamKey ''b'' ''S'' ''data''"
    "streamKey ''d'' ''S'' ''data'' \<noteq> streamKey ''b'' ''S'' ''data''"
    "streamKey ''d'' ''S'' ''data'' \<noteq> streamKey ''b:2'' ''S'' ''data''"
    by (simp_all add: streamKey_eq)
  have "unlocked demo_peer" by (simp add: unlocked_def demo_peer_def free_mutex_def)
  moreover have "streams_ok demo_peer"
    using k by (auto simp: streams_ok_def demo_peer_def demo_streams_def inj_on_def split: if_split_asm)
  moreover have "distinct (if [] = [] then getConnectedNodes ?enum (pNode demo_peer) else [])" by (simp add: n)
  moreover have r: "reach ?q demo_peer ''S'' ''data'' ''b''" "reach ?q demo_peer ''S'' ''data'' ''d''"
    using k by (auto simp: reach_def demo_peer_def demo_streams_def)
  ultimately show ?thesis
    using Send_reaches_all [of demo_peer "[]" ?enum ?q "''S''" "[1, 2]"] by (auto simp: n)
qed

end
