(* ===== verification/Rpc.thy ===== *)
theory Rpc
  imports Sending
begin

text \<open>
  Messages from stream to application: the receive queue, the correlation of responses with
  requests, and a whole request over two nodes, from \<open>Request\<close> through the frames, the read
  loops and the handler back to \<open>Request\<close>. The last refines \<open>Remote.Request\<close>, the request the
  cache is built on.
\<close>

section \<open>The receive queue\<close>

datatype queue_event = Arrive "byte list" bool | Take

fun queue_step :: "string \<Rightarrow> queue_event \<Rightarrow> 's peer \<Rightarrow> 's peer" where
  "queue_step app (Arrive m drains) p = snd (routeToApplication drains app m p)"
| "queue_step app Take p = snd (on_app app receive_one p)"

fun arrivals :: "queue_event list \<Rightarrow> byte list list" where
  "arrivals [] = []"
| "arrivals (Arrive m drains # es) = m # arrivals es"
| "arrivals (Take # es) = arrivals es"

fun event_on :: "queue_event \<Rightarrow> 's application \<Rightarrow> 's application" where
  "event_on (Arrive m drains) a = enqueue_message drains m a"
| "event_on Take a = receive_one a"

definition taken_or_queued :: "'s application \<Rightarrow> byte list list" where
  "taken_or_queued a = handled a @ inputChan a"

lemma receive_one_order [simp]: "taken_or_queued (receive_one a) = taken_or_queued a"
  by (simp add: taken_or_queued_def receive_one_def split: list.split)

lemma receive_one_length [simp]: "length (inputChan (receive_one a)) = length (inputChan a) - 1"
  by (simp add: receive_one_def split: list.split)

lemma enqueue_order:
  "taken_or_queued (enqueue_message drains m a)
     = taken_or_queued a @ (if drains \<or> length (inputChan a) < 100 then [m] else [])"
  using receive_one_order [of a]
  by (simp add: enqueue_message_def Let_def taken_or_queued_def del: receive_one_order)

lemma enqueue_length:
  "length (inputChan a) \<le> 100 \<Longrightarrow> length (inputChan (enqueue_message drains m a)) \<le> 100"
  by (simp add: enqueue_message_def Let_def)

lemma events_on:
  assumes "length (inputChan a) \<le> 100"
  shows "length (inputChan (fold event_on es a)) \<le> 100
    \<and> (\<exists>ms. taken_or_queued (fold event_on es a) = taken_or_queued a @ ms \<and> subseq ms (arrivals es)
      \<and> ((\<forall>m. Arrive m False \<notin> set es) \<longrightarrow> ms = arrivals es)
      \<and> (length (inputChan a) + length (arrivals es) \<le> 100 \<longrightarrow> ms = arrivals es))"
  using assms
proof (induction es arbitrary: a)
  case Nil
  then show ?case by simp
next
  case (Cons e es)
  show ?case
  proof (cases e)
    case Take
    have "length (inputChan (receive_one a)) \<le> 100" using Cons.prems by simp
    from Cons.IH [OF this, unfolded receive_one_order receive_one_length] obtain ms where
      "length (inputChan (fold event_on es (receive_one a))) \<le> 100"
      "taken_or_queued (fold event_on es (receive_one a)) = taken_or_queued a @ ms" "subseq ms (arrivals es)"
      "(\<forall>m. Arrive m False \<notin> set es) \<longrightarrow> ms = arrivals es"
      "length (inputChan a) - 1 + length (arrivals es) \<le> 100 \<longrightarrow> ms = arrivals es" by blast
    with Take show ?thesis by auto
  next
    case (Arrive m drains)
    let ?a = "enqueue_message drains m a"
    from Cons.IH [OF enqueue_length [OF Cons.prems, of drains m]] obtain ms where
      ih: "length (inputChan (fold event_on es ?a)) \<le> 100"
      "taken_or_queued (fold event_on es ?a) = taken_or_queued ?a @ ms" "subseq ms (arrivals es)"
      "(\<forall>m. Arrive m False \<notin> set es) \<longrightarrow> ms = arrivals es"
      "length (inputChan ?a) + length (arrivals es) \<le> 100 \<longrightarrow> ms = arrivals es" by blast
    let ?kept = "drains \<or> length (inputChan a) < 100"
    have len: "length (inputChan ?a) = Suc (length (inputChan a))" if "length (inputChan a) < 100"
      using that by (simp add: enqueue_message_def)
    have "taken_or_queued (fold event_on es ?a) = taken_or_queued a @ (if ?kept then m # ms else ms)"
      by (simp add: ih(2) enqueue_order)
    moreover have "subseq (if ?kept then m # ms else ms) (m # arrivals es)" using ih(3) by auto
    moreover have "(\<forall>m. Arrive m False \<notin> set (e # es)) \<longrightarrow> (if ?kept then m # ms else ms) = m # arrivals es"
      using ih(4) Arrive by (cases drains) auto
    moreover have "length (inputChan a) + length (m # arrivals es) \<le> 100
        \<longrightarrow> (if ?kept then m # ms else ms) = m # arrivals es"
      using ih(5) len by auto
    ultimately show ?thesis using ih(1) Arrive by (simp only: fold_Cons o_apply event_on.simps arrivals.simps) blast
  qed
qed

lemma queue_steps_app:
  "applications p app = Some a \<Longrightarrow> applications (fold (queue_step app) es p) app = Some (fold event_on es a)"
proof (induction es arbitrary: p a)
  case (Cons e es)
  have "applications (queue_step app e p) app = Some (event_on e a)"
    using Cons.prems by (cases e) (simp_all add: routeToApplication_def on_app_def)
  then show ?case using Cons.IH by simp
qed simp

text \<open>
  C31: The receive queue is bounded and keeps the order. However messages arrive and the worker
  takes them, at most 100 wait, and what was handed over or waits is a subsequence of what
  arrived, in order. Nothing is lost if the worker takes a message within 100 ms whenever the
  queue is full, nor if at most 100 messages arrive.
\<close>

theorem receive_queue_bounded:
  assumes "applications p app = Some new_application"
  shows "\<exists>a. applications (fold (queue_step app) es p) app = Some a \<and> length (inputChan a) \<le> 100
    \<and> subseq (handled a @ inputChan a) (arrivals es)
    \<and> ((\<forall>m. Arrive m False \<notin> set es) \<or> length (arrivals es) \<le> 100 \<longrightarrow> handled a @ inputChan a = arrivals es)"
  using queue_steps_app [OF assms, of es] events_on [of new_application es]
  by (auto simp: taken_or_queued_def new_application_def)

theorem receive_queue_bounded_witness:
  "\<exists>a. applications (fold (queue_step ''S'') [Arrive [7] False, Take, Arrive [8] False] demo_peer) ''S'' = Some a
    \<and> handled a @ inputChan a = [[7], [8]]"
  using receive_queue_bounded [of demo_peer "''S''" "[Arrive [7] False, Take, Arrive [8] False]"]
  by (auto simp: demo_peer_def)

section \<open>Responses find their requests\<close>

definition pending :: "'s peer \<Rightarrow> string \<Rightarrow> string \<Rightarrow> ResponseFrame list option" where
  "pending p app cid = (case applications p app of None \<Rightarrow> None | Some a \<Rightarrow> pendingRequests a cid)"

lemma find_pending_none:
  "(\<forall>app \<in> set apps. case appls app of None \<Rightarrow> True | Some a \<Rightarrow> pendingRequests a cid = None)
    \<Longrightarrow> find_pending cid appls apps = None"
  by (induction apps) (auto split: option.splits)

lemma find_pending_only:
  assumes "appls app = Some a" and "pendingRequests a cid \<noteq> None" and "app \<in> set apps"
    and "\<And>app' a'. app' \<noteq> app \<Longrightarrow> appls app' = Some a' \<Longrightarrow> pendingRequests a' cid = None"
  shows "find_pending cid appls apps = Some app"
  using assms(3)
proof (induction apps)
  case (Cons x xs)
  show ?case
  proof (cases "x = app")
    case True
    with assms(1,2) show ?thesis by simp
  next
    case False
    with Cons assms(4) show ?thesis by (auto split: option.split)
  qed
qed simp

definition lists_apps :: "(string set \<Rightarrow> string list) \<Rightarrow> 's peer \<Rightarrow> bool" where
  "lists_apps enum p \<longleftrightarrow> set (enum (dom (applications p))) = dom (applications p)"

lemma handleResponse_unknown:
  assumes fits: "response_fits resp" and none: "\<And>app. pending p app (respCorrelationID resp) = None"
  shows "handleResponse enum (response_body resp) p = (Some (), p)"
proof -
  have "find_pending (respCorrelationID resp) (applications p) (enum (dom (applications p))) = None"
  proof (intro find_pending_none ballI)
    fix app
    show "case applications p app of None \<Rightarrow> True | Some a \<Rightarrow> pendingRequests a (respCorrelationID resp) = None"
      using none [of app] by (simp add: pending_def split: option.split_asm option.split)
  qed
  with decode_response_body [OF fits, of "[]"] show ?thesis
    by (simp add: handleResponse_def seq_def look_def finish_def)
qed

lemma handleResponse_known:
  assumes fits: "response_fits resp" and apps: "lists_apps enum p" and a: "applications p app = Some a"
    and chan: "pendingRequests a (respCorrelationID resp) = Some ch"
    and only: "\<And>app'. app' \<noteq> app \<Longrightarrow> pending p app' (respCorrelationID resp) = None"
  shows "handleResponse enum (response_body resp) p = (Some (), p\<lparr>applications := (applications p)
    (app \<mapsto> if ch = [] then set_pending (respCorrelationID resp) (Some [resp]) a else a)\<rparr>)"
proof -
  have "find_pending (respCorrelationID resp) (applications p) (enum (dom (applications p))) = Some app"
  proof (rule find_pending_only [where a = a])
    show "app \<in> set (enum (dom (applications p)))" using apps a by (simp add: lists_apps_def domI)
    show "pendingRequests a' (respCorrelationID resp) = None" if "app' \<noteq> app" "applications p app' = Some a'" for app' a'
      using only [OF that(1)] that(2) by (simp add: pending_def)
  qed (use a chan in simp_all)
  with decode_response_body [OF fits, of "[]"] a chan show ?thesis
    by (cases ch) (simp_all add: handleResponse_def seq_def look_def on_app_def deliver_response_def)
qed

text \<open>
  C27: A response reaches the request it belongs to and no other. If one request of one application
  waits under the correlation id of an incoming RESPONSE frame, its channel gets the response
  (the first one counts, later ones are dropped), and every other pending request stays as it
  is. A response nobody waits for, because the request has timed out, changes nothing.
\<close>

theorem response_correlation:
  assumes "response_fits resp" and "lists_apps enum p" and "cid = respCorrelationID resp"
  shows "\<exists>p'. handleFrame q drains enum st nid app (FRAME_TYPE_RESPONSE, response_body resp) p = (Some (), p')
    \<and> ((\<forall>a. pending p a cid = None) \<longrightarrow> p' = p)
    \<and> (\<forall>a ch. pending p a cid = Some ch \<longrightarrow> (\<forall>b. b \<noteq> a \<longrightarrow> pending p b cid = None) \<longrightarrow>
        pending p' a cid = Some (if ch = [] then [resp] else ch)
        \<and> (\<forall>b i. (b, i) \<noteq> (a, cid) \<longrightarrow> pending p' b i = pending p b i))"
proof -
  have frame: "handleFrame q drains enum st nid app (FRAME_TYPE_RESPONSE, response_body resp) p
      = handleResponse enum (response_body resp) p"
    by (simp add: handleFrame_def frame_types)
  obtain r p' where run: "handleResponse enum (response_body resp) p = (r, p')" by fastforce
  have "r = Some ()"
    using run decode_response_body [OF assms(1), of "[]"]
    by (auto simp: handleResponse_def seq_def look_def finish_def on_app_def split: option.split_asm)
  moreover have "p' = p" if "\<forall>a. pending p a cid = None"
    using handleResponse_unknown [OF assms(1), of p enum] that run assms(3) by simp
  moreover have "pending p' a cid = Some (if ch = [] then [resp] else ch)
      \<and> (\<forall>b i. (b, i) \<noteq> (a, cid) \<longrightarrow> pending p' b i = pending p b i)"
    if known: "pending p a cid = Some ch" and only: "\<forall>b. b \<noteq> a \<longrightarrow> pending p b cid = None" for a ch
  proof -
    obtain ap where ap: "applications p a = Some ap" "pendingRequests ap cid = Some ch"
      using known by (auto simp: pending_def split: option.split_asm)
    have "p' = p\<lparr>applications := (applications p)(a \<mapsto> if ch = [] then set_pending cid (Some [resp]) ap else ap)\<rparr>"
      using handleResponse_known [OF assms(1,2) ap(1), of ch] ap(2) only run assms(3) by simp
    with ap show ?thesis by (simp add: pending_def set_pending_def)
  qed
  ultimately show ?thesis using run by (simp add: frame)
qed

theorem response_correlation_witness:
  "\<exists>p'. handleFrame \<lparr>qOpens = \<lambda>_. True, qWrites = \<lambda>_. True\<rparr> True (\<lambda>_. [''S'']) 6 ''b'' ''S''
      (FRAME_TYPE_RESPONSE, response_body \<lparr>respCorrelationID = ''u1'', respPayload = [5], respError = ''''\<rparr>)
      (snd (on_app ''S'' (set_pending ''u1'' (Some [])) demo_peer)) = (Some (), p')
    \<and> pending p' ''S'' ''u1'' = Some [\<lparr>respCorrelationID = ''u1'', respPayload = [5], respError = ''''\<rparr>]"
proof -
  let ?r = "\<lparr>respCorrelationID = ''u1'', respPayload = [5], respError = ''''\<rparr>"
  let ?p = "snd (on_app ''S'' (set_pending ''u1'' (Some [])) demo_peer)"
  have R: "response_fits ?r" by (simp add: response_fits_def)
  have L: "lists_apps (\<lambda>_. [''S'']) ?p" by (simp add: lists_apps_def on_app_def demo_peer_def)
  have P: "pending ?p ''S'' ''u1'' = Some []" "\<forall>b. b \<noteq> ''S'' \<longrightarrow> pending ?p b ''u1'' = None"
    by (simp_all add: pending_def on_app_def demo_peer_def set_pending_def)
  have "''u1'' = respCorrelationID ?r" by simp
  from response_correlation [OF R L this, of "\<lparr>qOpens = \<lambda>_. True, qWrites = \<lambda>_. True\<rparr>" True 6 "''b''" "''S''"]
  obtain p' where "handleFrame \<lparr>qOpens = \<lambda>_. True, qWrites = \<lambda>_. True\<rparr> True (\<lambda>_. [''S'']) 6 ''b'' ''S''
      (FRAME_TYPE_RESPONSE, response_body ?r) ?p = (Some (), p')"
    and "\<forall>a ch. pending ?p a ''u1'' = Some ch \<longrightarrow> (\<forall>b. b \<noteq> a \<longrightarrow> pending ?p b ''u1'' = None) \<longrightarrow>
        pending p' a ''u1'' = Some (if ch = [] then [?r] else ch)
        \<and> (\<forall>b i. (b, i) \<noteq> (a, ''u1'') \<longrightarrow> pending p' b i = pending ?p b i)"
    by blast
  moreover have "pending p' ''S'' ''u1'' = Some (if [] = ([] :: ResponseFrame list) then [?r] else [])"
    using calculation(2) P by blast
  ultimately show ?thesis by simp
qed

section \<open>A whole request\<close>

text \<open>One turn of the read loop, and what a stream got between two states.\<close>

definition loop_body ::
    "quic \<Rightarrow> bool \<Rightarrow> (string set \<Rightarrow> string list) \<Rightarrow> stream \<Rightarrow> string \<Rightarrow> string \<Rightarrow> byte list \<Rightarrow> ('s, unit) act" where
  "loop_body q drains enum st nid app bytes =
     (case readFrame \<lparr>avail = bytes, after = EOF\<rparr> of
        (Inl e, _) \<Rightarrow> finish ()
      | (Inr frame, _) \<Rightarrow> handleFrame q drains enum st nid app frame)"

definition new_bytes :: "'s peer \<Rightarrow> 's peer \<Rightarrow> stream \<Rightarrow> byte list" where
  "new_bytes p p' st = drop (length (outBytes p st)) (outBytes p' st)"

text \<open>
  The client \<open>A\<close> (node \<open>self\<close>, its stream \<open>cs\<close> to \<open>target\<close>) calls \<open>Request\<close>; the server \<open>B\<close> reads what was
  written, if the link carries it, and writes to its end \<open>ss\<close> of the stream; the client reads
  that and wakes up with the response, or with the timeout if there is none. The second
  result of a node that blocks in its handler is the state it blocks in.
\<close>

definition up :: "bool \<Rightarrow> quic" where
  "up works = \<lparr>qOpens = (\<lambda>_. works), qWrites = (\<lambda>_. works)\<rparr>"

definition exchange ::
    "link \<Rightarrow> (string set \<Rightarrow> string list) \<Rightarrow> string \<Rightarrow> string \<Rightarrow> byte list \<Rightarrow> string \<Rightarrow> string \<Rightarrow> stream \<Rightarrow> stream
      \<Rightarrow> 'a peer \<Rightarrow> 's peer \<Rightarrow> (request_error + byte list) option \<times> 'a peer \<times> 's peer" where
  "exchange lk enum app cid payload self target cs ss A B =
     (case Request_send (up (lk \<noteq> WriteFails)) app cid payload target A of
        (None, A1) \<Rightarrow> (None, A1, B)
      | (Some (Inl e), A1) \<Rightarrow> (Some (Inl e), A1, B)
      | (Some (Inr _), A1) \<Rightarrow>
          let B1 = (if lk = RequestLost then B
                    else snd (loop_body (up (lk \<noteq> ResponseLost)) True enum ss self app (new_bytes A A1 cs) B));
              A2 = snd (loop_body (up True) True enum cs target app (new_bytes B B1 ss) A1);
              (r, A3) = Request_wait app cid (if pending A2 app cid = Some [] then TimedOut else ResponseArrived) A2
          in (r, A3, B1))"

text \<open>
  The handler the cache registers, with the texts of its errors, and what an answer of the
  abstract request is for the caller of the concrete one.
\<close>

definition cache_handler :: "env \<Rightarrow> (error \<Rightarrow> string) \<Rightarrow> cache request_handler" where
  "cache_handler env text payload nid d = (case applicationRequestHandlerFunc env payload d of
     Ret (Inr bs) d' \<Rightarrow> Some ((bs, None), d')
   | Ret (Inl e) d' \<Rightarrow> Some (([], Some (text e)), d')
   | Panic \<Rightarrow> None
   | Hang \<Rightarrow> None)"

fun concrete_answer :: "(error \<Rightarrow> string) \<Rightarrow> error + byte list \<Rightarrow> request_error + byte list" where
  "concrete_answer text (Inr bs) = Inr bs"
| "concrete_answer text (Inl (ErrRemote e)) = Inl (RemoteError (text e))"
| "concrete_answer text (Inl ErrTimeout) = Inl RequestTimeout"
| "concrete_answer text (Inl e) = Inl (SendFailed WriteError)"

lemma Request_send_open:
  assumes "unlocked p" and "quicStreams (pNode p) (streamKey target app ''request'') = Some cs"
  shows "Request_send (up works) app cid payload target p =
    (let p1 = snd (on_app app (set_pending cid (Some [])) p) in
     if works then (Some (Inr ()), p1\<lparr>outBytes := (outBytes p1)(cs := outBytes p1 cs
         @ encodeRequestFrame \<lparr>reqCorrelationID = cid, reqPayload = payload\<rparr>)\<rparr>)
     else (Some (Inl (SendFailed WriteError)), snd (on_app app (set_pending cid None) p1)))"
proof -
  let ?p = "snd (on_app app (set_pending cid (Some [])) p)"
  have "unlocked ?p" "quicStreams (pNode ?p) (streamKey target app ''request'') = Some cs"
    using assms by (simp_all add: unlocked_def on_app_def)
  then have "getOrOpenQuicStream (up works) target app ''request'' ?p = (Some (Inr cs), ?p)"
    by (rule getOrOpen_found)
  then show ?thesis
    by (simp add: Request_send_def sendRequestFrame_def seq_def on_app_def stream_write_def up_def finish_def)
qed

lemma server_turn:
  assumes fits: "request_fits r" and b: "applications B app = Some b" "requestHandler b = Some h"
  shows "loop_body (up works) drains enum ss nid app (encodeRequestFrame r) B =
    (case h (reqPayload r) nid (appState B) of
       None \<Rightarrow> (None, B)
     | Some ((bs, err), s') \<Rightarrow> (Some (), let B' = B\<lparr>appState := s'\<rparr> in
         if works then B'\<lparr>outBytes := (outBytes B)(ss := outBytes B ss @ encodeResponseFrame
           \<lparr>respCorrelationID = reqCorrelationID r, respPayload = bs,
            respError = (case err of None \<Rightarrow> '''' | Some e \<Rightarrow> e)\<rparr>)\<rparr> else B'))"
proof -
  have "loop_body (up works) drains enum ss nid app (encodeRequestFrame r) B
      = handleRequest (up works) ss app (request_body r) nid B"
    using readFrame_request [OF fits, of "[]" EOF] by (simp add: loop_body_def handleFrame_def frame_types)
  with decode_request_body [OF fits, of "[]"] b show ?thesis
    by (simp add: handleRequest_def seq_def look_def call_handler_def respond_def sendResponseFrame_def up_def
        split: option.split prod.split)
qed

lemma client_turn:
  assumes fits: "response_fits resp"
  shows "loop_body q drains enum cs nid app (encodeResponseFrame resp) p = handleResponse enum (response_body resp) p"
  using readFrame_response [OF fits, of "[]" EOF] by (simp add: loop_body_def handleFrame_def frame_types)

lemma idle_turn: "loop_body q drains enum cs nid app [] p = (Some (), p)"
  by (simp add: loop_body_def readFrame_def bind_def readFull_def finish_def)

lemma exchange_sent:
  assumes "Request_send (up (lk \<noteq> WriteFails)) app cid payload target A = (Some (Inr ()), A1)"
    and "new_bytes A A1 cs = bytes"
    and "B1 = (if lk = RequestLost then B
      else snd (loop_body (up (lk \<noteq> ResponseLost)) True enum ss self app bytes B))"
    and "snd (loop_body (up True) True enum cs target app (new_bytes B B1 ss) A1) = A2"
    and "Request_wait app cid (if pending A2 app cid = Some [] then TimedOut else ResponseArrived) A2 = (r, A3)"
  shows "exchange lk enum app cid payload self target cs ss A B = (r, A3, B1)"
  unfolding exchange_def assms(1) prod.case option.case sum.case Let_def assms(2) assms(3) [symmetric] assms(4,5)
  by simp

text \<open>The client once its request has been written, and how it ends.\<close>

definition asked :: "string \<Rightarrow> string \<Rightarrow> byte list \<Rightarrow> stream \<Rightarrow> 's peer \<Rightarrow> 's peer" where
  "asked app cid payload cs p = (let p1 = snd (on_app app (set_pending cid (Some [])) p) in
     p1\<lparr>outBytes := (outBytes p1)(cs := outBytes p1 cs
       @ encodeRequestFrame \<lparr>reqCorrelationID = cid, reqPayload = payload\<rparr>)\<rparr>)"

lemma asked_pending:
  assumes "applications p app = Some a" and "\<forall>x. pending p x cid = None"
  shows "pending (asked app cid payload cs p) app cid = Some []"
    and "applications (asked app cid payload cs p) app = Some (set_pending cid (Some []) a)"
    and "x \<noteq> app \<Longrightarrow> pending (asked app cid payload cs p) x cid = None"
    and "lists_apps enum p \<Longrightarrow> lists_apps enum (asked app cid payload cs p)"
    and "new_bytes p (asked app cid payload cs p) cs = encodeRequestFrame \<lparr>reqCorrelationID = cid, reqPayload = payload\<rparr>"
  using assms by (simp_all add: asked_def on_app_def pending_def set_pending_def lists_apps_def new_bytes_def
      insert_absorb domI)

lemma asked_times_out:
  assumes "applications p app = Some a" and "\<forall>x. pending p x cid = None"
  shows "\<exists>p'. Request_wait app cid TimedOut (asked app cid payload cs p) = (Some (Inl RequestTimeout), p')
    \<and> applications p' = applications p"
proof -
  have "pendingRequests a cid = None" using assms by (simp add: pending_def split: option.split_asm)
  then have "a\<lparr>pendingRequests := (pendingRequests a)(cid := None)\<rparr> = a"
    by (simp add: fun_upd_idem)
  with assms(1) show ?thesis
    by (auto simp: asked_def Request_wait_def seq_def look_def on_app_def finish_def set_pending_def fun_upd_idem)
qed

lemma asked_answered:
  fixes cs :: stream and payload :: "byte list"
  assumes a: "applications p app = Some a" and none: "\<forall>x. pending p x cid = None" and apps: "lists_apps enum p"
    and fits: "response_fits resp" and cid: "respCorrelationID resp = cid"
  defines "p2 \<equiv> snd (handleResponse enum (response_body resp) (asked app cid payload cs p))"
  shows "pending p2 app cid = Some [resp]
    \<and> (\<exists>p'. Request_wait app cid ResponseArrived p2 = (Some (if respError resp \<noteq> ''''
        then Inl (RemoteError (respError resp)) else Inr (respPayload resp)), p')
      \<and> applications p' = applications p)"
proof -
  note A = asked_pending [OF a none, where payload = payload and cs = cs]
  have p2: "p2 = (asked app cid payload cs p)\<lparr>applications := (applications (asked app cid payload cs p))
      (app \<mapsto> set_pending cid (Some [resp]) (set_pending cid (Some []) a))\<rparr>"
    using handleResponse_known [OF fits A(4) [OF apps] A(2), of "[]"] A(3) cid
    by (simp add: p2_def set_pending_def)
  have "pendingRequests a cid = None" using a none [rule_format, of app] by (simp add: pending_def)
  then have same: "a\<lparr>pendingRequests := (pendingRequests a)(cid := None)\<rparr> = a"
    by (simp add: fun_upd_idem)
  show ?thesis
    using a same unfolding p2
    by (auto simp: pending_def asked_def on_app_def set_pending_def Request_wait_def seq_def look_def finish_def
        fun_upd_idem)
qed

text \<open>
  C4: The request of the cache is refined by the code. Between two nodes with an open stream, a
  request that goes through the correlation table, the frames, both read loops and the
  registered handler gives the caller the answer of \<open>Remote.Request\<close>, for every state of the
  link: the response, the text of the handler's error, a failed send, or the timeout when a
  frame is lost or the handler does not return. It leaves the table of pending requests as it
  found it, and the server's cache in the state \<open>Remote.Request\<close> gives it.
\<close>

theorem request_pipeline_refines:
  fixes ss :: stream
  assumes A: "unlocked A" "quicStreams (pNode A) (streamKey target app ''request'') = Some cs"
      "applications A app = Some a" "\<forall>x. pending A x cid = None" "lists_apps enum A"
    and B: "applications B app = Some b" "requestHandler b = Some (cache_handler env text)" "appState B = d"
    and cl: "cl target = Some d" "target \<in> set (e_peers env self)"
    and fits: "length cid < 65536" "length payload < 4294967296" "\<forall>e. text e \<noteq> '''' \<and> length (text e) < 65536"
      "\<forall>bs d'. applicationRequestHandlerFunc env payload d = Ret (Inr bs) d' \<longrightarrow> length bs < 4294967296"
  shows "\<exists>A' B'. exchange (e_link env target) enum app cid payload self target cs ss A B
      = (Some (concrete_answer text (fst (Remote.Request env self payload target cl))), A', B')
    \<and> applications A' = applications A
    \<and> appState B' = (case snd (Remote.Request env self payload target cl) target of None \<Rightarrow> d | Some d' \<Rightarrow> d')"
proof -
  let ?req = "\<lparr>reqCorrelationID = cid, reqPayload = payload\<rparr>" and ?A1 = "asked app cid payload cs A"
  let ?lk = "e_link env target"
  have req: "request_fits ?req" using fits(1,2) by (simp add: request_fits_def)
  have send: "Request_send (up True) app cid payload target A = (Some (Inr ()), ?A1)"
    by (simp add: Request_send_open [OF A(1,2)] asked_def Let_def)
  note P = asked_pending [OF A(3,4), where payload = payload and cs = cs]
  obtain At where lost: "Request_wait app cid TimedOut ?A1 = (Some (Inl RequestTimeout), At)"
    "applications At = applications A" using asked_times_out [OF A(3,4)] by blast
  have silent: "exchange ?lk enum app cid payload self target cs ss A B = (Some (Inl RequestTimeout), At, B')"
    if lk: "?lk \<noteq> WriteFails" and B': "(if ?lk = RequestLost then B
        else snd (loop_body (up (?lk \<noteq> ResponseLost)) True enum ss self app (encodeRequestFrame ?req) B)) = B'"
      and nb: "new_bytes B B' ss = []" for B'
  proof -
    have "Request_send (up (?lk \<noteq> WriteFails)) app cid payload target A = (Some (Inr ()), ?A1)"
      using lk send by simp
    moreover have "snd (loop_body (up True) True enum cs target app (new_bytes B B' ss) ?A1) = ?A1"
      by (simp add: nb idle_turn)
    ultimately show ?thesis
    proof (rule exchange_sent [OF _ P(5) B' [symmetric]])
      have "(if pending ?A1 app cid = Some [] then TimedOut else ResponseArrived) = TimedOut"
        by (rule if_P [OF P(1)])
      then show "Request_wait app cid (if pending ?A1 app cid = Some [] then TimedOut else ResponseArrived) ?A1
        = (Some (Inl RequestTimeout), At)" using lost(1) by simp
    qed
  qed
  show ?thesis
  proof (cases ?lk)
    case WriteFails
    have "applications (snd (on_app app (set_pending cid None) (snd (on_app app (set_pending cid (Some [])) A))))
        = applications A"
    proof -
      have "pendingRequests a cid = None" using A(3) A(4) [rule_format, of app] by (simp add: pending_def)
      then have "a\<lparr>pendingRequests := (pendingRequests a)(cid := None)\<rparr> = a" by (simp add: fun_upd_idem)
      with A(3) show ?thesis by (simp add: on_app_def set_pending_def fun_upd_idem)
    qed
    with WriteFails cl B(3) show ?thesis
      by (simp add: exchange_def Request_send_open [OF A(1,2)] Let_def Remote.Request_def)
  next
    case RequestLost
    with silent [of B] lost(2) cl B(3) show ?thesis
      by (simp add: new_bytes_def Remote.Request_def)
  next
    case ResponseLost
    let ?B' = "snd (loop_body (up False) True enum ss self app (encodeRequestFrame ?req) B)"
    note S = server_turn [OF req B(1,2), of False True enum ss self]
    have nb: "new_bytes B ?B' ss = []"
      by (simp add: S new_bytes_def Let_def split: option.split prod.split)
    from silent [of ?B'] ResponseLost nb
    have "exchange ?lk enum app cid payload self target cs ss A B = (Some (Inl RequestTimeout), At, ?B')" by simp
    moreover have "appState ?B' = (case snd (Remote.Request env self payload target cl) target of None \<Rightarrow> d | Some d' \<Rightarrow> d')"
      using ResponseLost cl B(3)
      by (simp add: S Remote.Request_def cache_handler_def split: outcome.split sum.split)
    ultimately show ?thesis
      using ResponseLost lost(2) cl by (simp add: Remote.Request_def split: outcome.split)
  next
    case Up
    let ?B' = "snd (loop_body (up True) True enum ss self app (encodeRequestFrame ?req) B)"
    note S = server_turn [OF req B(1,2), of True True enum ss self]
    show ?thesis
    proof (cases "cache_handler env text payload self d")
      case None
      then have "new_bytes B ?B' ss = []" "appState ?B' = d" using B(3) by (simp_all add: S new_bytes_def)
      with silent [of ?B'] Up have "exchange ?lk enum app cid payload self target cs ss A B
          = (Some (Inl RequestTimeout), At, ?B')" by simp
      with None Up lost(2) cl \<open>appState ?B' = d\<close> show ?thesis
        by (auto simp: Remote.Request_def cache_handler_def split: outcome.splits sum.splits)
    next
      case (Some x)
      obtain bs err d' where x: "x = ((bs, err), d')" by (metis surj_pair)
      let ?resp = "\<lparr>respCorrelationID = cid, respPayload = bs, respError = (case err of None \<Rightarrow> '''' | Some e \<Rightarrow> e)\<rparr>"
      have shape: "length bs < 4294967296" "length (case err of None \<Rightarrow> '''' | Some e \<Rightarrow> e) < 65536"
        using Some x fits(3,4) by (auto simp: cache_handler_def split: outcome.split_asm sum.split_asm)
      have resp: "response_fits ?resp" using shape fits(1) by (simp add: response_fits_def)
      have nb: "new_bytes B ?B' ss = encodeResponseFrame ?resp" and st: "appState ?B' = d'"
        using Some x B(3) by (simp_all add: S new_bytes_def Let_def)
      obtain A' where
        got: "pending (snd (handleResponse enum (response_body ?resp) ?A1)) app cid = Some [?resp]"
        and wait: "Request_wait app cid ResponseArrived (snd (handleResponse enum (response_body ?resp) ?A1))
          = (Some (if respError ?resp \<noteq> '''' then Inl (RemoteError (respError ?resp)) else Inr (respPayload ?resp)), A')"
        and A': "applications A' = applications A"
        using asked_answered [OF A(3-5) resp, of payload cs] by auto
      have "exchange ?lk enum app cid payload self target cs ss A B = (Some (if respError ?resp \<noteq> ''''
          then Inl (RemoteError (respError ?resp)) else Inr (respPayload ?resp)), A', ?B')"
      proof (rule exchange_sent [OF _ P(5)])
        show "Request_send (up (?lk \<noteq> WriteFails)) app cid payload target A = (Some (Inr ()), ?A1)" using Up send by simp
        show "?B' = (if ?lk = RequestLost then B
            else snd (loop_body (up (?lk \<noteq> ResponseLost)) True enum ss self app (encodeRequestFrame ?req) B))"
          using Up by simp
        show "snd (loop_body (up True) True enum cs target app (new_bytes B ?B' ss) ?A1)
            = snd (handleResponse enum (response_body ?resp) ?A1)"
          unfolding nb client_turn [OF resp] ..
      qed (use got wait in simp)
      moreover have "(if respError ?resp \<noteq> '''' then Inl (RemoteError (respError ?resp)) else Inr (respPayload ?resp))
          = concrete_answer text (fst (Remote.Request env self payload target cl))"
        "snd (Remote.Request env self payload target cl) target = Some d'"
        using Some x Up cl fits(3)
        by (auto simp: Remote.Request_def cache_handler_def split: outcome.split_asm sum.split_asm)
      ultimately show ?thesis using A' st by simp
    qed
  qed
qed

definition demo_client :: "unit peer" where
  "demo_client = demo_peer\<lparr>pNode := demo_streams\<lparr>quicStreams := [streamKey ''b'' ''S'' ''request'' \<mapsto> 6]\<rparr>\<rparr>"

definition demo_env :: env where
  "demo_env = \<lparr>e_hash = demo_hash, e_enc = (\<lambda>_. None), e_dec = (\<lambda>_. None), e_clock = (\<lambda>_. 0),
     e_peers = (\<lambda>_. [''b'']), e_link = (\<lambda>_. Up), e_sched = id\<rparr>"

definition demo_server :: "cache peer" where
  "demo_server = \<lparr>pNode = newNodosum ''b'' 8080, connsMu = free_mutex, streamsMu = free_mutex, nextStream = 3,
     outBytes = (\<lambda>_. []), readLoops = [], applications = [''S'' \<mapsto> new_application
       \<lparr>requestHandler := Some (cache_handler demo_env (\<lambda>_. ''failed''))\<rparr>], appState = initCache ''b'' 1\<rparr>"

theorem request_pipeline_refines_witness:
  "\<exists>A' B'. exchange Up (\<lambda>_. [''S'']) ''S'' ''u1'' [1] ''a'' ''b'' 6 2 demo_client demo_server
    = (Some (Inl (RemoteError ''failed'')), A', B')"
proof -
  let ?cl = "[''b'' \<mapsto> initCache ''b'' 1]" and ?text = "\<lambda>_. ''failed''"
  have "unlocked demo_client" "quicStreams (pNode demo_client) (streamKey ''b'' ''S'' ''request'') = Some 6"
    "applications demo_client ''S'' = Some new_application" "\<forall>x. pending demo_client x ''u1'' = None"
    "lists_apps (\<lambda>_. [''S'']) demo_client"
    by (simp_all add: demo_client_def demo_peer_def unlocked_def free_mutex_def pending_def new_application_def
        lists_apps_def)
  moreover have "applications demo_server ''S'' = Some (new_application
      \<lparr>requestHandler := Some (cache_handler demo_env ?text)\<rparr>)" "appState demo_server = initCache ''b'' 1"
    by (simp_all add: demo_server_def)
  moreover have F: "applicationRequestHandlerFunc demo_env [1] (initCache ''b'' 1)
      = Ret (Inl ErrGobDecode) (initCache ''b'' 1)"
    by (simp add: applicationRequestHandlerFunc_def gobDecode_def demo_env_def)
  moreover have "?cl ''b'' = Some (initCache ''b'' 1)" "''b'' \<in> set (e_peers demo_env ''a'')"
    by (simp_all add: demo_env_def)
  ultimately have "\<exists>A' B'. exchange (e_link demo_env ''b'') (\<lambda>_. [''S'']) ''S'' ''u1'' [1] ''a'' ''b'' 6 2 demo_client demo_server
      = (Some (concrete_answer ?text (fst (Remote.Request demo_env ''a'' [1] ''b'' ?cl))), A', B')"
    using request_pipeline_refines [of demo_client "''b''" "''S''" 6 new_application "''u1''" "\<lambda>_. [''S'']"
        demo_server _ demo_env ?text "initCache ''b'' 1" ?cl "''a''" "[1]" 2] by simp blast
  moreover have "e_link demo_env ''b'' = Up" by (simp add: demo_env_def)
  moreover have "fst (Remote.Request demo_env ''a'' [1] ''b'' ?cl) = Inl (ErrRemote ErrGobDecode)"
    using F by (simp add: Remote.Request_def) (simp add: demo_env_def)
  ultimately show ?thesis by simp
qed

section \<open>From the stream to the queue\<close>

lemma data_turn:
  assumes "length m < 4294967296"
  shows "streamReadLoop q drains enum st nid app name (Suc left) \<lparr>avail = encodeDataFrame m @ rest, after = e\<rparr> p
    = streamReadLoop q drains enum st nid app name left \<lparr>avail = rest, after = e\<rparr> (queue_step app (Arrive m drains) p)"
  using readFrame_data [OF assms, of rest e]
  by (simp add: handleFrame_def seq_def routeToApplication_def on_app_def)

lemma data_turns:
  "list_all (\<lambda>m. length m < 4294967296) ms \<Longrightarrow>
    streamReadLoop q drains enum st nid app name (length ms + k)
        \<lparr>avail = concat (map encodeDataFrame ms) @ rest, after = e\<rparr> p
      = streamReadLoop q drains enum st nid app name k \<lparr>avail = rest, after = e\<rparr>
        (fold (queue_step app) (map (\<lambda>m. Arrive m drains) ms) p)"
proof (induction ms arbitrary: p)
  case (Cons m ms)
  then show ?case using data_turn [of m q drains enum st nid app name "length ms + k"
      "concat (map encodeDataFrame ms) @ rest" e p] by (simp del: streamReadLoop.simps)
qed simp

lemma arrivals_map: "arrivals (map (\<lambda>m. Arrive m drains) ms) = ms"
  by (induction ms) simp_all

lemma queue_step_mutexes:
  "streamsMu (fold (queue_step app) es p) = streamsMu p"
proof (induction es arbitrary: p)
  case (Cons e es)
  then show ?case by (cases e) (simp_all add: routeToApplication_def on_app_def)
qed simp

text \<open>
  Sent messages arrive. A read loop that finds the DATA frames of any messages on its stream,
  and then the end of the stream, ends and has put the messages into the queue of the
  application, in order; at most 100 wait, and none is lost if at most 100 were sent or the
  worker keeps up.
\<close>

theorem sent_messages_arrive:
  assumes "list_all (\<lambda>m. length m < 4294967296) ms" and "length ms < left"
    and "applications p app = Some new_application" and "unlocked p"
  shows "\<exists>p' a. streamReadLoop q drains enum st nid app name left
        \<lparr>avail = concat (map encodeDataFrame ms), after = EOF\<rparr> p = (Some (), p')
    \<and> applications p' app = Some a \<and> subseq (handled a @ inputChan a) ms \<and> length (inputChan a) \<le> 100
    \<and> (drains \<or> length ms \<le> 100 \<longrightarrow> handled a @ inputChan a = ms)"
proof -
  let ?es = "map (\<lambda>m. Arrive m drains) ms"
  let ?p = "fold (queue_step app) ?es p"
  obtain k where left: "left = length ms + Suc k" using assms(2) less_imp_Suc_add by auto
  have "readFrame \<lparr>avail = [], after = EOF\<rparr> = (Inl EOF, \<lparr>avail = [], after = EOF\<rparr>)"
    by (simp add: readFrame_def bind_def readFull_def)
  then have run: "streamReadLoop q drains enum st nid app name left
      \<lparr>avail = concat (map encodeDataFrame ms), after = EOF\<rparr> p = streamReadLoop_exit st nid app name ?p"
    using data_turns [OF assms(1), of q drains enum st nid app name "Suc k" "[]" EOF p]
    by (simp add: left isQuicConnectionClosed_def)
  have "\<not> held (streamsMu ?p)" "rdrs (streamsMu ?p) = 0"
    using assms(4) by (simp_all add: queue_step_mutexes unlocked_def)
  then obtain p' where fin: "streamReadLoop_exit st nid app name ?p = (Some (), p')" "applications p' = applications ?p"
    by (simp add: streamReadLoop_exit_def seq_def on_node_def streams_Lock_def mutex_Lock_def)
  have full: "\<forall>m. Arrive m False \<notin> set ?es" if drains using that by auto
  from queue_steps_app [OF assms(3), of ?es] events_on [of new_application ?es] full fin show ?thesis
    unfolding run by (auto simp: taken_or_queued_def new_application_def arrivals_map)
qed

theorem sent_messages_arrive_witness:
  "\<exists>p' a. streamReadLoop \<lparr>qOpens = \<lambda>_. True, qWrites = \<lambda>_. True\<rparr> False (\<lambda>_. []) 6 ''b'' ''S'' ''data'' 3
      \<lparr>avail = concat (map encodeDataFrame [[1], [2, 3]]), after = EOF\<rparr> demo_peer = (Some (), p')
    \<and> applications p' ''S'' = Some a \<and> handled a @ inputChan a = [[1], [2, 3]]"
proof -
  have "list_all (\<lambda>m. length m < 4294967296) [[1], [2, 3 :: byte]]" "length [[1], [2, 3 :: byte]] < 3"
    "applications demo_peer ''S'' = Some new_application" "unlocked demo_peer"
    by (simp_all add: demo_peer_def unlocked_def free_mutex_def)
  from sent_messages_arrive [OF this, of "\<lparr>qOpens = \<lambda>_. True, qWrites = \<lambda>_. True\<rparr>" False "\<lambda>_. []" 6 "''b''" "''data''"]
  show ?thesis by force
qed

end
