(* ===== verification/Geo_Index.thy ===== *)
theory Geo_Index
  imports Local_Cache Metrics
begin

text \<open>
  The geo index of one node (\<open>internal/mycel/geo.go\<close>, \<open>geo_local.go\<close>): the stores with one
  index tier per precision, \<open>setLocationLocal\<close> and \<open>deleteLocationLocal\<close>, which write the
  index and the LRU store, and the invariant that the index holds exactly the stored points.

  The geohash library is not part of the repository: \<open>encode lat lng p\<close> is
  \<open>geohash.EncodeWithPrecision\<close>, an argument of the definitions that use it. Coordinates are
  real numbers; rounding and NaN of \<open>float64\<close> are not modelled. A missing tier of the index is an
  empty one (only the precisions of a store are ever written, and their tiers exist). Each
  operation reads the clock once.
\<close>

section \<open>Stores\<close>

type_synonym tier = "string \<rightharpoonup> string set"

record geoStore =
  gsPrecisions :: "nat list"
  gsIndex :: "nat \<Rightarrow> tier"
  gsPoints :: "string \<rightharpoonup> GeoEntry"

record geoCache =
  gcCache :: cache
  gcStores :: "string \<rightharpoonup> geoStore"

type_synonym geohash = "real \<Rightarrow> real \<Rightarrow> nat \<Rightarrow> string"

definition newGeoCache :: "cache \<Rightarrow> geoCache" where
  "newGeoCache c = \<lparr>gcCache = c, gcStores = Map.empty\<rparr>"

definition maxPrecision :: "geoStore \<Rightarrow> nat" where
  "maxPrecision s = gsPrecisions s ! (length (gsPrecisions s) - 1)"

fun has_precision :: "nat list \<Rightarrow> nat \<Rightarrow> bool" where
  "has_precision [] p = False"
| "has_precision (v # vs) p = (if v = p then True else has_precision vs p)"

definition hasPrecision :: "geoStore \<Rightarrow> nat \<Rightarrow> bool" where
  "hasPrecision s p = has_precision (gsPrecisions s) p"

definition createStore :: "string \<Rightarrow> nat list \<Rightarrow> geoCache \<Rightarrow> (error + unit) \<times> geoCache" where
  "createStore bucket precs g =
     (if length precs = 0 then (Inl ERR_BAD_PRECISION, g)
      else case gcStores g bucket of
        Some _ \<Rightarrow> (Inr (), g)
      | None \<Rightarrow> (Inr (), g\<lparr>gcStores := (gcStores g)(bucket \<mapsto>
          \<lparr>gsPrecisions = sort precs, gsIndex = (\<lambda>_. Map.empty), gsPoints = Map.empty\<rparr>)\<rparr>))"

definition getStore :: "string \<Rightarrow> geoCache \<Rightarrow> error + geoStore" where
  "getStore bucket g = (case gcStores g bucket of None \<Rightarrow> Inl ERR_NO_GEO_BUCKET | Some s \<Rightarrow> Inr s)"

text \<open>\<open>CreateGeoBucket\<close> of the cache interface (\<open>cache.go\<close>).\<close>

definition CreateGeoBucket ::
    "string \<Rightarrow> duration \<Rightarrow> int \<Rightarrow> nat list \<Rightarrow> geoCache \<Rightarrow> (unit, geoCache) outcome" where
  "CreateGeoBucket name ttl maxLen precs g =
     (if length precs = 0 then Ret (Inl ErrNoPrecisions) g
      else case CreateGeoBucketInternal name ttl maxLen precs (gcCache g) of
        Ret (Inl e) c' \<Rightarrow> Ret (Inl e) (g\<lparr>gcCache := c'\<rparr>)
      | Ret (Inr _) c' \<Rightarrow>
          (case createStore name precs (g\<lparr>gcCache := c'\<rparr>) of (r, g') \<Rightarrow> Ret r g')
      | Panic \<Rightarrow> Panic
      | Hang \<Rightarrow> Hang)"

section \<open>Index tiers\<close>

definition tier_remove :: "string \<Rightarrow> string \<Rightarrow> tier \<Rightarrow> tier" where
  "tier_remove cell u t =
     (case t cell of
        None \<Rightarrow> t
      | Some ids \<Rightarrow> if ids - {u} = {} then t(cell := None) else t(cell \<mapsto> ids - {u}))"

definition tier_insert :: "string \<Rightarrow> string \<Rightarrow> tier \<Rightarrow> tier" where
  "tier_insert cell u t =
     (case t cell of None \<Rightarrow> t(cell \<mapsto> {u}) | Some ids \<Rightarrow> t(cell \<mapsto> insert u ids))"

text \<open>The loops over \<open>s.precisions\<close>.\<close>

fun remove_all :: "geohash \<Rightarrow> string \<Rightarrow> real \<Rightarrow> real \<Rightarrow> nat list \<Rightarrow> (nat \<Rightarrow> tier) \<Rightarrow> nat \<Rightarrow> tier" where
  "remove_all encode u lat lng [] idx = idx"
| "remove_all encode u lat lng (p # ps) idx =
     remove_all encode u lat lng ps (idx(p := tier_remove (encode lat lng p) u (idx p)))"

fun insert_all :: "geohash \<Rightarrow> string \<Rightarrow> real \<Rightarrow> real \<Rightarrow> nat list \<Rightarrow> (nat \<Rightarrow> tier) \<Rightarrow> nat \<Rightarrow> tier" where
  "insert_all encode u lat lng [] idx = idx"
| "insert_all encode u lat lng (p # ps) idx =
     insert_all encode u lat lng ps (idx(p := tier_insert (encode lat lng p) u (idx p)))"

section \<open>Writing and deleting a location\<close>

definition recordGeoBucketSize :: "string \<Rightarrow> int \<Rightarrow> geoCache \<Rightarrow> geoCache" where
  "recordGeoBucketSize bucket delta g =
     g\<lparr>gcCache := add_counter ''geoBucketSize'' [bucket] delta (gcCache g)\<rparr>"

text \<open>Run an operation of the LRU store inside the geo cache.\<close>

fun on_cache :: "geoCache \<Rightarrow> ('a, cache) outcome \<Rightarrow> ('a, geoCache) outcome" where
  "on_cache g (Ret r c) = Ret r (g\<lparr>gcCache := c\<rparr>)"
| "on_cache g Panic = Panic"
| "on_cache g Hang = Hang"

definition drop_point :: "geohash \<Rightarrow> string \<Rightarrow> GeoEntry \<Rightarrow> geoStore \<Rightarrow> geoStore" where
  "drop_point encode u entry s =
     s\<lparr>gsIndex := remove_all encode u (geLat entry) (geLng entry) (gsPrecisions s) (gsIndex s),
       gsPoints := (gsPoints s)(u := None)\<rparr>"

definition deleteLocationLocal ::
    "geohash \<Rightarrow> string \<Rightarrow> string \<Rightarrow> geoCache \<Rightarrow> (unit, geoCache) outcome" where
  "deleteLocationLocal encode bucket u g =
     (case getStore bucket g of
        Inl e \<Rightarrow> (case on_cache g (deleteLocal bucket u (gcCache g)) of
            Ret _ g' \<Rightarrow> Ret (Inl e) g' | Panic \<Rightarrow> Panic | Hang \<Rightarrow> Hang)
      | Inr s \<Rightarrow>
          let g1 = (case gsPoints s u of
                None \<Rightarrow> g
              | Some entry \<Rightarrow> recordGeoBucketSize bucket (-1)
                  (g\<lparr>gcStores := (gcStores g)(bucket \<mapsto> drop_point encode u entry s)\<rparr>))
          in on_cache g1 (deleteLocal bucket u (gcCache g1)))"

definition effective_ttl :: "string \<Rightarrow> duration \<Rightarrow> cache \<Rightarrow> duration" where
  "effective_ttl bucket ttl c =
     (if ttl = 0 then (case GetBucket bucket c of Inr b \<Rightarrow> bDefaultTtl b | Inl _ \<Rightarrow> ttl) else ttl)"

definition put_point :: "geohash \<Rightarrow> string \<Rightarrow> GeoEntry \<Rightarrow> geoStore \<Rightarrow> geoStore" where
  "put_point encode u entry s =
     (let idx1 = (case gsPoints s u of
            Some old \<Rightarrow> (if geGeohash old \<noteq> geGeohash entry
              then remove_all encode u (geLat old) (geLng old) (gsPrecisions s) (gsIndex s)
              else gsIndex s)
          | None \<Rightarrow> gsIndex s)
      in s\<lparr>gsIndex := insert_all encode u (geLat entry) (geLng entry) (gsPrecisions s) idx1,
           gsPoints := (gsPoints s)(u \<mapsto> entry)\<rparr>)"

definition setLocationLocal ::
    "geohash \<Rightarrow> instant \<Rightarrow> string \<Rightarrow> string \<Rightarrow> real \<Rightarrow> real \<Rightarrow> duration \<Rightarrow> geoCache \<Rightarrow> (unit, geoCache) outcome"
where
  "setLocationLocal encode now bucket u lat lng ttl g =
     (case getStore bucket g of
        Inl e \<Rightarrow> Ret (Inl e) g
      | Inr s \<Rightarrow>
          if gsPrecisions s = [] then Panic else
          let effectiveTTL = effective_ttl bucket ttl (gcCache g);
              expiresAt = (if 0 < effectiveTTL then Some (now + effectiveTTL) else zero_time);
              entry = \<lparr>geUserID = u, geLat = lat, geLng = lng,
                       geGeohash = encode lat lng (maxPrecision s), geExpiresAt = expiresAt\<rparr>;
              isNew = (gsPoints s u = None);
              g1 = g\<lparr>gcStores := (gcStores g)(bucket \<mapsto> put_point encode u entry s)\<rparr>
          in (case on_cache g1 (setLocal now bucket u (AGeoEntry entry) effectiveTTL (gcCache g1)) of
                Ret (Inl e) g2 \<Rightarrow>
                  (case deleteLocationLocal encode bucket u g2 of
                     Ret _ g3 \<Rightarrow> Ret (Inl e) g3 | Panic \<Rightarrow> Panic | Hang \<Rightarrow> Hang)
              | Ret (Inr _) g2 \<Rightarrow>
                  Ret (Inr ()) (if isNew then recordGeoBucketSize bucket 1 g2 else g2)
              | Panic \<Rightarrow> Panic
              | Hang \<Rightarrow> Hang))"

section \<open>The index invariant\<close>

text \<open>
  \<open>tier_of\<close> is the tier the points of a store call for: a cell maps to the users in it, and
  cells without users are absent. The one law of geohash the index needs: points in the same
  cell at a precision are in the same cell at every lower precision.
\<close>

definition users_in :: "geohash \<Rightarrow> nat \<Rightarrow> (string \<rightharpoonup> GeoEntry) \<Rightarrow> string \<Rightarrow> string set" where
  "users_in encode p points cell =
     {u. \<exists>e. points u = Some e \<and> encode (geLat e) (geLng e) p = cell}"

definition tier_of :: "geohash \<Rightarrow> nat \<Rightarrow> (string \<rightharpoonup> GeoEntry) \<Rightarrow> tier" where
  "tier_of encode p points cell =
     (if users_in encode p points cell = {} then None else Some (users_in encode p points cell))"

definition geohash_prefix :: "geohash \<Rightarrow> bool" where
  "geohash_prefix encode \<longleftrightarrow> (\<forall>lat lng lat' lng' m p. p \<le> m \<longrightarrow>
     encode lat lng m = encode lat' lng' m \<longrightarrow> encode lat lng p = encode lat' lng' p)"

definition store_ok :: "geohash \<Rightarrow> geoStore \<Rightarrow> bool" where
  "store_ok encode s \<longleftrightarrow>
     gsPrecisions s \<noteq> [] \<and> sorted (gsPrecisions s) \<and> finite (dom (gsPoints s)) \<and>
     (\<forall>u e. gsPoints s u = Some e \<longrightarrow> geUserID e = u
        \<and> geGeohash e = encode (geLat e) (geLng e) (maxPrecision s)) \<and>
     (\<forall>p. gsIndex s p =
        (if p \<in> set (gsPrecisions s) then tier_of encode p (gsPoints s) else Map.empty))"

definition geo_ok :: "geohash \<Rightarrow> geoCache \<Rightarrow> bool" where
  "geo_ok encode g \<longleftrightarrow> (\<forall>bucket s. gcStores g bucket = Some s \<longrightarrow> store_ok encode s)"

lemma tier_remove_idem: "tier_remove cell u (tier_remove cell u t) = tier_remove cell u t"
  by (auto simp: tier_remove_def fun_eq_iff split: option.splits if_splits)

lemma tier_insert_idem: "tier_insert cell u (tier_insert cell u t) = tier_insert cell u t"
  by (auto simp: tier_insert_def fun_eq_iff split: option.splits)

lemma remove_all_tier:
  "remove_all encode u lat lng ps idx p =
     (if p \<in> set ps then tier_remove (encode lat lng p) u (idx p) else idx p)"
  by (induction ps arbitrary: idx) (auto simp: tier_remove_idem)

lemma insert_all_tier:
  "insert_all encode u lat lng ps idx p =
     (if p \<in> set ps then tier_insert (encode lat lng p) u (idx p) else idx p)"
  by (induction ps arbitrary: idx) (auto simp: tier_insert_idem)

lemma users_in_update:
  "users_in encode p (points(u := None)) cell = users_in encode p points cell - {u}"
  "users_in encode p (points(u \<mapsto> e)) cell =
     (if encode (geLat e) (geLng e) p = cell then insert u (users_in encode p points cell)
      else users_in encode p points cell - {u})"
  by (auto simp: users_in_def)

lemma users_in_self:
  "points u = Some e \<Longrightarrow> u \<in> users_in encode p points cell \<longleftrightarrow> encode (geLat e) (geLng e) p = cell"
  by (simp add: users_in_def)

lemma tier_of_remove:
  assumes "points u = Some e"
  shows "tier_remove (encode (geLat e) (geLng e) p) u (tier_of encode p points)
    = tier_of encode p (points(u := None))"
  using users_in_self [where points = points and u = u, OF assms, of encode p]
  by (auto simp: tier_of_def tier_remove_def users_in_update fun_eq_iff split: option.split)

lemma tier_of_insert_new:
  assumes "points u = None"
  shows "tier_insert (encode (geLat e) (geLng e) p) u (tier_of encode p points)
    = tier_of encode p (points(u \<mapsto> e))"
proof -
  have "u \<notin> users_in encode p points cell" for cell using assms by (simp add: users_in_def)
  then show ?thesis
    by (auto simp: tier_of_def tier_insert_def users_in_update fun_eq_iff split: option.split)
qed

lemma tier_of_insert_same:
  assumes "points u = Some old"
    and "encode (geLat old) (geLng old) p = encode (geLat e) (geLng e) p"
  shows "tier_insert (encode (geLat e) (geLng e) p) u (tier_of encode p points)
    = tier_of encode p (points(u \<mapsto> e))"
  using users_in_self [where points = points and u = u, OF assms(1), of encode p] assms(2)
  by (auto simp: tier_of_def tier_insert_def users_in_update fun_eq_iff split: option.split)

lemma maxPrecision_max: "store_ok encode s \<Longrightarrow> p \<in> set (gsPrecisions s) \<Longrightarrow> p \<le> maxPrecision s"
  by (auto simp: store_ok_def maxPrecision_def in_set_conv_nth intro!: sorted_nth_mono)

lemma put_point_ok:
  assumes ok: "store_ok encode s" and prefix: "geohash_prefix encode"
    and e: "geUserID e = u" "geGeohash e = encode (geLat e) (geLng e) (maxPrecision s)"
  shows "store_ok encode (put_point encode u e s)"
proof -
  have idx: "gsIndex (put_point encode u e s) p
      = (if p \<in> set (gsPrecisions s) then tier_of encode p ((gsPoints s)(u \<mapsto> e)) else Map.empty)" for p
  proof (cases "gsPoints s u")
    case None
    then show ?thesis
      using ok tier_of_insert_new [where points = "gsPoints s" and u = u, OF None]
      by (simp add: put_point_def insert_all_tier store_ok_def Let_def)
  next
    case (Some old)
    have old: "geGeohash old = encode (geLat old) (geLng old) (maxPrecision s)"
      using ok Some by (simp add: store_ok_def)
    show ?thesis
    proof (cases "geGeohash old = geGeohash e")
      case True
      have "encode (geLat old) (geLng old) p = encode (geLat e) (geLng e) p"
        if "p \<in> set (gsPrecisions s)"
        using prefix maxPrecision_max [OF ok that] True old e(2)
        unfolding geohash_prefix_def by metis
      then show ?thesis
        using ok True tier_of_insert_same [where points = "gsPoints s" and u = u, OF Some, of encode p e]
        by (simp add: put_point_def insert_all_tier store_ok_def Let_def Some)
    next
      case False
      then show ?thesis
        using ok tier_of_remove [where points = "gsPoints s" and u = u, OF Some, of encode p]
          tier_of_insert_new [of "(gsPoints s)(u := None)" u encode e p]
        by (simp add: put_point_def insert_all_tier remove_all_tier store_ok_def Let_def Some)
    qed
  qed
  have e': "gsPoints (put_point encode u e s) = (gsPoints s)(u \<mapsto> e)"
    "gsPrecisions (put_point encode u e s) = gsPrecisions s"
    by (simp_all add: put_point_def Let_def)
  show ?thesis
    unfolding store_ok_def idx e' maxPrecision_def
    using ok e by (simp add: store_ok_def maxPrecision_def)
qed

lemma drop_point_ok:
  assumes "store_ok encode s" and "gsPoints s u = Some e"
  shows "store_ok encode (drop_point encode u e s)"
  using assms tier_of_remove [where points = "gsPoints s" and u = u, OF assms(2), of encode]
  by (simp add: drop_point_def store_ok_def remove_all_tier maxPrecision_def)

lemma recordGeoBucketSize_simps [simp]:
  "gcStores (recordGeoBucketSize b d g) = gcStores g"
  "gcCache (recordGeoBucketSize b d g) = add_counter ''geoBucketSize'' [b] d (gcCache g)"
  by (simp_all add: recordGeoBucketSize_def)

lemma on_cache_Ret: "on_cache g out = Ret r g' \<longleftrightarrow> (\<exists>c. out = Ret r c \<and> g' = g\<lparr>gcCache := c\<rparr>)"
  by (cases out) auto

lemma geo_ok_put:
  "geo_ok encode g \<Longrightarrow> store_ok encode s \<Longrightarrow> geo_ok encode (g\<lparr>gcStores := (gcStores g)(b \<mapsto> s)\<rparr>)"
  by (simp add: geo_ok_def)

lemma geo_ok_stores: "gcStores g' = gcStores g \<Longrightarrow> geo_ok encode g' = geo_ok encode g"
  by (simp add: geo_ok_def)

lemma deleteLocationLocal_ok:
  assumes ok: "geo_ok encode g" and run: "deleteLocationLocal encode b u g = Ret r g'"
  shows "geo_ok encode g'"
proof (cases "gcStores g b")
  case None
  with run show ?thesis
    using ok by (auto simp: deleteLocationLocal_def getStore_def on_cache_Ret geo_ok_def
        split: outcome.splits)
next
  case (Some s)
  show ?thesis
  proof (cases "gsPoints s u")
    case None
    with run Some ok show ?thesis
      by (auto simp: deleteLocationLocal_def getStore_def on_cache_Ret geo_ok_def)
  next
    case (Some e)
    with run \<open>gcStores g b = Some s\<close> have "gcStores g' = (gcStores g)(b \<mapsto> drop_point encode u e s)"
      by (auto simp: deleteLocationLocal_def getStore_def on_cache_Ret)
    moreover have "store_ok encode s" using ok \<open>gcStores g b = Some s\<close> by (simp add: geo_ok_def)
    ultimately show ?thesis
      using drop_point_ok [where s = s and u = u, OF _ Some] ok by (simp add: geo_ok_def)
  qed
qed

text \<open>The entry a write makes, and the write with that entry and the updated index named.\<close>

definition located ::
    "geohash \<Rightarrow> instant \<Rightarrow> string \<Rightarrow> string \<Rightarrow> real \<Rightarrow> real \<Rightarrow> duration \<Rightarrow> geoCache \<Rightarrow> geoStore \<Rightarrow> GeoEntry" where
  "located encode now b u lat lng ttl g s =
     (let effectiveTTL = effective_ttl b ttl (gcCache g)
      in \<lparr>geUserID = u, geLat = lat, geLng = lng, geGeohash = encode lat lng (maxPrecision s),
          geExpiresAt = (if 0 < effectiveTTL then Some (now + effectiveTTL) else zero_time)\<rparr>)"

lemma located_simps [simp]:
  "geUserID (located encode now b u lat lng ttl g s) = u"
  "geLat (located encode now b u lat lng ttl g s) = lat"
  "geLng (located encode now b u lat lng ttl g s) = lng"
  "geGeohash (located encode now b u lat lng ttl g s) = encode lat lng (maxPrecision s)"
  by (simp_all add: located_def Let_def)

lemma put_point_simps [simp]:
  "gsPrecisions (put_point encode u e s) = gsPrecisions s"
  "gsPoints (put_point encode u e s) = (gsPoints s)(u \<mapsto> e)"
  by (simp_all add: put_point_def Let_def)

lemma setLocationLocal_run:
  fixes encode now b u lat lng ttl g s
  defines "e \<equiv> located encode now b u lat lng ttl g s"
  defines "g1 \<equiv> g\<lparr>gcStores := (gcStores g)(b \<mapsto> put_point encode u e s)\<rparr>"
  assumes "gcStores g b = Some s" and "gsPrecisions s \<noteq> []"
  shows "setLocationLocal encode now b u lat lng ttl g =
    (case setLocal now b u (AGeoEntry e) (effective_ttl b ttl (gcCache g)) (gcCache g) of
       Ret (Inl err) c2 \<Rightarrow>
         (case deleteLocationLocal encode b u (g1\<lparr>gcCache := c2\<rparr>) of
            Ret _ g3 \<Rightarrow> Ret (Inl err) g3 | Panic \<Rightarrow> Panic | Hang \<Rightarrow> Hang)
     | Ret (Inr _) c2 \<Rightarrow>
         Ret (Inr ()) (if gsPoints s u = None then recordGeoBucketSize b 1 (g1\<lparr>gcCache := c2\<rparr>)
           else g1\<lparr>gcCache := c2\<rparr>)
     | Panic \<Rightarrow> Panic
     | Hang \<Rightarrow> Hang)"
  using assms(3,4)
  by (cases "setLocal now b u (AGeoEntry e) (effective_ttl b ttl (gcCache g)) (gcCache g)")
    (auto simp: setLocationLocal_def getStore_def Let_def e_def g1_def located_def
      split: sum.split split del: if_split cong: if_cong)

lemma setLocationLocal_accepted:
  assumes "setLocationLocal encode now b u lat lng ttl g = Ret (Inr v) g'"
  obtains s where "gcStores g b = Some s" and "gsPrecisions s \<noteq> []"
    and "gcStores g' = (gcStores g)(b \<mapsto> put_point encode u (located encode now b u lat lng ttl g s) s)"
proof (cases "gcStores g b")
  case None
  with assms show ?thesis by (simp add: setLocationLocal_def getStore_def)
next
  case (Some s)
  with assms have ps: "gsPrecisions s \<noteq> []" by (auto simp: setLocationLocal_def getStore_def)
  show ?thesis
    by (rule that [OF Some ps]) (use assms setLocationLocal_run [OF Some ps] in
      \<open>auto split: outcome.split_asm sum.split_asm if_split_asm\<close>)
qed

lemma setLocationLocal_ok:
  assumes prefix: "geohash_prefix encode" and ok: "geo_ok encode g"
    and run: "setLocationLocal encode now b u lat lng ttl g = Ret r g'"
  shows "geo_ok encode g'"
proof (cases "gcStores g b")
  case None
  with run ok show ?thesis by (auto simp: setLocationLocal_def getStore_def)
next
  case (Some s)
  with ok have s: "store_ok encode s" by (simp add: geo_ok_def)
  define e where "e = located encode now b u lat lng ttl g s"
  define g1 where "g1 = g\<lparr>gcStores := (gcStores g)(b \<mapsto> put_point encode u e s)\<rparr>"
  have g1: "geo_ok encode g1"
    unfolding g1_def using put_point_ok [OF s prefix, of e u] by (intro geo_ok_put ok) (simp add: e_def)
  have g2: "geo_ok encode (g1\<lparr>gcCache := c2\<rparr>)" for c2 using g1 by (simp add: geo_ok_def)
  have run': "setLocationLocal encode now b u lat lng ttl g = Ret r g'" "gsPrecisions s \<noteq> []"
    using run s by (simp_all add: store_ok_def)
  note run' = run'(1) [unfolded setLocationLocal_run [OF Some run'(2)], folded e_def, folded g1_def]
  show ?thesis
  proof (cases "setLocal now b u (AGeoEntry e) (effective_ttl b ttl (gcCache g)) (gcCache g)")
    case (Ret r2 c2)
    show ?thesis
    proof (cases r2)
      case (Inl err)
      with run' Ret obtain r3 where "deleteLocationLocal encode b u (g1\<lparr>gcCache := c2\<rparr>) = Ret r3 g'"
        by (auto split: outcome.split_asm)
      with deleteLocationLocal_ok [OF g2] show ?thesis by blast
    next
      case (Inr x)
      with run' Ret have "gcStores g' = gcStores g1" by (auto split: if_split_asm)
      with g1 show ?thesis by (simp add: geo_ok_def)
    qed
  qed (use run' in simp_all)
qed

lemma createStore_ok: "geo_ok encode g \<Longrightarrow> geo_ok encode (snd (createStore b ps g))"
proof -
  have "ps \<noteq> [] \<Longrightarrow> sort ps \<noteq> []" by (metis length_0_conv length_sort)
  then show "geo_ok encode g \<Longrightarrow> geo_ok encode (snd (createStore b ps g))"
    by (auto simp: createStore_def geo_ok_def store_ok_def tier_of_def users_in_def fun_eq_iff
      split: option.splits)
qed

end
