(* ===== verification/Geo_Query.thy ===== *)
theory Geo_Query
  imports Geo_Index "HOL-Library.List_Lexorder" "HOL-Library.Char_ord"
begin

text \<open>
  Spatial queries (\<open>internal/mycel/geo_local.go\<close>): the flood fill \<open>coveringCells\<close>, the scan of the
  covered cells, \<open>BoundingBox\<close>, \<open>RadiusQuery\<close> and its two geometric functions.

  Of the geohash library, \<open>encode\<close> is \<open>EncodeWithPrecision\<close>, \<open>bbox\<close> is \<open>BoundingBox\<close> of a cell and
  \<open>neighbors\<close> is \<open>Neighbors\<close>; they are arguments. \<open>enum\<close> is the order in which Go's \<open>range\<close>
  visits the keys of a map.
\<close>

section \<open>The covering cells\<close>

record Box =
  MinLat :: real
  MaxLat :: real
  MinLng :: real
  MaxLng :: real

definition intersects :: "Box \<Rightarrow> Box \<Rightarrow> bool" where
  "intersects cb q \<longleftrightarrow> \<not> (MaxLat cb < MinLat q \<or> MinLat cb > MaxLat q
     \<or> MaxLng cb < MinLng q \<or> MinLng cb > MaxLng q)"

text \<open>The loop over the neighbours: what was never enqueued goes to the end of the queue.\<close>

fun enqueue :: "string list \<Rightarrow> string set \<Rightarrow> string list \<Rightarrow> string set \<times> string list" where
  "enqueue [] enqueued queue = (enqueued, queue)"
| "enqueue (n # ns) enqueued queue =
     (if n \<in> enqueued then enqueue ns enqueued queue
      else enqueue ns (insert n enqueued) (queue @ [n]))"

text \<open>The loop over the queue; \<open>None\<close> would be a fill that never ends.\<close>

partial_function (option) flood ::
    "(string \<Rightarrow> bool) \<Rightarrow> (string \<Rightarrow> string list) \<Rightarrow> string set \<Rightarrow> string set \<Rightarrow> string list
      \<Rightarrow> string set option" where
  "flood hit nb enqueued result queue =
     (case queue of
        [] \<Rightarrow> Some result
      | cell # rest \<Rightarrow>
          if \<not> hit cell then flood hit nb enqueued result rest
          else flood hit nb (fst (enqueue (nb cell) enqueued rest)) (insert cell result)
                 (snd (enqueue (nb cell) enqueued rest)))"

definition centre_cell :: "geohash \<Rightarrow> Box \<Rightarrow> nat \<Rightarrow> string" where
  "centre_cell encode q precision =
     encode ((MinLat q + MaxLat q) / 2) ((MinLng q + MaxLng q) / 2) precision"

definition coveringCells ::
    "geohash \<Rightarrow> (string \<Rightarrow> Box) \<Rightarrow> (string \<Rightarrow> string list) \<Rightarrow> Box \<Rightarrow> nat \<Rightarrow> string set option" where
  "coveringCells encode bbox neighbors q precision =
     (let seed = centre_cell encode q precision in
      flood (\<lambda>cell. intersects (bbox cell) q) neighbors {seed} {} [seed])"

section \<open>Scanning the cells\<close>

definition in_box :: "Box \<Rightarrow> GeoEntry \<Rightarrow> bool" where
  "in_box q e \<longleftrightarrow> MinLat q \<le> geLat e \<and> geLat e \<le> MaxLat q \<and> MinLng q \<le> geLng e \<and> geLng e \<le> MaxLng q"

fun scan_users ::
    "geoStore \<Rightarrow> instant \<Rightarrow> Box \<Rightarrow> string list \<Rightarrow> string set \<times> GeoEntry list \<Rightarrow> string set \<times> GeoEntry list"
where
  "scan_users s now q [] acc = acc"
| "scan_users s now q (u # us) (seen, results) =
     (if u \<in> seen then scan_users s now q us (seen, results)
      else case gsPoints s u of
        None \<Rightarrow> scan_users s now q us (seen, results)
      | Some e \<Rightarrow>
          if expired now (geExpiresAt e) then scan_users s now q us (seen, results)
          else if in_box q e then scan_users s now q us (insert u seen, results @ [e])
          else scan_users s now q us (seen, results))"

fun scan_cells ::
    "(string set \<Rightarrow> string list) \<Rightarrow> geoStore \<Rightarrow> tier \<Rightarrow> instant \<Rightarrow> Box \<Rightarrow> string list
      \<Rightarrow> string set \<times> GeoEntry list \<Rightarrow> string set \<times> GeoEntry list" where
  "scan_cells enum s t now q [] acc = acc"
| "scan_cells enum s t now q (cell # cells) acc =
     (case t cell of
        None \<Rightarrow> scan_cells enum s t now q cells acc
      | Some ids \<Rightarrow> scan_cells enum s t now q cells (scan_users s now q (enum ids) acc))"

section \<open>The queries\<close>

definition trackGeoQuery :: "string \<Rightarrow> string \<Rightarrow> geoCache \<Rightarrow> geoCache" where
  "trackGeoQuery bucket queryType g =
     g\<lparr>gcCache := add_counter ''geoQueries'' [bucket, queryType] 1 (gcCache g)\<rparr>"

definition trackGeoQuery_done :: "string \<Rightarrow> string \<Rightarrow> nat \<Rightarrow> geoCache \<Rightarrow> geoCache" where
  "trackGeoQuery_done bucket queryType resultCount g =
     g\<lparr>gcCache := observe ''geoQueryResults'' [bucket, queryType] (Some (int resultCount))
        (observe ''geoQueryDuration'' [bucket, queryType] None (gcCache g))\<rparr>"

record geo_lib =
  gl_encode :: geohash
  gl_bbox :: "string \<Rightarrow> Box"
  gl_neighbors :: "string \<Rightarrow> string list"
  gl_enum :: "string set \<Rightarrow> string list"

definition BoundingBox ::
    "geo_lib \<Rightarrow> instant \<Rightarrow> string \<Rightarrow> Box \<Rightarrow> nat \<Rightarrow> geoCache \<Rightarrow> (GeoEntry list, geoCache) outcome" where
  "BoundingBox lib now bucket q precision g =
     (let g1 = trackGeoQuery bucket ''bounding_box'' g;
          finished = trackGeoQuery_done bucket ''bounding_box'' in
      case getStore bucket g of
        Inl e \<Rightarrow> Ret (Inl e) (finished 0 g1)
      | Inr s \<Rightarrow>
          if \<not> hasPrecision s precision then Ret (Inl ERR_BAD_PRECISION) (finished 0 g1)
          else (case coveringCells (gl_encode lib) (gl_bbox lib) (gl_neighbors lib) q precision of
              None \<Rightarrow> Hang
            | Some cells \<Rightarrow>
                let results = snd (scan_cells (gl_enum lib) s (gsIndex s precision) now q
                      (gl_enum lib cells) ({}, []))
                in Ret (Inr results) (finished (length results) g1)))"

definition earthRadiusKm :: real where
  "earthRadiusKm = 6371"

definition boundingBoxFromRadius :: "real \<Rightarrow> real \<Rightarrow> real \<Rightarrow> Box" where
  "boundingBoxFromRadius lat lng radiusKm =
     (let deltaLat = radiusKm / earthRadiusKm * (180 / pi);
          cosLat0 = cos (lat * pi / 180);
          cosLat = (if cosLat0 < 1 / 10 ^ 10 then 1 / 10 ^ 10 else cosLat0);
          deltaLng0 = radiusKm / (earthRadiusKm * cosLat) * (180 / pi);
          deltaLng = (if deltaLng0 > 180 then 180 else deltaLng0)
      in \<lparr>MinLat = lat - deltaLat, MaxLat = lat + deltaLat,
          MinLng = lng - deltaLng, MaxLng = lng + deltaLng\<rparr>)"

text \<open>\<open>math.Atan2(y, x)\<close> on arguments that are not negative.\<close>

definition atan2 :: "real \<Rightarrow> real \<Rightarrow> real" where
  "atan2 y x = (if x = 0 then (if y = 0 then 0 else pi / 2) else arctan (y / x))"

definition haversineKm :: "real \<Rightarrow> real \<Rightarrow> real \<Rightarrow> real \<Rightarrow> real" where
  "haversineKm lat1 lng1 lat2 lng2 =
     (let dLat = (lat2 - lat1) * pi / 180;
          dLng = (lng2 - lng1) * pi / 180;
          a = sin (dLat / 2) * sin (dLat / 2)
            + cos (lat1 * pi / 180) * cos (lat2 * pi / 180) * sin (dLng / 2) * sin (dLng / 2);
          c = 2 * atan2 (sqrt a) (sqrt (1 - a))
      in earthRadiusKm * c)"

definition RadiusQuery ::
    "geo_lib \<Rightarrow> instant \<Rightarrow> string \<Rightarrow> real \<Rightarrow> real \<Rightarrow> real \<Rightarrow> nat \<Rightarrow> geoCache
      \<Rightarrow> (GeoEntry list, geoCache) outcome" where
  "RadiusQuery lib now bucket lat lng radiusKm precision g =
     (let g1 = trackGeoQuery bucket ''radius'' g;
          finished = trackGeoQuery_done bucket ''radius'';
          q = boundingBoxFromRadius lat lng radiusKm in
      case getStore bucket g of
        Inl e \<Rightarrow> Ret (Inl e) (finished 0 g1)
      | Inr s \<Rightarrow>
          if \<not> hasPrecision s precision then Ret (Inl ERR_BAD_PRECISION) (finished 0 g1)
          else (case coveringCells (gl_encode lib) (gl_bbox lib) (gl_neighbors lib) q precision of
              None \<Rightarrow> Hang
            | Some cells \<Rightarrow>
                let candidates = snd (scan_cells (gl_enum lib) s (gsIndex s precision) now q
                      (gl_enum lib cells) ({}, []));
                    results = filter (\<lambda>e. haversineKm lat lng (geLat e) (geLng e) \<le> radiusKm) candidates
                in Ret (Inr results) (finished (length results) g1)))"

section \<open>The flood fill ends and finds the reachable cells\<close>

text \<open>The cells the fill should find: reachable from the seed through cells that intersect.\<close>

inductive reached :: "(string \<Rightarrow> bool) \<Rightarrow> (string \<Rightarrow> string list) \<Rightarrow> string \<Rightarrow> string \<Rightarrow> bool"
  for hit nb seed where
  seed: "hit seed \<Longrightarrow> reached hit nb seed seed"
| step: "reached hit nb seed c \<Longrightarrow> n \<in> set (nb c) \<Longrightarrow> hit n \<Longrightarrow> reached hit nb seed n"

lemma enqueue_result:
  "fst (enqueue ns enq q) = enq \<union> set ns
   \<and> set (snd (enqueue ns enq q)) = set q \<union> (set ns - enq)
   \<and> (distinct q \<longrightarrow> set q \<subseteq> enq \<longrightarrow> distinct (snd (enqueue ns enq q)))"
proof (induction ns enq q rule: enqueue.induct)
  case (2 n ns enq q)
  then show ?case by (cases "n \<in> enq") auto
qed simp

definition flood_inv ::
    "(string \<Rightarrow> bool) \<Rightarrow> (string \<Rightarrow> string list) \<Rightarrow> string \<Rightarrow> string set \<Rightarrow> string set \<Rightarrow> string list \<Rightarrow> bool"
where
  "flood_inv hit nb seed enq res q \<longleftrightarrow>
     distinct q \<and> set q \<subseteq> enq \<and> seed \<in> enq \<and> res \<inter> set q = {} \<and> res \<subseteq> enq \<and>
     (\<forall>c \<in> res. reached hit nb seed c \<and> set (nb c) \<subseteq> enq) \<and>
     (\<forall>c \<in> enq. hit c \<longrightarrow> reached hit nb seed c) \<and>
     (\<forall>c \<in> enq - set q. hit c \<longrightarrow> c \<in> res)"

lemma reached_hit: "reached hit nb seed c \<Longrightarrow> hit c"
  by (induction rule: reached.induct) auto

lemma flood_inv_end:
  assumes "flood_inv hit nb seed enq res []"
  shows "res = {c. reached hit nb seed c}"
proof -
  have "c \<in> res" if "reached hit nb seed c" for c
    using that
  proof induction
    case seed
    with assms show ?case by (auto simp: flood_inv_def)
  next
    case (step c n)
    with assms have "n \<in> enq" by (auto simp: flood_inv_def)
    with step assms show ?case by (auto simp: flood_inv_def)
  qed
  with assms show ?thesis by (auto simp: flood_inv_def)
qed

lemma flood_inv_miss:
  "flood_inv hit nb seed enq res (cell # rest) \<Longrightarrow> \<not> hit cell \<Longrightarrow> flood_inv hit nb seed enq res rest"
  by (auto simp: flood_inv_def)

lemma flood_inv_hit:
  assumes inv: "flood_inv hit nb seed enq res (cell # rest)" and hit: "hit cell"
  shows "flood_inv hit nb seed (fst (enqueue (nb cell) enq rest)) (insert cell res)
    (snd (enqueue (nb cell) enq rest))"
proof -
  define e' q' where "e' = fst (enqueue (nb cell) enq rest)" and "q' = snd (enqueue (nb cell) enq rest)"
  have I: "distinct rest" "cell \<notin> set rest" "cell \<in> enq" "set rest \<subseteq> enq" "seed \<in> enq"
    "cell \<notin> res" "res \<inter> set rest = {}" "res \<subseteq> enq"
    "\<forall>c \<in> res. reached hit nb seed c \<and> set (nb c) \<subseteq> enq"
    "\<forall>c \<in> enq. hit c \<longrightarrow> reached hit nb seed c"
    "\<forall>c \<in> enq - insert cell (set rest). hit c \<longrightarrow> c \<in> res"
    using inv by (auto simp: flood_inv_def)
  have E: "e' = enq \<union> set (nb cell)" "set q' = set rest \<union> (set (nb cell) - enq)" "distinct q'"
    using enqueue_result [of "nb cell" enq rest] I(1,4) by (simp_all add: e'_def q'_def)
  have cell: "reached hit nb seed cell" using I(3,10) hit by blast
  have "\<forall>c \<in> e'. hit c \<longrightarrow> reached hit nb seed c"
    unfolding E using I(10) reached.step [OF cell] by blast
  moreover have "\<forall>c \<in> e' - set q'. hit c \<longrightarrow> c \<in> insert cell res"
    unfolding E using I(11) by blast
  moreover have "\<forall>c \<in> insert cell res. reached hit nb seed c \<and> set (nb c) \<subseteq> e'"
    unfolding E using I(9) cell by blast
  moreover have "insert cell res \<inter> set q' = {}" "insert cell res \<subseteq> e'" "set q' \<subseteq> e'" "seed \<in> e'"
    unfolding E using I by auto
  ultimately show ?thesis
    using E(3) unfolding flood_inv_def e'_def [symmetric] q'_def [symmetric] by blast
qed

lemma flood_total:
  assumes fin: "finite U" and closed: "\<And>c. c \<in> U \<Longrightarrow> set (nb c) \<subseteq> U"
    and inv: "flood_inv hit nb seed enq res q" and U: "enq \<subseteq> U"
  shows "flood hit nb enq res q = Some {c. reached hit nb seed c}"
  using inv U
proof (induction "card (U - (enq - set q))" arbitrary: enq res q rule: less_induct)
  case less
  show ?case
  proof (cases q)
    case Nil
    with flood_inv_end less.prems(1) show ?thesis by (simp add: flood.simps)
  next
    case (Cons cell rest)
    have cell: "cell \<in> enq" "cell \<notin> set rest" "set rest \<subseteq> enq"
      using less.prems(1) Cons by (auto simp: flood_inv_def)
    show ?thesis
    proof (cases "hit cell")
      case False
      have "U - (enq - set rest) \<subset> U - (enq - set q)"
        using cell less.prems(2) Cons by auto
      then have "card (U - (enq - set rest)) < card (U - (enq - set q))"
        using fin by (intro psubset_card_mono) auto
      from less.hyps [OF this flood_inv_miss [OF less.prems(1) [unfolded Cons] False] less.prems(2)]
      show ?thesis using False Cons by (simp add: flood.simps)
    next
      case True
      let ?e = "fst (enqueue (nb cell) enq rest)" and ?q = "snd (enqueue (nb cell) enq rest)"
      have E: "?e = enq \<union> set (nb cell)" "set ?q = set rest \<union> (set (nb cell) - enq)"
        using enqueue_result by auto
      have eU: "?e \<subseteq> U" using E less.prems(2) cell(1) closed [of cell] by auto
      have "U - (?e - set ?q) \<subset> U - (enq - set q)"
        using cell less.prems(2) Cons by (auto simp: E)
      then have "card (U - (?e - set ?q)) < card (U - (enq - set q))"
        using fin by (intro psubset_card_mono) auto
      from less.hyps [OF this flood_inv_hit [OF less.prems(1) [unfolded Cons] True] eU]
      show ?thesis using True Cons by (simp add: flood.simps)
    qed
  qed
qed

section \<open>What a scan finds\<close>

definition found :: "geoStore \<Rightarrow> instant \<Rightarrow> Box \<Rightarrow> string \<Rightarrow> GeoEntry \<Rightarrow> bool" where
  "found s now q u e \<longleftrightarrow> gsPoints s u = Some e \<and> \<not> expired now (geExpiresAt e) \<and> in_box q e"

definition scan_inv ::
    "geoStore \<Rightarrow> instant \<Rightarrow> Box \<Rightarrow> string set \<times> GeoEntry list \<Rightarrow> bool" where
  "scan_inv s now q acc \<longleftrightarrow> fst acc = geUserID ` set (snd acc) \<and> distinct (map geUserID (snd acc))
     \<and> (\<forall>e \<in> set (snd acc). found s now q (geUserID e) e)"

lemma scan_users_result:
  assumes ids: "\<And>u e. gsPoints s u = Some e \<Longrightarrow> geUserID e = u"
  shows "scan_inv s now q acc \<Longrightarrow> scan_inv s now q (scan_users s now q us acc)
    \<and> set (snd (scan_users s now q us acc)) = set (snd acc) \<union> {e. \<exists>u \<in> set us. found s now q u e}"
proof (induction us arbitrary: acc)
  case (Cons u us)
  obtain seen results where acc: "acc = (seen, results)" by fastforce
  note inv = Cons.prems [unfolded acc]
  show ?case
  proof (cases "u \<in> seen \<or> gsPoints s u = None")
    case True
    have "{e. found s now q u e} \<subseteq> set results"
    proof
      fix e assume e: "e \<in> {e. found s now q u e}"
      then have "u \<in> seen" using True by (auto simp: found_def)
      with inv obtain e' where "e' \<in> set results" "found s now q u e'"
        by (auto simp: scan_inv_def)
      with e show "e \<in> set results" by (auto simp: found_def)
    qed
    moreover have "scan_users s now q (u # us) acc = scan_users s now q us acc"
      using True by (auto simp: acc split: option.split)
    ultimately show ?thesis using Cons.IH [OF Cons.prems] by (auto simp: acc)
  next
    case False
    then obtain e where e: "gsPoints s u = Some e" "u \<notin> seen" by auto
    have only: "found s now q u e' \<longleftrightarrow> e' = e \<and> \<not> expired now (geExpiresAt e) \<and> in_box q e" for e'
      using e by (auto simp: found_def)
    show ?thesis
    proof (cases "\<not> expired now (geExpiresAt e) \<and> in_box q e")
      case True
      then have "scan_inv s now q (insert u seen, results @ [e])"
        using inv e ids [OF e(1)] by (auto simp: scan_inv_def found_def)
      from Cons.IH [OF this] True e only show ?thesis by (auto simp: acc)
    next
      case False
      with e Cons.IH [OF Cons.prems] only show ?thesis by (auto simp: acc)
    qed
  qed
qed simp

lemma scan_cells_result:
  assumes ids: "\<And>u e. gsPoints s u = Some e \<Longrightarrow> geUserID e = u"
  shows "scan_inv s now q acc \<Longrightarrow> scan_inv s now q (scan_cells enum s t now q cells acc)
    \<and> set (snd (scan_cells enum s t now q cells acc)) = set (snd acc)
        \<union> {e. \<exists>cell \<in> set cells. \<exists>us. t cell = Some us \<and> (\<exists>u \<in> set (enum us). found s now q u e)}"
proof (induction cells arbitrary: acc)
  case (Cons cell cells)
  show ?case
  proof (cases "t cell")
    case None
    with Cons show ?thesis by auto
  next
    case (Some us)
    from scan_users_result [OF ids Cons.prems, of "enum us"]
    have inv: "scan_inv s now q (scan_users s now q (enum us) acc)"
      and res: "set (snd (scan_users s now q (enum us) acc))
        = set (snd acc) \<union> {e. \<exists>u \<in> set (enum us). found s now q u e}" by auto
    have "set (snd (scan_cells enum s t now q cells (scan_users s now q (enum us) acc)))
        = set (snd acc) \<union> {e. \<exists>u \<in> set (enum us). found s now q u e}
          \<union> {e. \<exists>cell \<in> set cells. \<exists>us. t cell = Some us \<and> (\<exists>u \<in> set (enum us). found s now q u e)}"
      using Cons.IH [OF inv] by (simp add: res)
    with Cons.IH [OF inv] Some show ?thesis by auto
  qed
qed simp

text \<open>\<open>range\<close> over a map visits every key once.\<close>

definition visits_all :: "(string set \<Rightarrow> string list) \<Rightarrow> bool" where
  "visits_all enum \<longleftrightarrow> (\<forall>S. finite S \<longrightarrow> set (enum S) = S \<and> distinct (enum S))"

text \<open>The entries a query of a box should return.\<close>

definition box_entries :: "geoStore \<Rightarrow> instant \<Rightarrow> Box \<Rightarrow> GeoEntry set" where
  "box_entries s now q = {e. \<exists>u. found s now q u e}"

lemma scan_store:
  fixes now q
  assumes ok: "store_ok encode s" and enum: "visits_all enum" and p: "p \<in> set (gsPrecisions s)"
    and fin: "finite cells"
  defines "res \<equiv> snd (scan_cells enum s (gsIndex s p) now q (enum cells) ({}, []))"
  shows "distinct (map geUserID res)"
    and "set res = {e \<in> box_entries s now q. encode (geLat e) (geLng e) p \<in> cells}"
proof -
  have ids: "\<And>u e. gsPoints s u = Some e \<Longrightarrow> geUserID e = u" using ok by (simp add: store_ok_def)
  have inv: "scan_inv s now q ({}, [])" by (simp add: scan_inv_def)
  have R: "scan_inv s now q (scan_cells enum s (gsIndex s p) now q (enum cells) ({}, []))"
    "set res = {e. \<exists>cell \<in> set (enum cells). \<exists>us. gsIndex s p cell = Some us
      \<and> (\<exists>u \<in> set (enum us). found s now q u e)}"
    using scan_cells_result [of s now q "({}, [])" enum "gsIndex s p" "enum cells"] ids inv
    by (auto simp: res_def)
  show "distinct (map geUserID res)" using R(1) by (simp add: res_def scan_inv_def)
  have idx: "gsIndex s p = tier_of encode p (gsPoints s)" using ok p by (simp add: store_ok_def)
  have usfin: "finite (users_in encode p (gsPoints s) cell)" for cell
  proof (rule finite_subset)
    show "users_in encode p (gsPoints s) cell \<subseteq> dom (gsPoints s)" by (auto simp: users_in_def)
    show "finite (dom (gsPoints s))" using ok by (simp add: store_ok_def)
  qed
  have "set res = {e. \<exists>cell \<in> cells. \<exists>us. gsIndex s p cell = Some us \<and> (\<exists>u \<in> set (enum us). found s now q u e)}"
    using R(2) enum fin by (simp add: visits_all_def)
  also have "\<dots> = {e. \<exists>cell \<in> cells. \<exists>u \<in> users_in encode p (gsPoints s) cell. found s now q u e}"
    using enum usfin by (auto simp: idx tier_of_def visits_all_def)
  also have "\<dots> = {e \<in> box_entries s now q. encode (geLat e) (geLng e) p \<in> cells}"
    by (auto simp: box_entries_def users_in_def found_def)
  finally show "set res = {e \<in> box_entries s now q. encode (geLat e) (geLng e) p \<in> cells}" .
qed

lemma has_precision_set: "has_precision vs p \<longleftrightarrow> p \<in> set vs"
  by (induction vs) auto

section \<open>Properties\<close>

text \<open>
  C38: The flood fill ends and is exact. If the cells at the precision are finitely many (closed
  under \<open>Neighbors\<close>), \<open>coveringCells\<close> returns, and its result is the set of cells that intersect
  the box and are reachable from the centre cell through neighbours that intersect it.
\<close>

theorem coveringCells_reachable:
  assumes "finite U" and "centre_cell encode q p \<in> U"
    and "\<And>c. c \<in> U \<Longrightarrow> set (neighbors c) \<subseteq> U"
  shows "coveringCells encode bbox neighbors q p =
    Some {c. reached (\<lambda>cell. intersects (bbox cell) q) neighbors (centre_cell encode q p) c}"
proof -
  let ?hit = "\<lambda>cell. intersects (bbox cell) q" and ?s = "centre_cell encode q p"
  have "flood_inv ?hit neighbors ?s {?s} {} [?s]"
    by (auto simp: flood_inv_def intro: reached.seed)
  from flood_total [OF assms(1,3) this] assms(2) show ?thesis
    by (simp add: coveringCells_def Let_def)
qed

text \<open>
  What the two queries need: cells are closed under \<open>Neighbors\<close> and finitely many at a precision, a
  cell's box contains the points it encodes, and the cells that intersect the query are connected
  to the centre cell. A geohash cell contains its lower edges and not its upper ones, so the
  points at 90 degrees north and 180 degrees east are left out.
\<close>

definition valid_point :: "real \<Rightarrow> real \<Rightarrow> bool" where
  "valid_point lat lng \<longleftrightarrow> - 90 \<le> lat \<and> lat < 90 \<and> - 180 \<le> lng \<and> lng < 180"

definition valid_points :: "geoStore \<Rightarrow> bool" where
  "valid_points s \<longleftrightarrow> (\<forall>u e. gsPoints s u = Some e \<longrightarrow> valid_point (geLat e) (geLng e))"

definition geohash_grid :: "geo_lib \<Rightarrow> nat \<Rightarrow> string set \<Rightarrow> bool" where
  "geohash_grid lib p U \<longleftrightarrow> finite U \<and> (\<forall>lat lng. gl_encode lib lat lng p \<in> U)
     \<and> (\<forall>c \<in> U. set (gl_neighbors lib c) \<subseteq> U)
     \<and> (\<forall>lat lng. valid_point lat lng \<longrightarrow> (let b = gl_bbox lib (gl_encode lib lat lng p) in
          MinLat b \<le> lat \<and> lat \<le> MaxLat b \<and> MinLng b \<le> lng \<and> lng \<le> MaxLng b))"

definition connected_query :: "geo_lib \<Rightarrow> nat \<Rightarrow> Box \<Rightarrow> string set \<Rightarrow> bool" where
  "connected_query lib p q U \<longleftrightarrow> (\<forall>c \<in> U. intersects (gl_bbox lib c) q \<longrightarrow>
     reached (\<lambda>cell. intersects (gl_bbox lib cell) q) (gl_neighbors lib)
       (centre_cell (gl_encode lib) q p) c)"

lemma grid_covering:
  assumes "geohash_grid lib p U"
  shows "coveringCells (gl_encode lib) (gl_bbox lib) (gl_neighbors lib) q p =
      Some {c. reached (\<lambda>cell. intersects (gl_bbox lib cell) q) (gl_neighbors lib)
        (centre_cell (gl_encode lib) q p) c}"
    and "finite {c. reached (\<lambda>cell. intersects (gl_bbox lib cell) q) (gl_neighbors lib)
        (centre_cell (gl_encode lib) q p) c}"
proof -
  let ?hit = "\<lambda>cell. intersects (gl_bbox lib cell) q" and ?s = "centre_cell (gl_encode lib) q p"
  have U: "finite U" "?s \<in> U" "\<And>c. c \<in> U \<Longrightarrow> set (gl_neighbors lib c) \<subseteq> U"
    using assms by (auto simp: geohash_grid_def centre_cell_def)
  have "flood_inv ?hit (gl_neighbors lib) ?s {?s} {} [?s]"
    by (auto simp: flood_inv_def intro: reached.seed)
  from flood_total [OF U(1,3) this] U(2)
  show "coveringCells (gl_encode lib) (gl_bbox lib) (gl_neighbors lib) q p =
      Some {c. reached ?hit (gl_neighbors lib) ?s c}" by (simp add: coveringCells_def Let_def)
  have "c \<in> U" if "reached ?hit (gl_neighbors lib) ?s c" for c
    using that by induction (use U in auto)
  then show "finite {c. reached ?hit (gl_neighbors lib) ?s c}"
    using finite_subset [OF _ U(1)] by blast
qed

lemma in_box_intersects:
  "geohash_grid lib p U \<Longrightarrow> valid_point (geLat e) (geLng e) \<Longrightarrow> in_box q e \<Longrightarrow>
     intersects (gl_bbox lib (gl_encode lib (geLat e) (geLng e) p)) q"
proof -
  let ?b = "gl_bbox lib (gl_encode lib (geLat e) (geLng e) p)"
  assume "geohash_grid lib p U" "valid_point (geLat e) (geLng e)" and q: "in_box q e"
  then have "MinLat ?b \<le> geLat e" "geLat e \<le> MaxLat ?b" "MinLng ?b \<le> geLng e" "geLng e \<le> MaxLng ?b"
    by (simp_all add: geohash_grid_def Let_def)
  with q show ?thesis by (simp add: intersects_def in_box_def)
qed

text \<open>The result of the scan both queries share.\<close>

lemma query_scan:
  assumes g: "geo_ok (gl_encode lib) g" "gcStores g bucket = Some s" "p \<in> set (gsPrecisions s)"
    and lib: "visits_all (gl_enum lib)" "geohash_grid lib p U"
  shows "\<exists>cells es. coveringCells (gl_encode lib) (gl_bbox lib) (gl_neighbors lib) q p = Some cells
    \<and> snd (scan_cells (gl_enum lib) s (gsIndex s p) now q (gl_enum lib cells) ({}, [])) = es
    \<and> distinct (map geUserID es) \<and> set es \<subseteq> box_entries s now q
    \<and> (connected_query lib p q U \<and> valid_points s \<longrightarrow> set es = box_entries s now q)"
proof -
  let ?cells = "{c. reached (\<lambda>cell. intersects (gl_bbox lib cell) q) (gl_neighbors lib)
    (centre_cell (gl_encode lib) q p) c}"
  have ok: "store_ok (gl_encode lib) s" using g by (simp add: geo_ok_def)
  note S = scan_store [OF ok lib(1) g(3) grid_covering(2) [OF lib(2)], of now q q]
  have "gl_encode lib (geLat e) (geLng e) p \<in> ?cells"
    if "connected_query lib p q U" "valid_points s" "e \<in> box_entries s now q" for e
  proof -
    have "intersects (gl_bbox lib (gl_encode lib (geLat e) (geLng e) p)) q"
      using in_box_intersects [OF lib(2)] that(2,3)
      by (auto simp: box_entries_def found_def valid_points_def)
    then show ?thesis using that(1) lib(2) by (auto simp: connected_query_def geohash_grid_def)
  qed
  then show ?thesis using grid_covering(1) [OF lib(2), of q] S by auto
qed

text \<open>
  The geohashes of one precision, as the geohash library documents them: they are the cells of a
  grid of rows and columns; \<open>BoundingBox\<close> gives the region of a cell, between the borders of its row
  and column; a point is encoded by the cell it lies in; and \<open>Neighbors\<close> gives the cells around a
  cell, the adjacent ones in its row and its column among them.
\<close>

record lattice =
  lRows :: nat
  lCols :: nat
  lLat :: "nat \<Rightarrow> real"
  lLng :: "nat \<Rightarrow> real"
  lCell :: "nat \<Rightarrow> nat \<Rightarrow> string"

definition cells_of :: "lattice \<Rightarrow> string set" where
  "cells_of G = (\<Union>i < lRows G. \<Union>j < lCols G. {lCell G i j})"

definition geohash_lattice :: "geo_lib \<Rightarrow> nat \<Rightarrow> lattice \<Rightarrow> bool" where
  "geohash_lattice lib p G \<longleftrightarrow>
     (\<forall>i < lRows G. lLat G i < lLat G (Suc i)) \<and> (\<forall>j < lCols G. lLng G j < lLng G (Suc j))
     \<and> (\<forall>lat lng. gl_encode lib lat lng p \<in> cells_of G)
     \<and> (\<forall>lat lng. valid_point lat lng \<longrightarrow> (\<exists>i < lRows G. \<exists>j < lCols G. gl_encode lib lat lng p = lCell G i j
          \<and> lLat G i \<le> lat \<and> lat < lLat G (Suc i) \<and> lLng G j \<le> lng \<and> lng < lLng G (Suc j)))
     \<and> (\<forall>i < lRows G. \<forall>j < lCols G.
          gl_bbox lib (lCell G i j) = \<lparr>MinLat = lLat G i, MaxLat = lLat G (Suc i), MinLng = lLng G j, MaxLng = lLng G (Suc j)\<rparr>
          \<and> set (gl_neighbors lib (lCell G i j)) \<subseteq> cells_of G
          \<and> (\<forall>i' < lRows G. (i' = Suc i \<or> i = Suc i') \<longrightarrow> lCell G i' j \<in> set (gl_neighbors lib (lCell G i j)))
          \<and> (\<forall>j' < lCols G. (j' = Suc j \<or> j = Suc j') \<longrightarrow> lCell G i j' \<in> set (gl_neighbors lib (lCell G i j))))"

lemma geohash_latticeD:
  assumes "geohash_lattice lib p G"
  shows "i < lRows G \<Longrightarrow> lLat G i < lLat G (Suc i)" and "j < lCols G \<Longrightarrow> lLng G j < lLng G (Suc j)"
    and "gl_encode lib lat lng p \<in> cells_of G"
    and "valid_point lat lng \<Longrightarrow> \<exists>i < lRows G. \<exists>j < lCols G. gl_encode lib lat lng p = lCell G i j
          \<and> lLat G i \<le> lat \<and> lat < lLat G (Suc i) \<and> lLng G j \<le> lng \<and> lng < lLng G (Suc j)"
    and "i < lRows G \<Longrightarrow> j < lCols G \<Longrightarrow>
      gl_bbox lib (lCell G i j) = \<lparr>MinLat = lLat G i, MaxLat = lLat G (Suc i), MinLng = lLng G j, MaxLng = lLng G (Suc j)\<rparr>"
    and "i < lRows G \<Longrightarrow> j < lCols G \<Longrightarrow> set (gl_neighbors lib (lCell G i j)) \<subseteq> cells_of G"
    and "i < lRows G \<Longrightarrow> j < lCols G \<Longrightarrow> i' < lRows G \<Longrightarrow> i' = Suc i \<or> i = Suc i'
      \<Longrightarrow> lCell G i' j \<in> set (gl_neighbors lib (lCell G i j))"
    and "i < lRows G \<Longrightarrow> j < lCols G \<Longrightarrow> j' < lCols G \<Longrightarrow> j' = Suc j \<or> j = Suc j'
      \<Longrightarrow> lCell G i j' \<in> set (gl_neighbors lib (lCell G i j))"
  using assms unfolding geohash_lattice_def by blast+

lemma lattice_grid:
  assumes "geohash_lattice lib p G"
  shows "geohash_grid lib p (cells_of G)"
  unfolding geohash_grid_def
proof (intro conjI allI ballI impI)
  note D = geohash_latticeD [OF assms]
  show "finite (cells_of G)" by (simp add: cells_of_def)
  show "gl_encode lib lat lng p \<in> cells_of G" for lat lng by (rule D(3))
  show "set (gl_neighbors lib c) \<subseteq> cells_of G" if "c \<in> cells_of G" for c
    using that D(6) unfolding cells_of_def by blast
  fix lat lng assume "valid_point lat lng"
  from D(4) [OF this] obtain i j where "i < lRows G" "j < lCols G" and e: "gl_encode lib lat lng p = lCell G i j"
    and at: "lLat G i \<le> lat" "lat < lLat G (Suc i)" "lLng G j \<le> lng" "lng < lLng G (Suc j)" by blast
  then show "let b = gl_bbox lib (gl_encode lib lat lng p)
      in MinLat b \<le> lat \<and> lat \<le> MaxLat b \<and> MinLng b \<le> lng \<and> lng \<le> MaxLng b"
    using D(5) [of i j] by (simp add: Let_def)
qed

text \<open>A walk along a row or a column, in steps of one, to a place whose cell is hit.\<close>

lemma reach_line:
  fixes P Q :: "nat \<Rightarrow> bool"
  assumes "Q a" and "P a" and "P b" and between: "\<And>m x y. P x \<Longrightarrow> P y \<Longrightarrow> x \<le> m \<Longrightarrow> m \<le> y \<Longrightarrow> P m"
    and step: "\<And>m m'. Q m \<Longrightarrow> P m \<Longrightarrow> P m' \<Longrightarrow> m' = Suc m \<or> m = Suc m' \<Longrightarrow> Q m'"
  shows "Q b"
proof (cases "a \<le> b")
  case True
  have "m \<le> b \<longrightarrow> Q m" if "a \<le> m" for m
    using that
  proof (induction m rule: nat_induct_at_least)
    case base
    then show ?case using assms(1) by simp
  next
    case (Suc m)
    show ?case
    proof
      assume "Suc m \<le> b"
      moreover from this have "P m" "P (Suc m)" using between [OF assms(2,3)] Suc.hyps by simp_all
      ultimately show "Q (Suc m)" using step Suc.IH by simp
    qed
  qed
  with True show ?thesis by simp
next
  case False
  have "d \<le> a - b \<longrightarrow> Q (a - d)" for d
  proof (induction d)
    case 0
    then show ?case using assms(1) by simp
  next
    case (Suc d)
    show ?case
    proof
      assume d: "Suc d \<le> a - b"
      then have "P (a - d)" "P (a - Suc d)" using between [OF assms(3,2)] by simp_all
      moreover have "a - d = Suc (a - Suc d)" using d by simp
      ultimately show "Q (a - Suc d)" using step [of "a - d" "a - Suc d"] Suc.IH d by simp
    qed
  qed
  from this [of "a - b"] False show ?thesis by simp
qed

lemma lattice_borders:
  assumes "geohash_lattice lib p G"
  shows "i \<le> i' \<Longrightarrow> i' \<le> lRows G \<Longrightarrow> lLat G i \<le> lLat G i'" and "j \<le> j' \<Longrightarrow> j' \<le> lCols G \<Longrightarrow> lLng G j \<le> lLng G j'"
proof -
  note D = geohash_latticeD [OF assms]
  show "lLat G i \<le> lLat G i'" if "i \<le> i'" "i' \<le> lRows G"
    using that
  proof (induction i' rule: dec_induct)
    case (step n)
    then show ?case using D(1) [of n] by simp
  qed simp
  show "lLng G j \<le> lLng G j'" if "j \<le> j'" "j' \<le> lCols G"
    using that
  proof (induction j' rule: dec_induct)
    case (step n)
    then show ?case using D(2) [of n] by simp
  qed simp
qed

text \<open>The cells a box hits are a rectangle around the cell of its centre, so they are connected.\<close>

lemma lattice_connected:
  assumes lat: "geohash_lattice lib p G" and box: "MinLat q \<le> MaxLat q" "MinLng q \<le> MaxLng q"
    and centre: "valid_point ((MinLat q + MaxLat q) / 2) ((MinLng q + MaxLng q) / 2)"
  shows "connected_query lib p q (cells_of G)"
proof -
  note D = geohash_latticeD [OF lat] and B = lattice_borders [OF lat]
  let ?row = "\<lambda>i. i < lRows G \<and> MinLat q \<le> lLat G (Suc i) \<and> lLat G i \<le> MaxLat q"
  let ?col = "\<lambda>j. j < lCols G \<and> MinLng q \<le> lLng G (Suc j) \<and> lLng G j \<le> MaxLng q"
  let ?hit = "\<lambda>cell. intersects (gl_bbox lib cell) q"
  have hit: "?hit (lCell G i j) \<longleftrightarrow> ?row i \<and> ?col j" if "i < lRows G" "j < lCols G" for i j
    using D(5) [OF that] that by (auto simp: intersects_def)
  from D(4) [OF centre] obtain i0 j0 where "i0 < lRows G" "j0 < lCols G"
    and seed: "centre_cell (gl_encode lib) q p = lCell G i0 j0"
    and at: "lLat G i0 \<le> (MinLat q + MaxLat q) / 2" "(MinLat q + MaxLat q) / 2 < lLat G (Suc i0)"
      "lLng G j0 \<le> (MinLng q + MaxLng q) / 2" "(MinLng q + MaxLng q) / 2 < lLng G (Suc j0)"
    unfolding centre_cell_def by blast
  then have r0: "?row i0" and c0: "?col j0" using box by auto
  let ?reach = "reached ?hit (gl_neighbors lib) (lCell G i0 j0)"
  have row_between: "?row m" if "?row x" "?row y" "x \<le> m" "m \<le> y" for m x y
    using that B(1) [of "Suc x" "Suc m"] B(1) [of m y] by auto
  have col_between: "?col m" if "?col x" "?col y" "x \<le> m" "m \<le> y" for m x y
    using that B(2) [of "Suc x" "Suc m"] B(2) [of m y] by auto
  have start: "?reach (lCell G i0 j0)" using hit r0 c0 by (intro reached.seed) blast
  have rows: "?reach (lCell G i j0)" if "?row i" for i
  proof (rule reach_line [where Q = "\<lambda>i. ?reach (lCell G i j0)" and P = ?row, OF start r0 that])
    show "?row m" if "?row x" "?row y" "x \<le> m" "m \<le> y" for m x y by (rule row_between [OF that])
    show "?reach (lCell G m' j0)"
      if "?reach (lCell G m j0)" "?row m" "?row m'" "m' = Suc m \<or> m = Suc m'" for m m'
      using that D(7) [of m j0 m'] hit [of m' j0] c0 by (intro reached.step [OF that(1)]) auto
  qed
  have all: "?reach (lCell G i j)" if i: "?row i" and j: "?col j" for i j
  proof (rule reach_line [where Q = "\<lambda>j. ?reach (lCell G i j)" and P = ?col, OF rows [OF i] c0 j])
    show "?col m" if "?col x" "?col y" "x \<le> m" "m \<le> y" for m x y by (rule col_between [OF that])
    show "?reach (lCell G i m')"
      if "?reach (lCell G i m)" "?col m" "?col m'" "m' = Suc m \<or> m = Suc m'" for m m'
      using that i D(8) [of i m m'] hit [of i m'] by (intro reached.step [OF that(1)]) auto
  qed
  show ?thesis
    unfolding connected_query_def seed
  proof (intro ballI impI)
    fix c assume "c \<in> cells_of G" and "?hit c"
    then obtain i j where "i < lRows G" "j < lCols G" "c = lCell G i j" by (auto simp: cells_of_def)
    with \<open>?hit c\<close> hit all show "?reach c" by blast
  qed
qed

text \<open>
  C36: \<open>BoundingBox\<close> returns exactly the users in the box. On an index that satisfies its invariant
  and holds valid coordinates, a query with a box that is not empty and has its centre on the map returns
  every user once whose unexpired location lies in the box, and no other. The flood fill finds
  all cells that meet the box, because they are a rectangle of the geohash grid around the cell of
  the centre; the order in which Go walks its maps does not matter.
\<close>

theorem BoundingBox_exact:
  assumes "geo_ok (gl_encode lib) g" and "gcStores g bucket = Some s" and "p \<in> set (gsPrecisions s)"
    and "visits_all (gl_enum lib)" and "geohash_lattice lib p G" and "valid_points s"
    and "MinLat q \<le> MaxLat q" and "MinLng q \<le> MaxLng q"
    and "valid_point ((MinLat q + MaxLat q) / 2) ((MinLng q + MaxLng q) / 2)"
  shows "\<exists>es g'. BoundingBox lib now bucket q p g = Ret (Inr es) g' \<and> gcStores g' = gcStores g
    \<and> distinct (map geUserID es) \<and> set es = box_entries s now q"
  using query_scan [OF assms(1-4) lattice_grid [OF assms(5)], of q now] lattice_connected [OF assms(5,7,8,9)] assms(2,3,6)
  by (auto simp: BoundingBox_def getStore_def hasPrecision_def has_precision_set trackGeoQuery_def
      trackGeoQuery_done_def Let_def)

definition circle_entries :: "geoStore \<Rightarrow> instant \<Rightarrow> real \<Rightarrow> real \<Rightarrow> real \<Rightarrow> GeoEntry set" where
  "circle_entries s now lat lng r = {e \<in> box_entries s now (boundingBoxFromRadius lat lng r).
     haversineKm lat lng (geLat e) (geLng e) \<le> r}"

text \<open>
  \<open>RadiusQuery\<close> returns the users of the bounding box of the circle that are within the
  radius: every one once, unexpired, at most \<open>radiusKm\<close> away, and all such users of the box if
  its cells are connected.
\<close>

theorem RadiusQuery_filters_box:
  assumes "geo_ok (gl_encode lib) g" and "gcStores g bucket = Some s" and "p \<in> set (gsPrecisions s)"
    and "visits_all (gl_enum lib)" and "geohash_grid lib p U"
  shows "\<exists>es g'. RadiusQuery lib now bucket lat lng r p g = Ret (Inr es) g' \<and> gcStores g' = gcStores g
    \<and> distinct (map geUserID es) \<and> set es \<subseteq> circle_entries s now lat lng r
    \<and> (connected_query lib p (boundingBoxFromRadius lat lng r) U \<and> valid_points s \<longrightarrow>
        set es = circle_entries s now lat lng r)"
  using query_scan [OF assms(1-5), of "boundingBoxFromRadius lat lng r" now] assms(2,3)
  by (auto simp: RadiusQuery_def getStore_def hasPrecision_def has_precision_set trackGeoQuery_def
      trackGeoQuery_done_def Let_def
      circle_entries_def distinct_map intro: inj_on_subset)

lemma haversine_60: "haversineKm 60 0 60 90 = earthRadiusKm * (2 * arctan (sqrt (1 / 7)))"
proof -
  have sq: "sin (pi / 4) * sin (pi / 4) = (1::real) / 2"
    by (simp add: sin_45)
  have "cos (pi / 3) * cos (pi / 3) * sin (pi / 4) * sin (pi / 4) = (1 / 4) * (sin (pi / 4) * sin (pi / 4))"
    by (simp add: cos_60)
  then have a: "cos (pi / 3) * cos (pi / 3) * sin (pi / 4) * sin (pi / 4) = (1::real) / 8"
    unfolding sq by simp
  have "sqrt (1 / 8) / sqrt (7 / 8) = sqrt (1 / 7)"
    by (simp add: real_sqrt_divide [symmetric])
  then show ?thesis by (simp add: haversineKm_def atan2_def Let_def a)
qed

lemma arctan_small: "4 * arctan (sqrt (1 / 7)) < pi / 2"
proof -
  let ?x = "sqrt (1 / 7) :: real"
  have x: "0 < ?x" "?x < 3 / 7"
    by (simp_all add: real_sqrt_less_iff [of "1 / 7" "(3 / 7)\<^sup>2", simplified] power2_eq_square
        real_less_lsqrt)
  have sq: "?x * ?x = 1 / 7" by simp
  have "arctan ?x + arctan ?x = arctan ((?x + ?x) / (1 - ?x * ?x))"
    by (rule arctan_add) (use x in auto)
  also have "\<dots> = arctan (7 / 3 * ?x)" unfolding sq by simp
  also have "\<dots> < arctan 1" using x by (intro arctan_monotone) simp
  finally show ?thesis by (simp add: arctan_one)
qed

text \<open>
  The bounding box of a circle is too narrow away from the equator. The point 90 degrees to
  the east on the parallel of 60 degrees is outside the box that \<open>boundingBoxFromRadius\<close> derives
  for the circle around (60, 0) through that very point, so \<open>RadiusQuery\<close> never returns a user
  there although the distance is the radius.
\<close>

theorem RadiusQuery_box_too_narrow:
  "let r = haversineKm 60 0 60 90;
       e = \<lparr>geUserID = u, geLat = 60, geLng = 90, geGeohash = h, geExpiresAt = t\<rparr>
   in haversineKm 60 0 (geLat e) (geLng e) \<le> r
      \<and> \<not> in_box (boundingBoxFromRadius 60 0 r) e \<and> e \<notin> circle_entries s now 60 0 r"
proof -
  let ?c = "arctan (sqrt (1 / 7)) :: real"
  have "MaxLng (boundingBoxFromRadius 60 0 (haversineKm 60 0 60 90)) \<le> 4 * ?c * (180 / pi)"
    unfolding haversine_60 by (simp add: boundingBoxFromRadius_def Let_def cos_60 earthRadiusKm_def)
  also have "\<dots> < pi / 2 * (180 / pi)"
    using arctan_small by (intro mult_strict_right_mono) auto
  finally have "MaxLng (boundingBoxFromRadius 60 0 (haversineKm 60 0 60 90)) < 90" by simp
  then show ?thesis by (auto simp: in_box_def circle_entries_def box_entries_def found_def Let_def)
qed

section \<open>Witnesses\<close>

text \<open>A grid of one cell, \<open>w\<close>, and a bucket with one user at the origin.\<close>

definition one_cell :: geo_lib where
  "one_cell = \<lparr>gl_encode = (\<lambda>_ _ _. ''w''),
     gl_bbox = (\<lambda>_. \<lparr>MinLat = - 90, MaxLat = 90, MinLng = - 180, MaxLng = 180\<rparr>),
     gl_neighbors = (\<lambda>_. []), gl_enum = sorted_list_of_set\<rparr>"

lemma one_cell_simps [simp]:
  "gl_encode one_cell = (\<lambda>_ _ _. ''w'')" "gl_neighbors one_cell = (\<lambda>_. [])"
  "gl_enum one_cell = sorted_list_of_set"
  by (simp_all add: one_cell_def)

lemma one_cell_grid: "geohash_grid one_cell p {''w''}" "visits_all (gl_enum one_cell)"
  by (auto simp: geohash_grid_def visits_all_def valid_point_def one_cell_def Let_def)

definition origin_user :: GeoEntry where
  "origin_user = \<lparr>geUserID = ''u'', geLat = 0, geLng = 0, geGeohash = ''w'', geExpiresAt = None\<rparr>"

definition origin_store :: geoStore where
  "origin_store = \<lparr>gsPrecisions = [5], gsIndex = (\<lambda>p. if p = 5 then [''w'' \<mapsto> {''u''}] else Map.empty),
     gsPoints = [''u'' \<mapsto> origin_user]\<rparr>"

definition origin_cache :: geoCache where
  "origin_cache = \<lparr>gcCache = initCache ''n'' 1, gcStores = [''g'' \<mapsto> origin_store]\<rparr>"

lemma origin_ok: "geo_ok (gl_encode one_cell) origin_cache"
  by (auto simp: geo_ok_def origin_cache_def store_ok_def origin_store_def origin_user_def
      tier_of_def users_in_def maxPrecision_def fun_eq_iff split: if_splits)

lemma origin_lookup: "gcStores origin_cache ''g'' = Some origin_store"
  by (simp add: origin_cache_def)

lemma origin_precision: "5 \<in> set (gsPrecisions origin_store)"
  by (simp add: origin_store_def)

lemma origin_valid: "valid_points origin_store"
  by (simp add: valid_points_def origin_store_def origin_user_def valid_point_def)

lemma one_cell_connected:
  assumes "intersects (gl_bbox one_cell ''w'') q"
  shows "connected_query one_cell 5 q {''w''}"
  using assms by (auto simp: connected_query_def centre_cell_def intro: reached.seed)

theorem coveringCells_reachable_witness:
  "coveringCells (\<lambda>_ _ _. ''w'') (gl_bbox one_cell) (\<lambda>_. [])
      \<lparr>MinLat = 1, MaxLat = 2, MinLng = 3, MaxLng = 4\<rparr> 5 = Some {''w''}"
proof -
  let ?hit = "\<lambda>cell. intersects (gl_bbox one_cell cell) \<lparr>MinLat = 1, MaxLat = 2, MinLng = 3, MaxLng = 4\<rparr>"
  have "reached ?hit (\<lambda>_. []) ''w'' c \<longleftrightarrow> c = ''w''" for c
  proof
    show "reached ?hit (\<lambda>_. []) ''w'' c \<Longrightarrow> c = ''w''" by (induction rule: reached.induct) auto
    show "c = ''w'' \<Longrightarrow> reached ?hit (\<lambda>_. []) ''w'' c"
      by (auto simp: intersects_def one_cell_def intro: reached.seed)
  qed
  then show ?thesis
    using coveringCells_reachable [of "{''w''}" "\<lambda>_ _ _. ''w''" "\<lparr>MinLat = 1, MaxLat = 2, MinLng = 3, MaxLng = 4\<rparr>"
        5 "\<lambda>_. []" "gl_bbox one_cell"]
    by (simp add: centre_cell_def)
qed

text \<open>A grid of four cells, a quadrant each, and three users.\<close>

definition quadrants :: geo_lib where
  "quadrants = \<lparr>gl_encode = (\<lambda>lat lng _. (if lat < 0 then ''s'' else ''n'') @ (if lng < 0 then ''w'' else ''e'')),
     gl_bbox = (\<lambda>c. \<lparr>MinLat = (if hd c = CHR ''s'' then - 90 else 0), MaxLat = (if hd c = CHR ''s'' then 0 else 90),
       MinLng = (if last c = CHR ''w'' then - 180 else 0), MaxLng = (if last c = CHR ''w'' then 0 else 180)\<rparr>),
     gl_neighbors = (\<lambda>c. filter (\<lambda>c'. c' \<noteq> c) [''sw'', ''se'', ''nw'', ''ne'']), gl_enum = sorted_list_of_set\<rparr>"

definition quadrant_lattice :: lattice where
  "quadrant_lattice = \<lparr>lRows = 2, lCols = 2, lLat = (\<lambda>i. 90 * real i - 90), lLng = (\<lambda>j. 180 * real j - 180),
     lCell = (\<lambda>i j. (if i = 0 then ''s'' else ''n'') @ (if j = 0 then ''w'' else ''e''))\<rparr>"

lemma less_two: "i < (2 :: nat) \<longleftrightarrow> i = 0 \<or> i = 1"
  by auto

lemma quadrant_cells: "cells_of quadrant_lattice = {''sw'', ''se'', ''nw'', ''ne''}"
proof -
  have "{..<2 :: nat} = {0, 1}" by auto
  then show ?thesis by (auto simp: cells_of_def quadrant_lattice_def)
qed

lemma quadrants_lattice: "geohash_lattice quadrants p quadrant_lattice"
  unfolding geohash_lattice_def quadrant_cells
proof (intro conjI allI impI)
  show "gl_encode quadrants lat lng p \<in> {''sw'', ''se'', ''nw'', ''ne''}" for lat lng
    by (simp add: quadrants_def)
  fix lat lng assume v: "valid_point lat lng"
  show "\<exists>i < lRows quadrant_lattice. \<exists>j < lCols quadrant_lattice. gl_encode quadrants lat lng p = lCell quadrant_lattice i j
      \<and> lLat quadrant_lattice i \<le> lat \<and> lat < lLat quadrant_lattice (Suc i)
      \<and> lLng quadrant_lattice j \<le> lng \<and> lng < lLng quadrant_lattice (Suc j)"
    by (rule exI [of _ "if lat < 0 then 0 else 1"], rule conjI, simp add: quadrant_lattice_def,
        rule exI [of _ "if lng < 0 then 0 else 1"])
      (use v in \<open>simp add: quadrants_def quadrant_lattice_def valid_point_def\<close>)
next
  fix i j assume "i < lRows quadrant_lattice" "j < lCols quadrant_lattice"
  then have ij: "i = 0 \<or> i = 1" "j = 0 \<or> j = 1" by (auto simp: quadrant_lattice_def)
  show "gl_bbox quadrants (lCell quadrant_lattice i j) = \<lparr>MinLat = lLat quadrant_lattice i, MaxLat = lLat quadrant_lattice (Suc i),
      MinLng = lLng quadrant_lattice j, MaxLng = lLng quadrant_lattice (Suc j)\<rparr>"
    using ij by (elim disjE) (simp_all add: quadrants_def quadrant_lattice_def)
  show "set (gl_neighbors quadrants (lCell quadrant_lattice i j)) \<subseteq> {''sw'', ''se'', ''nw'', ''ne''}"
    by (auto simp: quadrants_def)
  show "lCell quadrant_lattice i' j \<in> set (gl_neighbors quadrants (lCell quadrant_lattice i j))"
    if "i' < lRows quadrant_lattice" "i' = Suc i \<or> i = Suc i'" for i'
    using ij that by (elim disjE) (simp_all add: quadrants_def quadrant_lattice_def)
  show "lCell quadrant_lattice i j' \<in> set (gl_neighbors quadrants (lCell quadrant_lattice i j))"
    if "j' < lCols quadrant_lattice" "j' = Suc j \<or> j = Suc j'" for j'
    using ij that by (elim disjE) (simp_all add: quadrants_def quadrant_lattice_def)
qed (simp_all add: quadrant_lattice_def)

definition three_users :: geoStore where
  "three_users = \<lparr>gsPrecisions = [5],
     gsIndex = (\<lambda>p. if p = 5 then [''ne'' \<mapsto> {''u'', ''x''}, ''se'' \<mapsto> {''v''}] else Map.empty),
     gsPoints = [''u'' \<mapsto> \<lparr>geUserID = ''u'', geLat = 10, geLng = 10, geGeohash = ''ne'', geExpiresAt = None\<rparr>,
       ''v'' \<mapsto> \<lparr>geUserID = ''v'', geLat = - 10, geLng = 10, geGeohash = ''se'', geExpiresAt = None\<rparr>,
       ''x'' \<mapsto> \<lparr>geUserID = ''x'', geLat = 50, geLng = 50, geGeohash = ''ne'', geExpiresAt = None\<rparr>]\<rparr>"

lemma three_users_points:
  "gsPoints three_users u = Some e \<longleftrightarrow>
     u = ''u'' \<and> e = \<lparr>geUserID = ''u'', geLat = 10, geLng = 10, geGeohash = ''ne'', geExpiresAt = None\<rparr>
   \<or> u = ''v'' \<and> e = \<lparr>geUserID = ''v'', geLat = - 10, geLng = 10, geGeohash = ''se'', geExpiresAt = None\<rparr>
   \<or> u = ''x'' \<and> e = \<lparr>geUserID = ''x'', geLat = 50, geLng = 50, geGeohash = ''ne'', geExpiresAt = None\<rparr>"
  by (auto simp: three_users_def)

lemma three_users_in:
  "users_in (gl_encode quadrants) p (gsPoints three_users) cell
    = (if cell = ''ne'' then {''u'', ''x''} else if cell = ''se'' then {''v''} else {})"
  by (auto simp: users_in_def three_users_def quadrants_def split: if_split_asm)

lemma three_users_ok: "store_ok (gl_encode quadrants) three_users"
  unfolding store_ok_def
proof (intro conjI allI impI)
  show "geUserID e = u" "geGeohash e = gl_encode quadrants (geLat e) (geLng e) (maxPrecision three_users)"
    if "gsPoints three_users u = Some e" for u e
    using that by (auto simp: three_users_def quadrants_def split: if_split_asm)
  show "gsIndex three_users p = (if p \<in> set (gsPrecisions three_users)
      then tier_of (gl_encode quadrants) p (gsPoints three_users) else Map.empty)" for p
    by (rule ext) (simp add: tier_of_def three_users_in, simp add: three_users_def)
qed (simp_all add: three_users_def)

theorem BoundingBox_exact_witness:
  "\<exists>es g'. BoundingBox quadrants 7 ''g'' \<lparr>MinLat = - 20, MaxLat = 20, MinLng = - 20, MaxLng = 20\<rparr> 5
      \<lparr>gcCache = initCache ''n'' 1, gcStores = [''g'' \<mapsto> three_users]\<rparr> = Ret (Inr es) g'
    \<and> distinct (map geUserID es) \<and> geUserID ` set es = {''u'', ''v''}"
proof -
  let ?g = "\<lparr>gcCache = initCache ''n'' 1, gcStores = [''g'' \<mapsto> three_users]\<rparr>"
  let ?q = "\<lparr>MinLat = - 20, MaxLat = 20, MinLng = - 20, MaxLng = 20\<rparr> :: Box"
  have ok: "geo_ok (gl_encode quadrants) ?g" using three_users_ok by (simp add: geo_ok_def)
  have store: "gcStores ?g ''g'' = Some three_users" "5 \<in> set (gsPrecisions three_users)" by (simp_all add: three_users_def)
  have enum: "visits_all (gl_enum quadrants)" by (simp add: visits_all_def quadrants_def)
  have valid: "valid_points three_users" by (auto simp: valid_points_def three_users_def valid_point_def split: if_splits)
  have box: "MinLat ?q \<le> MaxLat ?q" "MinLng ?q \<le> MaxLng ?q"
    "valid_point ((MinLat ?q + MaxLat ?q) / 2) ((MinLng ?q + MaxLng ?q) / 2)" by (simp_all add: valid_point_def)
  have users: "geUserID ` box_entries three_users 7 ?q = {''u'', ''v''}"
    unfolding box_entries_def found_def three_users_points by (simp add: conj_disj_distribR Collect_disj_eq in_box_def expired_def
        image_Un ex_disj_distrib insert_commute cong: conj_cong)
  from BoundingBox_exact [OF ok store enum quadrants_lattice valid box, of 7] obtain es g' where
    "BoundingBox quadrants 7 ''g'' ?q 5 ?g = Ret (Inr es) g'" "distinct (map geUserID es)"
    "set es = box_entries three_users 7 ?q" by blast
  then show ?thesis using users by (intro exI [of _ es] exI [of _ g']) simp
qed

theorem RadiusQuery_filters_box_witness:
  "\<exists>es g'. RadiusQuery one_cell 7 ''g'' 0 0 10 5 origin_cache = Ret (Inr es) g'
     \<and> distinct (map geUserID es) \<and> set es \<subseteq> {origin_user}"
proof -
  have "circle_entries origin_store 7 0 0 10 \<subseteq> {origin_user}"
    by (auto simp: circle_entries_def box_entries_def found_def origin_store_def split: if_splits)
  then show ?thesis
    using RadiusQuery_filters_box [OF origin_ok origin_lookup origin_precision one_cell_grid(2) one_cell_grid(1),
        of 7 0 0 10] by blast
qed

end
