(* ===== verification/Geo_Replication.thy ===== *)
theory Geo_Replication
  imports Geo_Query Replication
begin

text \<open>
  Replication of locations (\<open>internal/mycel/geo_remote.go\<close>, \<open>task.go\<close>, \<open>flush.go\<close>): the payloads,
  \<open>SetLocation\<close> and \<open>DeleteLocation\<close>, which write locally and hand a payload to
  \<open>Send\<close>, the receiving side, and the flush worker; every reachable state satisfies the index
  invariant; when a broadcast makes two nodes agree, and when it does not.

  \<open>Send\<close> is fire and forget in a goroutine of its own, so \<open>SetLocation\<close> and \<open>DeleteLocation\<close>
  return the bytes handed to it; an error return hands over nothing. \<open>encoding/gob\<close> on a payload is
  the pair of functions of \<open>geo_codec\<close>.
\<close>

section \<open>Payloads\<close>

record geoPayload =
  gpOperation :: "8 word"
  gpBucket :: string
  gpUserID :: string
  gpLat :: real
  gpLng :: real
  gpExpiresAt :: gotime
  gpPrecisions :: "nat list"

record geo_codec =
  gc_enc :: "geoPayload \<Rightarrow> byte list option"
  gc_dec :: "byte list \<Rightarrow> geoPayload option"

definition encodeGeoPayload :: "geo_codec \<Rightarrow> geoPayload \<Rightarrow> error + byte list" where
  "encodeGeoPayload codec p = (case gc_enc codec p of None \<Rightarrow> Inl ErrGobEncode | Some bs \<Rightarrow> Inr bs)"

definition decodeGeoPayload :: "geo_codec \<Rightarrow> byte list \<Rightarrow> error + geoPayload" where
  "decodeGeoPayload codec bs = (case gc_dec codec bs of None \<Rightarrow> Inl ErrGobDecode | Some p \<Rightarrow> Inr p)"

section \<open>Counters\<close>

definition geo_counter :: "string \<Rightarrow> string list \<Rightarrow> geoCache \<Rightarrow> geoCache" where
  "geo_counter field attrs g = g\<lparr>gcCache := add_counter field attrs 1 (gcCache g)\<rparr>"

definition recordGeoSet :: "string \<Rightarrow> geoCache \<Rightarrow> geoCache" where
  "recordGeoSet bucket = geo_counter ''geoSets'' [bucket]"

definition recordGeoDelete :: "string \<Rightarrow> geoCache \<Rightarrow> geoCache" where
  "recordGeoDelete bucket = geo_counter ''geoDeletes'' [bucket]"

definition recordGeoReplicationSent :: "string \<Rightarrow> string \<Rightarrow> geoCache \<Rightarrow> geoCache" where
  "recordGeoReplicationSent bucket operation = geo_counter ''geoReplicationSent'' [bucket, operation]"

definition recordGeoReplicationReceived :: "string \<Rightarrow> string \<Rightarrow> geoCache \<Rightarrow> geoCache" where
  "recordGeoReplicationReceived bucket operation = geo_counter ''geoReplicationReceived'' [bucket, operation]"

definition recordGeoReplicationDropped :: "string \<Rightarrow> geoCache \<Rightarrow> geoCache" where
  "recordGeoReplicationDropped bucket = geo_counter ''geoReplicationDropped'' [bucket]"

lemmas geo_counters =
  recordGeoSet_def recordGeoDelete_def recordGeoReplicationSent_def
  recordGeoReplicationReceived_def recordGeoReplicationDropped_def geo_counter_def

section \<open>Sending\<close>

definition SetLocation ::
    "geo_codec \<Rightarrow> geohash \<Rightarrow> instant \<Rightarrow> string \<Rightarrow> string \<Rightarrow> real \<Rightarrow> real \<Rightarrow> duration \<Rightarrow> geoCache
      \<Rightarrow> (byte list, geoCache) outcome" where
  "SetLocation codec encode now bucket u lat lng ttl g =
     and_then (setLocationLocal encode now bucket u lat lng ttl (recordGeoSet bucket g))
       (\<lambda>_ g1. case getStore bucket g1 of
          Inl e \<Rightarrow> Ret (Inl e) g1
        | Inr s \<Rightarrow>
            let expiresAt = (case gsPoints s u of Some e \<Rightarrow> geExpiresAt e | None \<Rightarrow> zero_time) in
            (case encodeGeoPayload codec \<lparr>gpOperation = GEO_SET, gpBucket = bucket, gpUserID = u,
                 gpLat = lat, gpLng = lng, gpExpiresAt = expiresAt, gpPrecisions = gsPrecisions s\<rparr> of
               Inl e \<Rightarrow> Ret (Inl e) g1
             | Inr payload \<Rightarrow> Ret (Inr payload) (recordGeoReplicationSent bucket ''set'' g1)))"

definition broadcast_delete ::
    "geo_codec \<Rightarrow> string \<Rightarrow> string \<Rightarrow> geoCache \<Rightarrow> (byte list, geoCache) outcome" where
  "broadcast_delete codec bucket u g =
     (case encodeGeoPayload codec \<lparr>gpOperation = DELETE, gpBucket = bucket, gpUserID = u,
          gpLat = 0, gpLng = 0, gpExpiresAt = zero_time, gpPrecisions = []\<rparr> of
        Inl e \<Rightarrow> Ret (Inl e) g
      | Inr payload \<Rightarrow> Ret (Inr payload) (recordGeoReplicationSent bucket ''delete'' g))"

definition DeleteLocation ::
    "geo_codec \<Rightarrow> geohash \<Rightarrow> string \<Rightarrow> string \<Rightarrow> geoCache \<Rightarrow> (byte list, geoCache) outcome" where
  "DeleteLocation codec encode bucket u g =
     (case deleteLocationLocal encode bucket u (recordGeoDelete bucket g) of
        Ret (Inl e) g1 \<Rightarrow>
          (if e \<noteq> ERR_USER_NOT_FOUND \<and> e \<noteq> ERR_NO_GEO_BUCKET then Ret (Inl e) g1
           else broadcast_delete codec bucket u g1)
      | Ret (Inr _) g1 \<Rightarrow> broadcast_delete codec bucket u g1
      | Panic \<Rightarrow> Panic
      | Hang \<Rightarrow> Hang)"

section \<open>Receiving\<close>

definition handleGeoReceive ::
    "geo_codec \<Rightarrow> geohash \<Rightarrow> instant \<Rightarrow> byte list \<Rightarrow> geoCache \<Rightarrow> (unit, geoCache) outcome" where
  "handleGeoReceive codec encode now data g =
     (case decodeGeoPayload codec data of
        Inl e \<Rightarrow> Ret (Inl e) g
      | Inr p \<Rightarrow>
          if gpOperation p = GEO_SET then
            let g1 = (if 0 < length (gpPrecisions p) then snd (createStore (gpBucket p) (gpPrecisions p) g)
                      else g) in
            (case gpExpiresAt p of
               None \<Rightarrow> setLocationLocal encode now (gpBucket p) (gpUserID p) (gpLat p) (gpLng p) 0
                 (recordGeoReplicationReceived (gpBucket p) ''set'' g1)
             | Some t \<Rightarrow>
                 if t - now \<le> 0 then Ret (Inr ()) (recordGeoReplicationDropped (gpBucket p) g1)
                 else setLocationLocal encode now (gpBucket p) (gpUserID p) (gpLat p) (gpLng p) (t - now)
                   (recordGeoReplicationReceived (gpBucket p) ''set'' g1))
          else if gpOperation p = DELETE then
            (case deleteLocationLocal encode (gpBucket p) (gpUserID p)
                 (recordGeoReplicationReceived (gpBucket p) ''delete'' g) of
               Ret _ g' \<Rightarrow> Ret (Inr ()) g' | Panic \<Rightarrow> Panic | Hang \<Rightarrow> Hang)
          else Ret (Inr ()) g)"

definition applicationReceiveFunc ::
    "geo_codec \<Rightarrow> geohash \<Rightarrow> instant \<Rightarrow> byte list \<Rightarrow> geoCache \<Rightarrow> (unit, geoCache) outcome" where
  "applicationReceiveFunc codec encode now payload g =
     (if length payload = 0 then Ret (Inr ()) g
      else handleGeoReceive codec encode now payload g)"

section \<open>Flushing\<close>

text \<open>
  The flush worker: the user's function is called once per bucket that has entries. \<open>names\<close> and
  \<open>users\<close> are the orders of Go's map iteration; the calls are returned in order.
\<close>

fun flush_buckets ::
    "(string set \<Rightarrow> string list) \<Rightarrow> geoCache \<Rightarrow> string list \<Rightarrow> (string \<times> GeoEntry list) list" where
  "flush_buckets enum g [] = []"
| "flush_buckets enum g (bucket # buckets) =
     (case gcStores g bucket of
        None \<Rightarrow> flush_buckets enum g buckets
      | Some s \<Rightarrow>
          let entries = map (\<lambda>u. the (gsPoints s u)) (enum (dom (gsPoints s))) in
          if length entries = 0 then flush_buckets enum g buckets
          else (bucket, entries) # flush_buckets enum g buckets)"

definition flushWorkerTask ::
    "(string set \<Rightarrow> string list) \<Rightarrow> bool \<Rightarrow> geoCache \<Rightarrow> (string \<times> GeoEntry list) list" where
  "flushWorkerTask enum has_flushFunc g =
     (if \<not> has_flushFunc then [] else flush_buckets enum g (enum (dom (gcStores g))))"

section \<open>Reachable states\<close>

text \<open>
  The states of a node: the interface calls, received payloads (arbitrary bytes), and changes of
  the LRU store the geo index is not told about (expiry, eviction, \<open>Set\<close> and \<open>Delete\<close> on the
  bucket).
\<close>

inductive geo_reachable :: "geo_codec \<Rightarrow> geohash \<Rightarrow> geoCache \<Rightarrow> bool" for codec encode where
  init: "geo_reachable codec encode (newGeoCache (initCache self n))"
| create: "geo_reachable codec encode g \<Longrightarrow> CreateGeoBucket name ttl maxLen precs g = Ret r g' \<Longrightarrow>
    geo_reachable codec encode g'"
| set_loc: "geo_reachable codec encode g \<Longrightarrow>
    SetLocation codec encode now bucket u lat lng ttl g = Ret rb g' \<Longrightarrow> geo_reachable codec encode g'"
| del_loc: "geo_reachable codec encode g \<Longrightarrow>
    DeleteLocation codec encode bucket u g = Ret rb g' \<Longrightarrow> geo_reachable codec encode g'"
| receive: "geo_reachable codec encode g \<Longrightarrow>
    applicationReceiveFunc codec encode now data g = Ret r g' \<Longrightarrow> geo_reachable codec encode g'"
| lru: "geo_reachable codec encode g \<Longrightarrow> geo_reachable codec encode (g\<lparr>gcCache := c\<rparr>)"

lemma geo_counter_stores [simp]: "gcStores (geo_counter f a g) = gcStores g"
  by (simp add: geo_counter_def)

lemma geo_ok_counter [simp]: "geo_ok encode (geo_counter f a g) = geo_ok encode g"
  by (simp add: geo_ok_def)

lemma geo_record_ok [simp]:
  "geo_ok encode (recordGeoSet b g) = geo_ok encode g"
  "geo_ok encode (recordGeoDelete b g) = geo_ok encode g"
  "geo_ok encode (recordGeoReplicationSent b x g) = geo_ok encode g"
  "geo_ok encode (recordGeoReplicationReceived b x g) = geo_ok encode g"
  "geo_ok encode (recordGeoReplicationDropped b g) = geo_ok encode g"
  by (simp_all add: recordGeoSet_def recordGeoDelete_def recordGeoReplicationSent_def
      recordGeoReplicationReceived_def recordGeoReplicationDropped_def)

lemma and_then_Ret:
  "and_then x f = Ret r s \<longleftrightarrow>
     (\<exists>e. x = Ret (Inl e) s \<and> r = Inl e) \<or> (\<exists>v s'. x = Ret (Inr v) s' \<and> f v s' = Ret r s)"
proof (cases x)
  case (Ret q s')
  then show ?thesis by (cases q) auto
qed simp_all

lemma CreateGeoBucket_ok:
  assumes "geo_ok encode g" and "CreateGeoBucket name ttl maxLen precs g = Ret r g'"
  shows "geo_ok encode g'"
proof -
  have "geo_ok encode (g\<lparr>gcCache := c\<rparr>)" for c using assms(1) by (simp add: geo_ok_def)
  with assms createStore_ok [of encode _ name precs] show ?thesis
    by (auto simp: CreateGeoBucket_def split: if_splits outcome.splits sum.splits prod.splits)
      (metis snd_conv)
qed

lemma SetLocation_ok:
  assumes prefix: "geohash_prefix encode" and ok: "geo_ok encode g"
    and run: "SetLocation codec encode now b u lat lng ttl g = Ret r g'"
  shows "geo_ok encode g'"
proof -
  have set: "geo_ok encode g1"
    if "setLocationLocal encode now b u lat lng ttl (recordGeoSet b g) = Ret q g1" for q g1
    using setLocationLocal_ok [OF prefix _ that] ok by simp
  show ?thesis
  proof (cases "\<exists>e. setLocationLocal encode now b u lat lng ttl (recordGeoSet b g) = Ret (Inl e) g'")
    case True
    with set show ?thesis by blast
  next
    case False
    with run obtain v g1 where g1:
        "setLocationLocal encode now b u lat lng ttl (recordGeoSet b g) = Ret (Inr v) g1"
      and cont: "(case getStore b g1 of Inl e \<Rightarrow> Ret (Inl e) g1 | Inr s \<Rightarrow>
          (case encodeGeoPayload codec \<lparr>gpOperation = GEO_SET, gpBucket = b, gpUserID = u,
               gpLat = lat, gpLng = lng,
               gpExpiresAt = (case gsPoints s u of Some e \<Rightarrow> geExpiresAt e | None \<Rightarrow> zero_time),
               gpPrecisions = gsPrecisions s\<rparr> of
             Inl e \<Rightarrow> Ret (Inl e) g1
           | Inr payload \<Rightarrow> Ret (Inr payload) (recordGeoReplicationSent b ''set'' g1))) = Ret r g'"
      unfolding SetLocation_def and_then_Ret Let_def by blast
    from cont have rest: "g' = g1 \<or> g' = recordGeoReplicationSent b ''set'' g1"
      by (auto split: sum.split_asm)
    from rest set [OF g1] show ?thesis by auto
  qed
qed

lemma broadcast_delete_ok:
  "geo_ok encode g \<Longrightarrow> broadcast_delete codec b u g = Ret r g' \<Longrightarrow> geo_ok encode g'"
  by (auto simp: broadcast_delete_def split: sum.splits)

lemma DeleteLocation_ok:
  assumes ok: "geo_ok encode g" and run: "DeleteLocation codec encode b u g = Ret r g'"
  shows "geo_ok encode g'"
proof -
  have del: "geo_ok encode g1" if "deleteLocationLocal encode b u (recordGeoDelete b g) = Ret q g1" for q g1
    using deleteLocationLocal_ok [OF _ that] ok by simp
  from run show ?thesis
    using del broadcast_delete_ok
    by (auto simp: DeleteLocation_def split: outcome.splits sum.splits if_splits)
qed

lemma handleGeoReceive_cases:
  assumes "handleGeoReceive codec encode now data g = Ret r g'"
  obtains (nothing) "g' = g"
  | (dropped) b ps where "g' = recordGeoReplicationDropped b
      (if 0 < length ps then snd (createStore b ps g) else g)"
  | (set) b ps u lat lng ttl where "setLocationLocal encode now b u lat lng ttl
      (recordGeoReplicationReceived b ''set'' (if 0 < length ps then snd (createStore b ps g) else g))
      = Ret r g'"
  | (delete) b u q where
      "deleteLocationLocal encode b u (recordGeoReplicationReceived b ''delete'' g) = Ret q g'"
proof (cases "decodeGeoPayload codec data")
  case (Inl e)
  show ?thesis by (rule nothing) (use assms Inl in \<open>simp add: handleGeoReceive_def\<close>)
next
  case (Inr p)
  consider "gpOperation p = GEO_SET" | "gpOperation p = DELETE" "gpOperation p \<noteq> GEO_SET"
    | "gpOperation p \<noteq> DELETE" "gpOperation p \<noteq> GEO_SET" by blast
  then show ?thesis
  proof cases
    case 1
    let ?g1 = "if 0 < length (gpPrecisions p) then snd (createStore (gpBucket p) (gpPrecisions p) g) else g"
    let ?set = "\<lambda>ttl. setLocationLocal encode now (gpBucket p) (gpUserID p) (gpLat p) (gpLng p) ttl
      (recordGeoReplicationReceived (gpBucket p) ''set'' ?g1)"
    from assms Inr 1 have "(case gpExpiresAt p of None \<Rightarrow> ?set 0 | Some t \<Rightarrow>
        if t - now \<le> 0 then Ret (Inr ()) (recordGeoReplicationDropped (gpBucket p) ?g1)
        else ?set (t - now)) = Ret r g'"
      unfolding handleGeoReceive_def Let_def by simp
    then consider "g' = recordGeoReplicationDropped (gpBucket p) ?g1" | ttl where "?set ttl = Ret r g'"
      by (auto simp del: length_greater_0_conv split: option.split_asm if_split_asm)
    then show ?thesis
      by cases (fact dropped, fact set)
  next
    case 2
    with assms Inr show ?thesis
      unfolding handleGeoReceive_def
      by (auto split: outcome.split_asm intro: delete)
  next
    case 3
    show ?thesis by (rule nothing) (use 3 assms Inr in \<open>simp add: handleGeoReceive_def\<close>)
  qed
qed

lemma applicationReceiveFunc_ok:
  assumes prefix: "geohash_prefix encode" and ok: "geo_ok encode g"
    and run: "applicationReceiveFunc codec encode now data g = Ret r g'"
  shows "geo_ok encode g'"
proof (cases "data = []")
  case True
  with run ok show ?thesis by (simp add: applicationReceiveFunc_def)
next
  case False
  have g1: "geo_ok encode (if 0 < length ps then snd (createStore b ps g) else g)" for ps b
    using createStore_ok [OF ok] ok by simp
  from False run have "handleGeoReceive codec encode now data g = Ret r g'"
    by (simp add: applicationReceiveFunc_def)
  then show ?thesis
  proof (cases rule: handleGeoReceive_cases)
    case nothing
    with ok show ?thesis by simp
  next
    case (dropped b ps)
    with g1 show ?thesis by simp
  next
    case (set b ps u lat lng ttl)
    show ?thesis by (rule setLocationLocal_ok [OF prefix _ set]) (use g1 in simp)
  next
    case (delete b u q)
    show ?thesis by (rule deleteLocationLocal_ok [OF _ delete]) (use ok in simp)
  qed
qed

section \<open>Properties\<close>

text \<open>
  C35: The geo index never disagrees with the stored points. In every state a node can reach, by
  calls of the interface, by received payloads (any bytes) and by changes of the LRU store, each
  tier of each store maps exactly the non-empty cells to the users located in them.
\<close>

theorem reachable_index_exact:
  assumes "geohash_prefix encode" and "geo_reachable codec encode g"
  shows "geo_ok encode g"
  using assms(2)
proof induction
  case (init self n)
  show ?case by (simp add: geo_ok_def newGeoCache_def)
next
  case (create g name ttl maxLen precs r g')
  then show ?case using CreateGeoBucket_ok by blast
next
  case (set_loc g now bucket u lat lng ttl rb g')
  then show ?case using SetLocation_ok [OF assms(1)] by blast
next
  case (del_loc g bucket u rb g')
  then show ?case using DeleteLocation_ok by blast
next
  case (receive g now data r g')
  then show ?case using applicationReceiveFunc_ok [OF assms(1)] by blast
next
  case (lru g c)
  then show ?case by (simp add: geo_ok_def)
qed

section \<open>A write and its broadcast\<close>

text \<open>
  \<open>locates\<close>: the node's index and its LRU store both hold the entry. \<open>accepts\<close>: the node
  stores a replicated write of the entry: it has the bucket with room for the user, its store (if
  any) has the sender's precisions, and the deadline is ahead. \<open>gob_round_trip\<close> is what
  \<open>encoding/gob\<close> documents for the payload struct.
\<close>

definition locates :: "geoCache \<Rightarrow> string \<Rightarrow> string \<Rightarrow> GeoEntry \<Rightarrow> bool" where
  "locates g b u e \<longleftrightarrow> (\<exists>s. gcStores g b = Some s \<and> gsPoints s u = Some e)
     \<and> (\<exists>c. getLocal b u (gcCache g) = Ret (Inr (AGeoEntry e)) c)"

definition accepts :: "instant \<Rightarrow> string \<Rightarrow> GeoEntry \<Rightarrow> nat list \<Rightarrow> geoCache \<Rightarrow> bool" where
  "accepts now b e precs h \<longleftrightarrow>
     lruBuckets (gcCache h) b \<noteq> None \<and> can_store (gcCache h) b (geUserID e)
     \<and> (\<forall>s. gcStores h b = Some s \<longrightarrow> gsPrecisions s = precs)
     \<and> (case geExpiresAt e of None \<Rightarrow> effective_ttl b 0 (gcCache h) \<le> 0 | Some t \<Rightarrow> now < t)"

definition gob_round_trip :: "geo_codec \<Rightarrow> bool" where
  "gob_round_trip codec \<longleftrightarrow>
     (\<forall>p bs. gc_enc codec p = Some bs \<longrightarrow> bs \<noteq> [] \<and> gc_dec codec bs = Some p)"

definition set_payload :: "string \<Rightarrow> GeoEntry \<Rightarrow> nat list \<Rightarrow> geoPayload" where
  "set_payload b e precs = \<lparr>gpOperation = GEO_SET, gpBucket = b, gpUserID = geUserID e,
     gpLat = geLat e, gpLng = geLng e, gpExpiresAt = geExpiresAt e, gpPrecisions = precs\<rparr>"

definition delete_payload :: "string \<Rightarrow> string \<Rightarrow> geoPayload" where
  "delete_payload b u = \<lparr>gpOperation = DELETE, gpBucket = b, gpUserID = u, gpLat = 0, gpLng = 0,
     gpExpiresAt = zero_time, gpPrecisions = []\<rparr>"

lemma setLocationLocal_stores:
  assumes s: "gcStores g b = Some s" "gsPrecisions s \<noteq> []"
    and room: "lruBuckets (gcCache g) b \<noteq> None" "can_store (gcCache g) b u"
  shows "\<exists>g'. setLocationLocal encode now b u lat lng ttl g = Ret (Inr ()) g'
    \<and> locates g' b u (located encode now b u lat lng ttl g s)"
proof -
  let ?e = "located encode now b u lat lng ttl g s"
  from room obtain bk where "lruBuckets (gcCache g) b = Some bk" by blast
  from setLocal_stores [OF room(2) this] obtain c' c2 where
    set: "setLocal now b u (AGeoEntry ?e) (effective_ttl b ttl (gcCache g)) (gcCache g) = Ret (Inr ()) c'"
    and get: "getLocal b u c' = Ret (Inr (AGeoEntry ?e)) c2" by blast
  have "same_store c' (add_counter ''geoBucketSize'' [b] 1 c')" by simp
  from getLocal_same_store [OF this get] get set show ?thesis
    by (auto simp: setLocationLocal_run [OF s] locates_def)
qed

lemma SetLocation_sends:
  assumes law: "gob_round_trip codec"
    and run: "SetLocation codec encode now b u lat lng ttl g = Ret (Inr bs) g1"
  obtains s e where "gcStores g b = Some s" and "gsPrecisions s \<noteq> []"
    and "e = located encode now b u lat lng ttl (recordGeoSet b g) s"
    and "gcStores g1 = (gcStores g)(b \<mapsto> put_point encode u e s)"
    and "bs \<noteq> []" and "gc_dec codec bs = Some (set_payload b e (gsPrecisions s))"
proof -
  let ?local = "setLocationLocal encode now b u lat lng ttl (recordGeoSet b g)"
  from run obtain v g0 where local: "?local = Ret (Inr v) g0"
    and cont: "(case getStore b g0 of Inl e \<Rightarrow> Ret (Inl e) g0 | Inr s \<Rightarrow>
          (case encodeGeoPayload codec \<lparr>gpOperation = GEO_SET, gpBucket = b, gpUserID = u,
               gpLat = lat, gpLng = lng,
               gpExpiresAt = (case gsPoints s u of Some e \<Rightarrow> geExpiresAt e | None \<Rightarrow> zero_time),
               gpPrecisions = gsPrecisions s\<rparr> of
             Inl e \<Rightarrow> Ret (Inl e) g0
           | Inr payload \<Rightarrow> Ret (Inr payload) (recordGeoReplicationSent b ''set'' g0))) = Ret (Inr bs) g1"
    unfolding SetLocation_def and_then_Ret Let_def by blast
  from setLocationLocal_accepted [OF local] obtain s where s: "gcStores g b = Some s" "gsPrecisions s \<noteq> []"
    and g0: "gcStores g0 = (gcStores g)(b \<mapsto>
      put_point encode u (located encode now b u lat lng ttl (recordGeoSet b g) s) s)"
    by (auto simp: recordGeoSet_def)
  let ?e = "located encode now b u lat lng ttl (recordGeoSet b g) s"
  from cont have sent: "gc_enc codec (set_payload b ?e (gsPrecisions s)) = Some bs"
    and g1: "gcStores g1 = gcStores g0"
    by (auto simp: getStore_def g0 encodeGeoPayload_def set_payload_def recordGeoReplicationSent_def
        split: option.split_asm)
  show ?thesis
    by (rule that [OF s refl]) (use g0 g1 sent law in \<open>simp_all add: gob_round_trip_def\<close>)
qed

lemma receive_set:
  assumes bs: "bs \<noteq> []" "gc_dec codec bs = Some (set_payload b e precs)"
    and precs: "precs \<noteq> []" "sorted precs"
    and e: "geGeohash e = encode (geLat e) (geLng e) (precs ! (length precs - 1))"
    and ok: "accepts now b e precs h"
  shows "\<exists>h'. applicationReceiveFunc codec encode now bs h = Ret (Inr ()) h'
    \<and> locates h' b (geUserID e) e"
proof -
  let ?u = "geUserID e"
  define h0 where "h0 = recordGeoReplicationReceived b ''set'' (snd (createStore b precs h))"
  define ttl where "ttl = (case geExpiresAt e of None \<Rightarrow> 0 | Some t \<Rightarrow> t - now)"
  have run: "applicationReceiveFunc codec encode now bs h
      = setLocationLocal encode now b ?u (geLat e) (geLng e) ttl h0"
    using bs precs(1) ok
    by (auto simp: applicationReceiveFunc_def handleGeoReceive_def decodeGeoPayload_def set_payload_def
        h0_def ttl_def accepts_def Let_def split: option.splits)
  obtain s where s: "gcStores h0 b = Some s" "gsPrecisions s = precs"
    using ok precs by (cases "gcStores h b")
      (auto simp: h0_def createStore_def accepts_def recordGeoReplicationReceived_def sorted_sort_id)
  have cache: "same_store (gcCache h) (gcCache h0)"
    by (auto simp: h0_def createStore_def geo_counters split: option.split)
  then have "lruBuckets (gcCache h0) b \<noteq> None" "can_store (gcCache h0) b ?u"
    using ok can_store_same_store by (auto simp: accepts_def same_store_def)
  from setLocationLocal_stores [OF s(1) _ this, of encode now "geLat e" "geLng e" ttl] precs s(2)
  obtain h' where "setLocationLocal encode now b ?u (geLat e) (geLng e) ttl h0 = Ret (Inr ()) h'"
    and loc: "locates h' b ?u (located encode now b ?u (geLat e) (geLng e) ttl h0 s)" by auto
  moreover have "located encode now b ?u (geLat e) (geLng e) ttl h0 s = e"
    using e ok s cache
    by (cases e; cases "geExpiresAt e")
      (auto simp: located_def maxPrecision_def ttl_def accepts_def effective_ttl_def
        GetBucket_def same_store_def split: option.splits sum.splits if_splits)
  ultimately show ?thesis using run by auto
qed

text \<open>
  C37: A location write reaches the other nodes as it was made. If \<open>SetLocation\<close> succeeds, the
  bytes it hands to \<open>Send\<close> make every node that accepts the write hold, in its index and in its
  LRU store, the very entry the sender holds, absolute deadline included, whatever the delay.
\<close>

theorem SetLocation_replicates:
  assumes "gob_round_trip codec" and "geo_ok encode g"
    and "SetLocation codec encode now b u lat lng ttl g = Ret (Inr bs) g1"
  shows "\<exists>s e. gcStores g1 b = Some s \<and> gsPoints s u = Some e \<and> geLat e = lat \<and> geLng e = lng
    \<and> (\<forall>h later. accepts later b e (gsPrecisions s) h \<longrightarrow>
        (\<exists>h1. applicationReceiveFunc codec encode later bs h = Ret (Inr ()) h1 \<and> locates h1 b u e))"
  using assms(1,3)
proof (rule SetLocation_sends)
  fix s e
  assume s: "gcStores g b = Some s" "gsPrecisions s \<noteq> []"
    and e: "e = located encode now b u lat lng ttl (recordGeoSet b g) s"
    and g1: "gcStores g1 = (gcStores g)(b \<mapsto> put_point encode u e s)"
    and bs: "bs \<noteq> []" "gc_dec codec bs = Some (set_payload b e (gsPrecisions s))"
  have sorted: "sorted (gsPrecisions s)" using assms(2) s by (simp add: geo_ok_def store_ok_def)
  have "geGeohash e = encode (geLat e) (geLng e) (gsPrecisions s ! (length (gsPrecisions s) - 1))"
    by (simp add: e maxPrecision_def)
  from receive_set [where e = e and precs = "gsPrecisions s" and encode = encode, OF bs s(2) sorted this]
  show ?thesis using g1 e by auto
qed

section \<open>Deletions\<close>

text \<open>No trace of a user: neither a point in the bucket's store nor a value in the LRU store.\<close>

definition gone :: "geoCache \<Rightarrow> string \<Rightarrow> string \<Rightarrow> bool" where
  "gone g b u \<longleftrightarrow> (\<forall>s. gcStores g b = Some s \<longrightarrow> gsPoints s u = None)
     \<and> (\<forall>v c. getLocal b u (gcCache g) \<noteq> Ret (Inr v) c)"

lemma deleteLocal_gone:
  assumes ok: "cache_ok c L"
  shows "\<exists>r c'. deleteLocal b u c = Ret r c' \<and> (\<forall>v c2. getLocal b u c' \<noteq> Ret (Inr v) c2)"
proof (cases "lruBuckets c b")
  case None
  then show ?thesis by (simp add: deleteLocal_def getLocal_def GetBucket_def split: option.split)
next
  case (Some bk)
  show ?thesis
  proof (cases "keyVal c (b @ u)")
    case None
    with deleteLocal_absent [OF ok Some None] show ?thesis by (simp add: getLocal_def keyVal_Get_def)
  next
    case (Some n)
    with keyVal_find [OF ok \<open>lruBuckets c b = Some bk\<close>, of u]
    have "find (\<lambda>a. nkey (heapOf c a) = u) (L b) = Some n" by simp
    with Delete_list [OF cache_okD(2) [OF ok \<open>lruBuckets c b = Some bk\<close>], of u]
    have "Delete u bk (heapOf c) = Some (True, delete_node n bk (heapOf c))" by simp
    with \<open>lruBuckets c b = Some bk\<close> show ?thesis
      by (simp add: deleteLocal_def cache_updates Let_def getLocal_def keyVal_Get_def GetBucket_def)
  qed
qed

lemma deleteLocationLocal_gone:
  assumes "refines (gcCache g) A"
  shows "\<exists>r g'. deleteLocationLocal encode b u g = Ret r g' \<and> gone g' b u"
proof (cases "\<exists>s e. gcStores g b = Some s \<and> gsPoints s u = Some e")
  case False
  from assms obtain L where "cache_ok (gcCache g) L" by (auto simp: refines_def)
  from deleteLocal_gone [OF this, of b u] obtain r c' where
    "deleteLocal b u (gcCache g) = Ret r c'" "\<forall>v c2. getLocal b u c' \<noteq> Ret (Inr v) c2" by blast
  with False show ?thesis
    by (cases "gcStores g b") (auto simp: deleteLocationLocal_def getStore_def gone_def)
next
  case True
  then obtain s e where s: "gcStores g b = Some s" "gsPoints s u = Some e" by blast
  let ?c = "add_counter ''geoBucketSize'' [b] (- 1) (gcCache g)"
  have "same_store (gcCache g) ?c" by simp
  from refines_same_store [OF this assms] obtain L where "cache_ok ?c L" by (auto simp: refines_def)
  from deleteLocal_gone [OF this, of b u] obtain r c' where
    "deleteLocal b u ?c = Ret r c'" "\<forall>v c2. getLocal b u c' \<noteq> Ret (Inr v) c2" by blast
  with s show ?thesis
    by (auto simp: deleteLocationLocal_def getStore_def gone_def drop_point_def)
qed

lemma DeleteLocation_sends:
  assumes "gob_round_trip codec" and "DeleteLocation codec encode b u g = Ret (Inr bs) g1"
  shows "bs \<noteq> [] \<and> gc_dec codec bs = Some (delete_payload b u)"
proof -
  from assms(2) obtain g0 where "broadcast_delete codec b u g0 = Ret (Inr bs) g1"
    by (auto simp: DeleteLocation_def split: outcome.split_asm sum.split_asm if_split_asm)
  with assms(1) show ?thesis
    by (auto simp: broadcast_delete_def encodeGeoPayload_def gob_round_trip_def delete_payload_def
        split: option.split_asm)
qed

text \<open>
  A deletion that succeeds reaches every node. The bytes that \<open>DeleteLocation\<close> hands to
  \<open>Send\<close> leave no trace of the user at any receiver with a proper LRU store; the receiver returns,
  and reports no error whether or not it had the user.
\<close>

theorem DeleteLocation_replicates:
  assumes "gob_round_trip codec" and "DeleteLocation codec encode b u g = Ret (Inr bs) g1"
    and "refines (gcCache h) A"
  shows "\<exists>h1. applicationReceiveFunc codec encode later bs h = Ret (Inr ()) h1 \<and> gone h1 b u"
proof -
  note bs = DeleteLocation_sends [OF assms(1,2)]
  let ?h = "recordGeoReplicationReceived b ''delete'' h"
  have "same_store (gcCache h) (gcCache ?h)" by (simp add: geo_counters)
  from refines_same_store [OF this assms(3)] have "refines (gcCache ?h) A" .
  from deleteLocationLocal_gone [OF this] obtain r h1 where
    "deleteLocationLocal encode b u ?h = Ret r h1" "gone h1 b u" by blast
  with bs show ?thesis
    by (simp add: applicationReceiveFunc_def handleGeoReceive_def decodeGeoPayload_def delete_payload_def
        GEO_SET_def DELETE_def)
qed

text \<open>
  A user that is absent on the node that deletes it is not deleted elsewhere. With the bucket's
  store and LRU bucket in place but no entry for the user (it was evicted here, say),
  \<open>DeleteLocation\<close> returns the error of the LRU store and sends nothing.
\<close>

theorem DeleteLocation_absent_not_broadcast:
  assumes "refines (gcCache g) A" and "lruBuckets (gcCache g) b \<noteq> None"
    and "gcStores g b = Some s" and "gsPoints s u = None" and "keyVal (gcCache g) (b @ u) = None"
  shows "\<exists>g1. DeleteLocation codec encode b u g = Ret (Inl ERR_NOT_FOUND) g1 \<and> gcStores g1 = gcStores g"
proof -
  let ?c = "gcCache (recordGeoDelete b g)"
  have same: "same_store (gcCache g) ?c" by (simp add: geo_counters)
  from refines_same_store [OF same assms(1)] obtain L where ok: "cache_ok ?c L"
    by (auto simp: refines_def)
  from same assms(2,5) obtain bk where "lruBuckets ?c b = Some bk" "keyVal ?c (b @ u) = None"
    by (auto simp: same_store_def)
  from deleteLocal_absent [OF ok this] assms(3,4) show ?thesis
    by (auto simp: DeleteLocation_def deleteLocationLocal_def getStore_def recordGeoDelete_def)
qed

text \<open>
  On a node that lacks the LRU bucket a replicated write is undone, whatever the store held.
  The receiver creates the store, indexes the user, fails to write the LRU store, and drops the
  user again; an entry it already had is lost, and the size gauge counts one user too few for
  every such write.
\<close>

theorem receive_without_bucket:
  assumes "gob_round_trip codec" and "gc_enc codec (set_payload b e precs) = Some bs" and "precs \<noteq> []"
    and "geo_ok encode h" and "lruBuckets (gcCache h) b = None"
    and "\<forall>t. geExpiresAt e = Some t \<longrightarrow> now < t"
  shows "\<exists>h1 s. applicationReceiveFunc codec encode now bs h = Ret (Inl ErrBucketNotFound) h1
    \<and> gcStores h1 b = Some s \<and> gsPoints s (geUserID e) = None
    \<and> counters (gcCache h1) ''geoBucketSize'' [b] = counters (gcCache h) ''geoBucketSize'' [b] - 1"
proof -
  let ?u = "geUserID e"
  define h0 where "h0 = recordGeoReplicationReceived b ''set'' (snd (createStore b precs h))"
  define ttl where "ttl = (case geExpiresAt e of None \<Rightarrow> 0 | Some t \<Rightarrow> t - now)"
  have bs: "bs \<noteq> []" "gc_dec codec bs = Some (set_payload b e precs)"
    using assms(1,2) by (simp_all add: gob_round_trip_def)
  have run: "applicationReceiveFunc codec encode now bs h
      = setLocationLocal encode now b ?u (geLat e) (geLng e) ttl h0"
    using bs assms(3,6)
    by (auto simp: applicationReceiveFunc_def handleGeoReceive_def decodeGeoPayload_def set_payload_def
        h0_def ttl_def Let_def split: option.splits)
  have "geo_ok encode h0" using createStore_ok [OF assms(4)] by (simp add: h0_def)
  moreover obtain s where s: "gcStores h0 b = Some s"
    using assms(3) by (cases "gcStores h b")
      (auto simp: h0_def createStore_def recordGeoReplicationReceived_def)
  ultimately have ps: "gsPrecisions s \<noteq> []" by (simp add: geo_ok_def store_ok_def)
  have cache: "lruBuckets (gcCache h0) b = None"
    "counters (gcCache h0) ''geoBucketSize'' = counters (gcCache h) ''geoBucketSize''"
    using assms(5)
    by (auto simp: h0_def createStore_def geo_counters add_counter_def split: option.split)
  then show ?thesis
    unfolding run setLocationLocal_run [OF s ps]
    by (simp add: setLocal_no_bucket deleteLocationLocal_def getStore_def deleteLocal_def GetBucket_def
        drop_point_def add_counter_def)
qed

section \<open>Crossing writes\<close>

definition entry_at :: "geoCache \<Rightarrow> string \<Rightarrow> string \<Rightarrow> GeoEntry option" where
  "entry_at g b u = (case gcStores g b of None \<Rightarrow> None | Some s \<Rightarrow> gsPoints s u)"

lemma crossed:
  assumes law: "gob_round_trip codec" and ok: "geo_ok encode g"
    and run: "SetLocation codec encode now b u lat lng ttl g = Ret (Inr bs) g1"
    and at: "entry_at g1 b u = Some e" "gcStores g1 b = Some s" and acc: "accepts later b e (gsPrecisions s) h"
  shows "\<exists>h1. applicationReceiveFunc codec encode later bs h = Ret (Inr ()) h1 \<and> locates h1 b u e"
  using law run
proof (rule SetLocation_sends)
  fix s0 e0
  assume s: "gcStores g b = Some s0" "gsPrecisions s0 \<noteq> []"
    and e0: "e0 = located encode now b u lat lng ttl (recordGeoSet b g) s0"
    and g1: "gcStores g1 = (gcStores g)(b \<mapsto> put_point encode u e0 s0)"
    and bs: "bs \<noteq> []" "gc_dec codec bs = Some (set_payload b e0 (gsPrecisions s0))"
  have sorted: "sorted (gsPrecisions s0)" using ok s by (simp add: geo_ok_def store_ok_def)
  have geo: "geGeohash e0 = encode (geLat e0) (geLng e0) (gsPrecisions s0 ! (length (gsPrecisions s0) - 1))"
    by (simp add: e0 maxPrecision_def)
  from at g1 have "e = e0" "gsPrecisions s = gsPrecisions s0" by (auto simp: entry_at_def)
  with receive_set [where e = e0 and precs = "gsPrecisions s0" and encode = encode, OF bs s(2) sorted geo] acc
  show ?thesis by (simp add: e0)
qed

text \<open>
  Two nodes that write the same user at the same time do not agree afterwards. Each applies the
  other's broadcast after its own write, so they end with the two positions exchanged, and no
  later message reconciles them.
\<close>

theorem concurrent_writes_swap:
  assumes "gob_round_trip codec" and "geo_ok encode g" and "geo_ok encode h"
    and "SetLocation codec encode t1 b u lat1 lng1 ttl1 g = Ret (Inr bs1) g1"
    and "SetLocation codec encode t2 b u lat2 lng2 ttl2 h = Ret (Inr bs2) h1"
    and "entry_at g1 b u = Some e1" and "entry_at h1 b u = Some e2" and "e1 \<noteq> e2"
    and "gcStores g1 b = Some s1" and "gcStores h1 b = Some s2"
    and "accepts t3 b e2 (gsPrecisions s2) g1" and "accepts t4 b e1 (gsPrecisions s1) h1"
  shows "\<exists>g2 h2. applicationReceiveFunc codec encode t3 bs2 g1 = Ret (Inr ()) g2
    \<and> applicationReceiveFunc codec encode t4 bs1 h1 = Ret (Inr ()) h2
    \<and> locates g2 b u e2 \<and> locates h2 b u e1 \<and> entry_at g2 b u \<noteq> entry_at h2 b u"
proof -
  from crossed [OF assms(1,3,5,7,10,11)] obtain g2 where
    g2: "applicationReceiveFunc codec encode t3 bs2 g1 = Ret (Inr ()) g2" "locates g2 b u e2" by blast
  from crossed [OF assms(1,2,4,6,9,12)] obtain h2 where
    h2: "applicationReceiveFunc codec encode t4 bs1 h1 = Ret (Inr ()) h2" "locates h2 b u e1" by blast
  from g2(2) h2(2) assms(8) have "entry_at g2 b u \<noteq> entry_at h2 b u"
    by (auto simp: locates_def entry_at_def)
  with g2 h2 show ?thesis by blast
qed

section \<open>Witnesses\<close>

text \<open>
  A codec for two payloads, which satisfies the law of \<open>encoding/gob\<close>; nodes with one geo bucket;
  two positions of a user, written at 0 and at 2 with the bucket's default lifetime.
\<close>

definition pool_codec :: "geoPayload \<Rightarrow> geoPayload \<Rightarrow> geo_codec" where
  "pool_codec p1 p2 = \<lparr>gc_enc = (\<lambda>p. if p = p1 then Some [1] else if p = p2 then Some [2] else None),
     gc_dec = (\<lambda>bs. if bs = [1] then Some p1 else if bs = [2] then Some p2 else None)\<rparr>"

lemma pool_round_trip: "gob_round_trip (pool_codec p1 p2)"
  by (simp add: gob_round_trip_def pool_codec_def)

definition single :: geohash where
  "single lat lng p = ''w''"

lemma single_prefix: "geohash_prefix single"
  by (simp add: geohash_prefix_def single_def)

definition after :: "('r, 's) outcome \<Rightarrow> 's" where
  "after out = (case out of Ret r s \<Rightarrow> s)"

definition geo_node :: "string \<Rightarrow> geoCache" where
  "geo_node n = after (CreateGeoBucket ''g'' 10 3 [5] (newGeoCache (initCache n 2)))"

definition place :: "real \<Rightarrow> instant \<Rightarrow> GeoEntry" where
  "place x t = \<lparr>geUserID = ''u'', geLat = x, geLng = x, geGeohash = ''w'', geExpiresAt = Some t\<rparr>"

definition demo_codec :: geo_codec where
  "demo_codec = pool_codec (set_payload ''g'' (place 1 10) [5]) (set_payload ''g'' (place 2 12) [5])"

lemma demo_round_trip: "gob_round_trip demo_codec"
  by (simp add: demo_codec_def pool_round_trip)

definition moved :: "string \<Rightarrow> real \<Rightarrow> instant \<Rightarrow> geoCache" where
  "moved n x now = after (SetLocation demo_codec single now ''g'' ''u'' x x 0 (geo_node n))"

lemma geo_node_create:
  "CreateGeoBucket ''g'' 10 3 [5] (newGeoCache (initCache n 2)) = Ret (Inr ()) (geo_node n)"
  by (simp add: geo_node_def after_def CreateGeoBucket_def CreateGeoBucketInternal_def newGeoCache_def
      initCache_def createStore_def)

definition geo_bucket :: lruBucket where
  "geo_bucket = \<lparr>bType = bucketTypeGeo, bPrecisions = [5], bHead = None, bTail = None, bLen = 0,
     bMaxLen = 3, bDefaultTtl = 10\<rparr>"

lemma geo_node_state:
  "gcStores (geo_node n) = [''g'' \<mapsto> \<lparr>gsPrecisions = [5], gsIndex = (\<lambda>_. Map.empty), gsPoints = Map.empty\<rparr>]"
  "lruBuckets (gcCache (geo_node n)) = [''g'' \<mapsto> geo_bucket]"
  "keyVal (gcCache (geo_node n)) = Map.empty"
  by (simp_all add: geo_node_def after_def CreateGeoBucket_def CreateGeoBucketInternal_def newGeoCache_def
      initCache_def createStore_def geo_bucket_def)

lemma refines_geo_node: "refines (gcCache (geo_node n)) [''g'' \<mapsto> (3, [])]"
proof -
  have "cache_ok (gcCache (geo_node n)) (\<lambda>_. [])"
    by (simp add: geo_node_def after_def CreateGeoBucket_def CreateGeoBucketInternal_def newGeoCache_def
        initCache_def createStore_def cache_ok_def lru_list_def prefix_free_def)
  moreover have "store_of (gcCache (geo_node n)) (\<lambda>_. []) = [''g'' \<mapsto> (3, [])]"
    by (simp add: store_of_def geo_node_state fun_eq_iff geo_bucket_def)
  ultimately show ?thesis by (metis refines_def)
qed

lemma geo_node_ok: "geo_ok single (geo_node n)"
  by (rule CreateGeoBucket_ok [OF _ geo_node_create]) (simp add: geo_ok_def newGeoCache_def)

lemma place_located:
  "located single now ''g'' ''u'' x x 0 (recordGeoSet ''g'' (geo_node n)) s = place x (now + 10)"
  by (simp add: located_def place_def single_def effective_ttl_def GetBucket_def geo_node_state
      recordGeoSet_def geo_counter_def geo_bucket_def)

lemma moved_run:
  assumes "gc_enc demo_codec (set_payload ''g'' (place x (now + 10)) [5]) = Some bs"
  shows "SetLocation demo_codec single now ''g'' ''u'' x x 0 (geo_node n) = Ret (Inr bs) (moved n x now)"
    and "gcStores (moved n x now) = [''g'' \<mapsto> put_point single ''u'' (place x (now + 10))
      \<lparr>gsPrecisions = [5], gsIndex = (\<lambda>_. Map.empty), gsPoints = Map.empty\<rparr>]"
    and "\<exists>b. lruBuckets (gcCache (moved n x now)) = [''g'' \<mapsto> b]"
    and "keyVal (gcCache (moved n x now)) ''gu'' \<noteq> None"
    and "\<exists>A. refines (gcCache (moved n x now)) A"
proof -
  let ?e = "place x (now + 10)"
  let ?g = "recordGeoSet ''g'' (geo_node n)"
  have g: "gcStores ?g = [''g'' \<mapsto> \<lparr>gsPrecisions = [5], gsIndex = (\<lambda>_. Map.empty), gsPoints = Map.empty\<rparr>]"
    "lruBuckets (gcCache ?g) = [''g'' \<mapsto> geo_bucket]" "keyVal (gcCache ?g) = Map.empty"
    by (simp_all add: recordGeoSet_def geo_counter_def geo_node_state)
  have "gcStores ?g ''g'' = Some \<lparr>gsPrecisions = [5], gsIndex = (\<lambda>_. Map.empty), gsPoints = Map.empty\<rparr>"
    by (simp add: g)
  note run = setLocationLocal_run [OF this, of single now "''u''" x x 0, unfolded place_located, simplified]
  obtain c' where set: "setLocal now ''g'' ''u'' (AGeoEntry ?e) (effective_ttl ''g'' 0 (gcCache ?g)) (gcCache ?g)
      = Ret (Inr ()) c'" and c': "\<exists>b. lruBuckets c' = [''g'' \<mapsto> b]" "keyVal c' ''gu'' \<noteq> None"
    by (auto simp: setLocal_def GetBucket_def g keyVal_Get_def Let_def geo_bucket_def Push_def
        push_unlink_def push_front_def cache_updates fun_upd_same split: option.splits)
  from refines_geo_node [of n] have "refines (gcCache ?g) [''g'' \<mapsto> (3, [])]"
    by (rule refines_same_store [rotated]) (simp add: recordGeoSet_def geo_counter_def)
  from op_refines [OF this, of "OpSet now ''g'' ''u'' (AGeoEntry ?e) (effective_ttl ''g'' 0 (gcCache ?g))"]
  have ref: "\<exists>A. refines c' A"
    using set by (auto simp: lookup_def as_value_def)
  obtain g0 where local: "setLocationLocal single now ''g'' ''u'' x x 0 ?g = Ret (Inr ()) g0"
    and g0: "gcStores g0 = [''g'' \<mapsto> put_point single ''u'' ?e
      \<lparr>gsPrecisions = [5], gsIndex = (\<lambda>_. Map.empty), gsPoints = Map.empty\<rparr>]"
    "lruBuckets (gcCache g0) = lruBuckets c'" "keyVal (gcCache g0) = keyVal c'"
    "same_store c' (gcCache g0)"
    by (simp add: run set g)
  have payload: "\<lparr>gpOperation = GEO_SET, gpBucket = ''g'', gpUserID = ''u'', gpLat = x, gpLng = x,
      gpExpiresAt = geExpiresAt ?e, gpPrecisions = [5]\<rparr> = set_payload ''g'' ?e [5]"
    by (simp add: set_payload_def place_def)
  have "\<exists>g1. SetLocation demo_codec single now ''g'' ''u'' x x 0 (geo_node n) = Ret (Inr bs) g1
    \<and> gcStores g1 = [''g'' \<mapsto> put_point single ''u'' ?e
      \<lparr>gsPrecisions = [5], gsIndex = (\<lambda>_. Map.empty), gsPoints = Map.empty\<rparr>]
    \<and> lruBuckets (gcCache g1) = lruBuckets c' \<and> keyVal (gcCache g1) = keyVal c'
    \<and> same_store c' (gcCache g1)"
    using assms
    by (simp add: SetLocation_def local getStore_def g0 Let_def payload encodeGeoPayload_def
        recordGeoReplicationSent_def geo_counter_def)
  then obtain g1 where g1: "SetLocation demo_codec single now ''g'' ''u'' x x 0 (geo_node n) = Ret (Inr bs) g1"
    "gcStores g1 = [''g'' \<mapsto> put_point single ''u'' ?e
      \<lparr>gsPrecisions = [5], gsIndex = (\<lambda>_. Map.empty), gsPoints = Map.empty\<rparr>]"
    "lruBuckets (gcCache g1) = lruBuckets c'" "keyVal (gcCache g1) = keyVal c'"
    "same_store c' (gcCache g1)" by blast
  then have "moved n x now = g1" by (simp add: moved_def after_def)
  with g1 c' show "SetLocation demo_codec single now ''g'' ''u'' x x 0 (geo_node n) = Ret (Inr bs) (moved n x now)"
    and "gcStores (moved n x now) = [''g'' \<mapsto> put_point single ''u'' ?e
      \<lparr>gsPrecisions = [5], gsIndex = (\<lambda>_. Map.empty), gsPoints = Map.empty\<rparr>]"
    and "\<exists>b. lruBuckets (gcCache (moved n x now)) = [''g'' \<mapsto> b]"
    and "keyVal (gcCache (moved n x now)) ''gu'' \<noteq> None"
    by simp_all
  from refines_same_store [OF g1(5)] ref show "\<exists>A. refines (gcCache (moved n x now)) A"
    unfolding \<open>moved n x now = g1\<close> by blast
qed

lemma demo_enc:
  "gc_enc demo_codec (set_payload ''g'' (place 1 10) [5]) = Some [1]"
  "gc_enc demo_codec (set_payload ''g'' (place 2 12) [5]) = Some [2]"
  by (simp_all add: demo_codec_def pool_codec_def set_payload_def place_def)

lemmas first_move = moved_run [of 1 0 "[1]", simplified, OF demo_enc(1)]
lemmas second_move = moved_run [of 2 2 "[2]", simplified, OF demo_enc(2)]

lemma moved_entry:
  assumes "gc_enc demo_codec (set_payload ''g'' (place x (now + 10)) [5]) = Some bs"
  shows "entry_at (moved n x now) ''g'' ''u'' = Some (place x (now + 10))"
    and "\<exists>s. gcStores (moved n x now) ''g'' = Some s \<and> gsPrecisions s = [5]"
    and "geo_ok single (moved n x now)"
proof -
  note run = moved_run [OF assms, of n]
  show "entry_at (moved n x now) ''g'' ''u'' = Some (place x (now + 10))"
    and "\<exists>s. gcStores (moved n x now) ''g'' = Some s \<and> gsPrecisions s = [5]"
    by (simp_all add: entry_at_def run(2))
  show "geo_ok single (moved n x now)"
    by (rule SetLocation_ok [OF single_prefix geo_node_ok run(1)])
qed

lemmas first_entry = moved_entry [of 1 0 "[1]", simplified, OF demo_enc(1)]
lemmas second_entry = moved_entry [of 2 2 "[2]", simplified, OF demo_enc(2)]

lemma node_accepts:
  assumes "later < t"
  shows "accepts later ''g'' (place x t) [5] (geo_node n)"
  using assms by (simp add: accepts_def geo_node_state can_store_def geo_bucket_def place_def)

lemma moved_accepts:
  assumes "gc_enc demo_codec (set_payload ''g'' (place x (now + 10)) [5]) = Some bs" and "later < t"
  shows "accepts later ''g'' (place y t) [5] (moved n x now)"
  using assms(2) moved_run(2-4) [OF assms(1), of n] 
  by (auto simp: accepts_def can_store_def place_def)

lemma first_accepts: "accepts 4 ''g'' (place 2 12) [5] (moved n 1 0)"
  by (rule moved_accepts) (simp_all add: demo_enc)

lemma second_accepts: "accepts 4 ''g'' (place 1 10) [5] (moved n 2 2)"
  by (rule moved_accepts) (simp_all add: demo_enc)

theorem reachable_index_exact_witness: "geo_ok single (moved ''a'' 1 0)"
proof (rule reachable_index_exact [OF single_prefix])
  show "geo_reachable demo_codec single (moved ''a'' 1 0)"
    by (rule geo_reachable.set_loc [OF geo_reachable.create [OF geo_reachable.init geo_node_create]
        moved_run(1) [of 1 0 "[1]", simplified, OF demo_enc(1)]])
qed

theorem SetLocation_replicates_witness:
  "\<exists>h. applicationReceiveFunc demo_codec single 4 [1] (geo_node ''b'') = Ret (Inr ()) h
     \<and> locates h ''g'' ''u'' (place 1 10)"
proof -
  have "\<exists>s e. gcStores (moved ''a'' 1 0) ''g'' = Some s \<and> gsPoints s ''u'' = Some e \<and> geLat e = 1 \<and> geLng e = 1
    \<and> (\<forall>h later. accepts later ''g'' e (gsPrecisions s) h \<longrightarrow>
        (\<exists>h1. applicationReceiveFunc demo_codec single later [1] h = Ret (Inr ()) h1 \<and> locates h1 ''g'' ''u'' e))"
    by (rule SetLocation_replicates [OF demo_round_trip geo_node_ok first_move(1)])
  moreover have "accepts 4 ''g'' (place 1 10) [5] (geo_node ''b'')" by (rule node_accepts) simp
  ultimately show ?thesis by (auto simp: first_move(2))
qed

theorem DeleteLocation_replicates_witness:
  "\<exists>h. applicationReceiveFunc (pool_codec (delete_payload ''g'' ''u'') (delete_payload ''g'' ''v'')) single 4 [1]
      (moved ''b'' 1 0) = Ret (Inr ()) h \<and> gone h ''g'' ''u''"
proof -
  let ?codec = "pool_codec (delete_payload ''g'' ''u'') (delete_payload ''g'' ''v'')"
  obtain A where A: "refines (gcCache (moved ''b'' 1 0)) A" using first_move(5) by blast
  have "\<exists>g1. DeleteLocation ?codec single ''g'' ''u'' (newGeoCache (initCache ''c'' 2)) = Ret (Inr [1]) g1"
    by (simp add: DeleteLocation_def deleteLocationLocal_def getStore_def newGeoCache_def initCache_def
        recordGeoDelete_def geo_counter_def deleteLocal_def GetBucket_def broadcast_delete_def
        encodeGeoPayload_def pool_codec_def delete_payload_def)
  then obtain g1 where
    "DeleteLocation ?codec single ''g'' ''u'' (newGeoCache (initCache ''c'' 2)) = Ret (Inr [1]) g1" ..
  from DeleteLocation_replicates [OF pool_round_trip this A] show ?thesis .
qed

theorem DeleteLocation_absent_not_broadcast_witness:
  "\<exists>g1. DeleteLocation demo_codec single ''g'' ''u'' (geo_node ''a'') = Ret (Inl ERR_NOT_FOUND) g1
     \<and> gcStores g1 = gcStores (geo_node ''a'')"
  by (rule DeleteLocation_absent_not_broadcast [OF refines_geo_node, where s = "\<lparr>gsPrecisions = [5],
      gsIndex = (\<lambda>_. Map.empty), gsPoints = Map.empty\<rparr>"]) (simp_all add: geo_node_state)

theorem receive_without_bucket_witness:
  "\<exists>h1 s. applicationReceiveFunc demo_codec single 4 [1] (newGeoCache (initCache ''c'' 2))
      = Ret (Inl ErrBucketNotFound) h1
    \<and> gcStores h1 ''g'' = Some s \<and> gsPoints s (geUserID (place 1 10)) = None
    \<and> counters (gcCache h1) ''geoBucketSize'' [''g'']
      = counters (gcCache (newGeoCache (initCache ''c'' 2))) ''geoBucketSize'' [''g''] - 1"
  by (rule receive_without_bucket [OF demo_round_trip demo_enc(1)])
    (simp_all add: newGeoCache_def initCache_def geo_ok_def place_def)

theorem concurrent_writes_swap_witness:
  "\<exists>g2 h2. applicationReceiveFunc demo_codec single 4 [2] (moved ''a'' 1 0) = Ret (Inr ()) g2
    \<and> applicationReceiveFunc demo_codec single 4 [1] (moved ''b'' 2 2) = Ret (Inr ()) h2
    \<and> locates g2 ''g'' ''u'' (place 2 12) \<and> locates h2 ''g'' ''u'' (place 1 10)
    \<and> entry_at g2 ''g'' ''u'' \<noteq> entry_at h2 ''g'' ''u''"
proof -
  obtain s1 s2 where s: "gcStores (moved ''a'' 1 0) ''g'' = Some s1" "gsPrecisions s1 = [5]"
      "gcStores (moved ''b'' 2 2) ''g'' = Some s2" "gsPrecisions s2 = [5]"
    using first_entry(2) [of "''a''"] second_entry(2) [of "''b''"] by blast
  show ?thesis
    by (rule concurrent_writes_swap [OF demo_round_trip geo_node_ok geo_node_ok first_move(1) second_move(1)
          first_entry(1) second_entry(1) _ s(1,3)])
      (use s(2,4) first_accepts second_accepts in \<open>simp_all add: place_def\<close>)
qed

end
