(* ===== verification/Instruments.thy ===== *)
theory Instruments
  imports Geo_Replication
begin

text \<open>
  The instruments of the cache (\<open>newMetrics\<close> in \<open>internal/mycel/otel.go\<close>), in the
  order of their creation. Descriptions and units of the instruments are left out.
\<close>

section \<open>The instruments\<close>

datatype instrument_kind = Int64Counter | Int64UpDownCounter | Int64Histogram

text \<open>In the order of their creation: the field of the \<open>metrics\<close> struct, the kind, the name.\<close>

type_synonym instrument = "string \<times> instrument_kind \<times> string"

definition cache_instruments :: "instrument list" where
  "cache_instruments =
    [(''gets'', Int64Counter, ''mycorrhizal.cache.gets''),
     (''sets'', Int64Counter, ''mycorrhizal.cache.sets''),
     (''deletes'', Int64Counter, ''mycorrhizal.cache.deletes''),
     (''ttlUpdates'', Int64Counter, ''mycorrhizal.cache.ttl_updates''),
     (''hits'', Int64Counter, ''mycorrhizal.cache.hits''),
     (''misses'', Int64Counter, ''mycorrhizal.cache.misses''),
     (''lruEvictions'', Int64Counter, ''mycorrhizal.cache.lru_evictions''),
     (''ttlEvictions'', Int64Counter, ''mycorrhizal.cache.ttl_evictions''),
     (''bucketSize'', Int64UpDownCounter, ''mycorrhizal.cache.bucket.size''),
     (''duration'', Int64Histogram, ''mycorrhizal.cache.duration''),
     (''errors'', Int64Counter, ''mycorrhizal.cache.errors'')]"

definition write_instruments :: "instrument list" where
  "write_instruments =
    [(''replicaWrites'', Int64Counter, ''mycorrhizal.cache.replica.writes''),
     (''quorumFailures'', Int64Counter, ''mycorrhizal.cache.quorum.failures'')]"

definition rebalancer_instruments :: "instrument list" where
  "rebalancer_instruments =
    [(''rebalancerCycles'', Int64Counter, ''mycorrhizal.rebalancer.cycles''),
     (''rebalancerKeysProcessed'', Int64Counter, ''mycorrhizal.rebalancer.keys.processed''),
     (''rebalancerKeysEvicted'', Int64Counter, ''mycorrhizal.rebalancer.keys.evicted''),
     (''rebalancerReplicationAttempts'', Int64Counter, ''mycorrhizal.rebalancer.replication.attempts''),
     (''rebalancerReplicationErrors'', Int64Counter, ''mycorrhizal.rebalancer.replication.errors''),
     (''rebalancerDuration'', Int64Histogram, ''mycorrhizal.rebalancer.duration'')]"

definition topology_instruments :: "instrument list" where
  "topology_instruments =
    [(''topologyChanges'', Int64Counter, ''mycorrhizal.cluster.topology.changes'')]"

definition geo_instruments :: "instrument list" where
  "geo_instruments =
    [(''geoSets'', Int64Counter, ''mycorrhizal.geo.sets''),
     (''geoDeletes'', Int64Counter, ''mycorrhizal.geo.deletes''),
     (''geoQueries'', Int64Counter, ''mycorrhizal.geo.queries''),
     (''geoQueryResults'', Int64Histogram, ''mycorrhizal.geo.query.results''),
     (''geoQueryDuration'', Int64Histogram, ''mycorrhizal.geo.query.duration''),
     (''geoReplicationSent'', Int64Counter, ''mycorrhizal.geo.replication.sent''),
     (''geoReplicationReceived'', Int64Counter, ''mycorrhizal.geo.replication.received''),
     (''geoReplicationDropped'', Int64Counter, ''mycorrhizal.geo.replication.dropped''),
     (''geoBucketSize'', Int64UpDownCounter, ''mycorrhizal.geo.bucket.size'')]"

definition instruments :: "instrument list" where
  "instruments = cache_instruments @ write_instruments @ rebalancer_instruments
     @ topology_instruments @ geo_instruments"

text \<open>
  The meter (OpenTelemetry) creates an instrument or refuses; the first refusal ends the creation,
  and the cache then has no \<open>metrics\<close> at all (\<open>None\<close>).
\<close>

type_synonym meter = "instrument_kind \<Rightarrow> string \<Rightarrow> bool"

type_synonym metrics = "string \<rightharpoonup> instrument_kind \<times> string"

fun create_instruments :: "meter \<Rightarrow> instrument list \<Rightarrow> metrics \<Rightarrow> metrics option" where
  "create_instruments meter [] made = Some made"
| "create_instruments meter ((field, k, name) # rest) made =
     (if \<not> meter k name then None else create_instruments meter rest (made(field \<mapsto> (k, name))))"

definition newMetrics :: "meter \<Rightarrow> metrics option" where
  "newMetrics meter = create_instruments meter instruments Map.empty"

lemmas instrument_lists = cache_instruments_def write_instruments_def rebalancer_instruments_def
  topology_instruments_def geo_instruments_def

lemma create_instruments_result:
  "create_instruments meter is made =
     (if \<forall>(field, k, name) \<in> set is. meter k name then Some (made ++ map_of (rev is)) else None)"
proof (induction "is" arbitrary: made)
  case (Cons x rest)
  obtain field k name where x: "x = (field, k, name)" by (cases x)
  have "made(field \<mapsto> (k, name)) ++ map_of (rev rest) = made ++ map_of (rev (x # rest))"
    by (rule ext) (auto simp: x map_add_def split: option.split)
  with Cons.IH [of "made(field \<mapsto> (k, name))"] show ?case by (simp add: x del: fun_upd_apply)
qed simp

lemma instruments_distinct: "distinct (map fst instruments)"
  unfolding instruments_def instrument_lists list.map append.simps fst_conv by simp

lemma newMetrics_fields:
  assumes "newMetrics meter = Some m" and "(field, k, name) \<in> set instruments"
  shows "m field = Some (k, name)"
proof -
  have "m = map_of (rev instruments)"
    using assms(1) by (simp add: newMetrics_def create_instruments_result split: if_split_asm)
  moreover have "distinct (map fst (rev instruments))"
    using instruments_distinct by (simp add: rev_map [symmetric])
  ultimately show ?thesis using assms(2) by simp
qed

section \<open>What is created\<close>

text \<open>
  \<open>newMetrics\<close> succeeds exactly if the meter creates all 29 instruments, and then every field
  holds the instrument of its name and kind.
\<close>

lemma newMetrics_creates:
  "(newMetrics meter \<noteq> None \<longleftrightarrow> (\<forall>(field, k, name) \<in> set instruments. meter k name)) \<and> length instruments = 29
   \<and> (\<forall>m field k name. newMetrics meter = Some m \<longrightarrow> (field, k, name) \<in> set instruments \<longrightarrow> m field = Some (k, name))"
proof (intro conjI)
  show "newMetrics meter \<noteq> None \<longleftrightarrow> (\<forall>(field, k, name) \<in> set instruments. meter k name)"
    by (simp add: newMetrics_def create_instruments_result)
  show "length instruments = 29" by (simp add: instruments_def instrument_lists)
qed (use newMetrics_fields in blast)

end
