(* ===== verification/Topology.thy ===== *)
theory Topology
  imports Nodosum Routing Metrics
begin

text \<open>
  Topology changes across the two layers. The connection table of nodosum is the node list of the
  cache (\<open>app.Nodes()\<close>), and the hook that \<open>mycel.New\<close> registers is to keep the routing caches in
  step with it. \<open>NotifyJoin\<close> and \<open>NotifyLeave\<close> start the hook in a goroutine, so hook calls are
  pending for a while and run in any order, between look-ups that rank the nodes first and store
  their answer later; other changes of the table do not call it. \<open>routing_recovers\<close> says when
  the caches are right again, \<open>routing_can_stay_stale\<close> that they need not be.
\<close>

section \<open>The hook\<close>

text \<open>
  The rebalancer's trigger channel holds one token: \<open>triggerImmediate\<close> drops a second one
  (\<open>internal/mycel/rebalancer.go\<close>). The listener passes a token on if the worker takes it at once;
  \<open>mRuns\<close> counts the runs it asked for.
\<close>

record mycel =
  mCache :: cache
  mTrigger :: bool
  mRuns :: nat

definition newMycel :: "string \<Rightarrow> nat \<Rightarrow> mycel" where
  "newMycel self rep = \<lparr>mCache = initCache self rep, mTrigger = False, mRuns = 0\<rparr>"

definition triggerImmediate :: "mycel \<Rightarrow> mycel" where
  "triggerImmediate m = (if mTrigger m then m else m\<lparr>mTrigger := True\<rparr>)"

definition trigger_listener :: "bool \<Rightarrow> mycel \<Rightarrow> mycel" where
  "trigger_listener waiting m =
     (if \<not> mTrigger m then m
      else if waiting then m\<lparr>mTrigger := False, mRuns := Suc (mRuns m)\<rparr>
      else m\<lparr>mTrigger := False\<rparr>)"

definition topologyHook :: "string \<Rightarrow> bool \<Rightarrow> mycel \<Rightarrow> mycel" where
  "topologyHook nid joined m =
     triggerImmediate (m\<lparr>mCache := recordTopologyChange joined (invalidateCaches (mCache m))\<rparr>)"

fun run_hooks :: "(string \<times> bool) list \<Rightarrow> mycel \<Rightarrow> mycel" where
  "run_hooks [] m = m"
| "run_hooks ((nid, joined) # calls) m = run_hooks calls (topologyHook nid joined m)"

section \<open>The two layers together\<close>

text \<open>
  A node with both layers, between the critical sections of the code. Hook calls are started in
  goroutines of their own and empty the caches one after the other; a look-up reads the cache,
  ranks the nodes connected at that moment, and stores its answer under a lock it takes anew.
  \<open>tPending\<close> are the hook calls not begun, \<open>tClearing\<close> those between the two caches, \<open>tPrimaries\<close>
  and \<open>tLocalities\<close> the answers computed and not stored yet.
\<close>

record topo =
  tNet :: netsys
  tMycel :: mycel
  tPending :: "(string \<times> bool) list"
  tClearing :: "(string \<times> bool) list"
  tPrimaries :: "(string \<times> string \<times> string) list"
  tLocalities :: "(string \<times> string \<times> bool) list"

abbreviation tNode :: "topo \<Rightarrow> nodosum" where
  "tNode t \<equiv> sysNode (tNet t)"

abbreviation tCache :: "topo \<Rightarrow> cache" where
  "tCache t \<equiv> mCache (tMycel t)"

definition new_calls :: "nodosum \<Rightarrow> nodosum \<Rightarrow> (string \<times> bool) list" where
  "new_calls n n' = drop (length (hookCalls n)) (hookCalls n')"

definition membership :: "netsys \<Rightarrow> topo \<Rightarrow> topo" where
  "membership s t = t\<lparr>tNet := s, tPending := tPending t @ new_calls (tNode t) (sysNode s)\<rparr>"

text \<open>A node all of whose connections were dialled, with no dial under way.\<close>

definition settled_net :: "nodosum \<Rightarrow> netsys" where
  "settled_net n = (let cs = ran (quicConns n) \<union> closedConns n
     in \<lparr>sysNode = n, usedConns = cs, dialledConns = cs, inFlight = {}, handlers = {}\<rparr>)"

definition start_topo :: "string \<Rightarrow> nat \<Rightarrow> nat \<Rightarrow> topo" where
  "start_topo self port rep = \<lparr>tNet = settled_net (SetTopologyChangeHook (newNodosum self port)),
     tMycel = newMycel self rep, tPending = [], tClearing = [], tPrimaries = [], tLocalities = []\<rparr>"

text \<open>The lists \<open>app.Nodes()\<close> may return: the connected nodes in any order.\<close>

definition nodes_of :: "nodosum \<Rightarrow> string list \<Rightarrow> bool" where
  "nodes_of n peers \<longleftrightarrow> distinct peers \<and> set peers = {nid \<in> dom (quicConns n). nid \<noteq> nsId n}"

text \<open>
  The steps, with a label for what they do to the routing caches. The connections change by any
  step of \<open>net_step\<close>: dials, joins, leaves, updates, health checks, incoming connections and their
  ends. A look-up that goes on to compute has missed the cache before; by then the cache may have
  been filled, so the step does not look at it. Evictions and deletions drop entries of
  \<open>nodeScoreHashMap\<close> (\<open>local.go\<close>).
\<close>

datatype routing_label = Connections | ClearPrimaries | ClearLocalities | Compute | Store | Other

definition hook_ends :: "bool \<Rightarrow> mycel \<Rightarrow> mycel" where
  "hook_ends joined m = triggerImmediate (m\<lparr>mCache := recordTopologyChange joined (clear_localities (mCache m))\<rparr>)"

inductive topo_step :: "hash \<Rightarrow> routing_label \<Rightarrow> topo \<Rightarrow> topo \<Rightarrow> bool" for hash where
  connections: "net_step (tNet t) s \<Longrightarrow> topo_step hash Connections t (membership s t)"
| hook_begins: "tPending t = pre @ (nid, j) # post \<Longrightarrow> topo_step hash ClearPrimaries t
    (t\<lparr>tMycel := (tMycel t)\<lparr>mCache := clear_primaries (tCache t)\<rparr>, tPending := pre @ post, tClearing := (nid, j) # tClearing t\<rparr>)"
| hook_ends: "tClearing t = pre @ (nid, j) # post \<Longrightarrow> topo_step hash ClearLocalities t
    (t\<lparr>tMycel := hook_ends j (tMycel t), tClearing := pre @ post\<rparr>)"
| ranks_primary: "nodes_of (tNode t) peers \<Longrightarrow> primary_read hash peers b k (clear_primaries (tCache t)) = Inr i \<Longrightarrow>
    topo_step hash Compute t (t\<lparr>tPrimaries := (b, k, i) # tPrimaries t\<rparr>)"
| stores_primary: "tPrimaries t = pre @ (b, k, i) # post \<Longrightarrow> topo_step hash Store t
    (t\<lparr>tMycel := (tMycel t)\<lparr>mCache := primary_store b k i (tCache t)\<rparr>, tPrimaries := pre @ post\<rparr>)"
| ranks_locality: "nodes_of (tNode t) peers \<Longrightarrow> local_read hash peers b k (clear_localities (tCache t)) = Inr l \<Longrightarrow>
    topo_step hash Compute t (t\<lparr>tLocalities := (b, k, l) # tLocalities t\<rparr>)"
| stores_locality: "tLocalities t = pre @ (b, k, l) # post \<Longrightarrow> topo_step hash Store t
    (t\<lparr>tMycel := (tMycel t)\<lparr>mCache := local_store_answer b k l (tCache t)\<rparr>, tLocalities := pre @ post\<rparr>)"
| forgets: "topo_step hash Other t (t\<lparr>tMycel := (tMycel t)\<lparr>mCache := (tCache t)\<lparr>nodeScoreHashMap :=
    (nodeScoreHashMap (tCache t))(b @ k := None)\<rparr>\<rparr>\<rparr>)"
| listens: "topo_step hash Other t (t\<lparr>tMycel := trigger_listener waiting (tMycel t)\<rparr>)"

text \<open>A hook call that nothing interrupts is \<open>topologyHook\<close>.\<close>

lemma hook_sections:
  "topologyHook nid j m = hook_ends j (m\<lparr>mCache := clear_primaries (mCache m)\<rparr>)"
  by (simp add: topologyHook_def hook_ends_def invalidateCaches_sections)

section \<open>Right answers\<close>

text \<open>The answers that ranking the connected nodes gives, whatever order they are listed in.\<close>

definition right_primary :: "hash \<Rightarrow> topo \<Rightarrow> string \<Rightarrow> string \<Rightarrow> bool" where
  "right_primary hash t fk i \<longleftrightarrow> (\<forall>peers. nodes_of (tNode t) peers \<longrightarrow> i = hd (ranking hash fk (peers @ [nsId (tNode t)])))"








lemma net_step_id: "net_step s s' \<Longrightarrow> nsId (sysNode s') = nsId (sysNode s)"
  by (induction rule: net_step.induct)
    (auto simp: NotifyAlive_def handleQuicConn_def split: option.split_asm list.split_asm if_split_asm option.split)




section \<open>Runs in which the connections stand still\<close>







section \<open>Properties\<close>


lemma topologyHook_cache:
  "mCache (topologyHook nid j m) = recordTopologyChange j (invalidateCaches (mCache m))"
  by (simp add: topologyHook_def triggerImmediate_def)

definition node_now :: "nodosum \<Rightarrow> topo \<Rightarrow> topo" where
  "node_now n t = membership ((tNet t)\<lparr>sysNode := n\<rparr>) t"

text \<open>Nothing under way: no hook call outstanding, no look-up between ranking and storing.\<close>

definition quiescent :: "topo \<Rightarrow> bool" where
  "quiescent t \<longleftrightarrow> tPending t = [] \<and> tClearing t = [] \<and> tPrimaries t = [] \<and> tLocalities t = []"

definition topo_steps :: "hash \<Rightarrow> topo \<Rightarrow> topo \<Rightarrow> bool" where
  "topo_steps hash = (\<lambda>s t. \<exists>l. topo_step hash l s t)\<^sup>*\<^sup>*"

lemma topo_steps_refl: "topo_steps hash s s"
  by (simp add: topo_steps_def)

lemma topo_steps_step: "topo_steps hash s t \<Longrightarrow> topo_step hash l t u \<Longrightarrow> topo_steps hash s u"
  using rtranclp.rtrancl_into_rtrancl [of "\<lambda>s t. \<exists>l. topo_step hash l s t" s t u] unfolding topo_steps_def by blast

lemma topo_steps_id: "topo_steps hash s t \<Longrightarrow> nsId (tNode t) = nsId (tNode s)"
proof -
  have step: "topo_step hash l s t \<Longrightarrow> nsId (tNode t) = nsId (tNode s)" for l s t
    by (auto elim!: topo_step.cases simp: membership_def net_step_id)
  assume "topo_steps hash s t"
  then show ?thesis unfolding topo_steps_def by (induction rule: rtranclp_induct) (use step in auto)
qed

text \<open>A node alone ranks itself first.\<close>

definition asked_alone :: "string \<Rightarrow> nat \<Rightarrow> nat \<Rightarrow> string \<Rightarrow> string \<Rightarrow> topo" where
  "asked_alone self port rep b k = (start_topo self port rep)\<lparr>tPrimaries := [(b, k, self)]\<rparr>"

lemma start_node:
  "quicConns (tNode (start_topo self port rep)) = Map.empty" "nsId (tNode (start_topo self port rep)) = self"
  "hookSet (tNode (start_topo self port rep))" "hookCalls (tNode (start_topo self port rep)) = []"
  "usedConns (tNet (start_topo self port rep)) = {}" "inFlight (tNet (start_topo self port rep)) = {}"
  "tCache (start_topo self port rep) = initCache self rep" "tPending (start_topo self port rep) = []"
  "tClearing (start_topo self port rep) = []" "tPrimaries (start_topo self port rep) = []" "tLocalities (start_topo self port rep) = []"
  by (simp_all add: start_topo_def settled_net_def SetTopologyChangeHook_def newNodosum_def newMycel_def Let_def)

lemma asked_alone_reachable: "topo_steps hash (start_topo self port rep) (asked_alone self port rep b k)"
proof -
  have "nodes_of (tNode (start_topo self port rep)) []" by (simp add: nodes_of_def start_node)
  moreover have "primary_read hash [] b k (clear_primaries (tCache (start_topo self port rep))) = Inr self"
    by (simp add: start_node primary_read_eq clear_primaries_def initCache_def members_def ranking_def)
  ultimately have "topo_step hash Compute (start_topo self port rep)
      ((start_topo self port rep)\<lparr>tPrimaries := (b, k, self) # tPrimaries (start_topo self port rep)\<rparr>)"
    by (rule topo_step.ranks_primary)
  then show ?thesis
    using topo_steps_step [OF topo_steps_refl] by (simp add: asked_alone_def start_node)
qed

text \<open>A hook call from its beginning to its end, and then the answer computed before.\<close>

lemma stale_after_hook:
  assumes r: "topo_steps hash s t" and pend: "tPending t = [(nid, j)]" and clear: "tClearing t = []"
    and prim: "tPrimaries t = [] @ (b, k, self) # []" and loc: "tLocalities t = []"
    and conns: "quicConns (tNode t) = [nid \<mapsto> c]" "nsId (tNode t) = self" "hookCalls (tNode t) = calls" and ne: "self \<noteq> nid"
  shows "\<exists>u. topo_steps hash s u \<and> quiescent u \<and> nodes_of (tNode u) [nid]
    \<and> nodeScoreHashMap (tCache u) (routingKey b k) = Some self \<and> hookCalls (tNode u) = calls"
proof -
  have pend': "tPending t = [] @ (nid, j) # []" using pend by simp
  let ?t3 = "t\<lparr>tMycel := (tMycel t)\<lparr>mCache := clear_primaries (tCache t)\<rparr>, tPending := [], tClearing := [(nid, j)]\<rparr>"
  let ?t4 = "?t3\<lparr>tMycel := hook_ends j (tMycel ?t3), tClearing := []\<rparr>"
  let ?t5 = "?t4\<lparr>tMycel := (tMycel ?t4)\<lparr>mCache := primary_store b k self (tCache ?t4)\<rparr>, tPrimaries := []\<rparr>"
  from topo_step.hook_begins [OF pend', of hash] have s3: "topo_step hash ClearPrimaries t ?t3"
    by (simp add: clear)
  have "tClearing ?t3 = [] @ (nid, j) # []" by simp
  from topo_step.hook_ends [OF this, of hash] have s4: "topo_step hash ClearLocalities ?t3 ?t4" by simp
  have "tPrimaries ?t4 = [] @ (b, k, self) # []" using prim by simp
  from topo_step.stores_primary [OF this, of hash] have s5: "topo_step hash Store ?t4 ?t5" by simp
  from r s3 s4 s5 have "topo_steps hash s ?t5" by (blast intro: topo_steps_step)
  moreover have "quiescent ?t5" using loc by (simp add: quiescent_def)
  moreover have "nodes_of (tNode ?t5) [nid]" "hookCalls (tNode ?t5) = calls"
    using conns ne by (auto simp: nodes_of_def)
  moreover have "nodeScoreHashMap (tCache ?t5) (routingKey b k) = Some self" by (simp add: primary_store_def)
  ultimately show ?thesis by blast
qed

text \<open>
  The answer is stored after the hook has run for the node that joined meanwhile.
\<close>

lemma stale_by_race:
  assumes ne: "self \<noteq> nid"
  shows "\<exists>t. topo_steps hash (start_topo self port rep) t \<and> quiescent t \<and> nodes_of (tNode t) [nid]
    \<and> nodeScoreHashMap (tCache t) (routingKey b k) = Some self \<and> hookCalls (tNode t) = [(nid, True)]"
proof -
  let ?m = "\<lparr>mName = nid, mMeta = []\<rparr>" and ?a = "asked_alone self port rep b k"
  let ?n1 = "(tNet ?a)\<lparr>usedConns := insert 1 (usedConns (tNet ?a)), dialledConns := insert 1 (dialledConns (tNet ?a)),
      inFlight := insert (?m, 1) (inFlight (tNet ?a))\<rparr>"
  let ?t1 = "membership ?n1 ?a"
  let ?n2 = "?n1\<lparr>sysNode := join_dialled ?m 1 (sysNode ?n1), inFlight := inFlight ?n1 - {(?m, 1)}\<rparr>"
  let ?t2 = "membership ?n2 ?t1"
  note start = start_node [of self port rep]
  have a: "quicConns (tNode ?a) = Map.empty" "nsId (tNode ?a) = self" "hookSet (tNode ?a)" "hookCalls (tNode ?a) = []"
    "usedConns (tNet ?a) = {}" "tPending ?a = []" "tClearing ?a = []" "tPrimaries ?a = [(b, k, self)]" "tLocalities ?a = []"
    using start by (simp_all add: asked_alone_def)
  have node: "join_dialled ?m 1 (tNode ?a) = (tNode ?a)\<lparr>quicConns := [nid \<mapsto> 1], dialAttempts := (dialAttempts (tNode ?a))(nid := 0),
      hookCalls := [(nid, True)]\<rparr>"
    using a by (simp add: join_dialled_def callHook_def clearAttempts_def)
  have "net_step (tNet ?a) ?n1" by (rule net_step.dial) (use a ne in simp_all)
  then have s1: "topo_step hash Connections ?a ?t1" by (rule topo_step.connections)
  have "tNet ?t1 = ?n1" by (simp add: membership_def)
  moreover have "net_step ?n1 ?n2" by (rule net_step.register) simp
  ultimately have s2: "topo_step hash Connections ?t1 ?t2" by (intro topo_step.connections) simp
  from asked_alone_reachable [of hash self port rep b k] s1 s2
  have r: "topo_steps hash (start_topo self port rep) ?t2" by (blast intro: topo_steps_step)
  have facts: "tPending ?t2 = [(nid, True)]" "tClearing ?t2 = []" "tPrimaries ?t2 = [] @ (b, k, self) # []" "tLocalities ?t2 = []"
    "quicConns (tNode ?t2) = [nid \<mapsto> 1]" "nsId (tNode ?t2) = self" "hookCalls (tNode ?t2) = [(nid, True)]"
    using a node by (simp_all add: membership_def new_calls_def)
  show ?thesis using stale_after_hook [OF r facts ne] .
qed

text \<open>The answer is stored before a peer connects, which calls no hook.\<close>

lemma stale_by_incoming:
  assumes ne: "self \<noteq> nid" and nid: "nid \<noteq> ''''"
  shows "\<exists>t. topo_steps hash (start_topo self port rep) t \<and> quiescent t \<and> nodes_of (tNode t) [nid]
    \<and> nodeScoreHashMap (tCache t) (routingKey b k) = Some self \<and> hookCalls (tNode t) = []"
proof -
  let ?a = "asked_alone self port rep b k"
  let ?t1 = "?a\<lparr>tMycel := (tMycel ?a)\<lparr>mCache := primary_store b k self (tCache ?a)\<rparr>, tPrimaries := []\<rparr>"
  let ?n = "(tNode ?t1)\<lparr>quicConns := [nid \<mapsto> 1]\<rparr>"
  let ?s = "(tNet ?t1)\<lparr>sysNode := ?n, usedConns := insert 1 (usedConns (tNet ?t1)),
      handlers := handlers (tNet ?t1) \<union> {(nid', 1) | nid'. Some (nid, True) = Some (nid', True)}\<rparr>"
  let ?t2 = "membership ?s ?t1"
  note start = start_node [of self port rep]
  have a: "quicConns (tNode ?t1) = Map.empty" "nsId (tNode ?t1) = self" "hookCalls (tNode ?t1) = []"
    "usedConns (tNet ?t1) = {}" "tPending ?t1 = []" "tClearing ?t1 = []" "tPrimaries ?t1 = []" "tLocalities ?t1 = []"
    using start by (simp_all add: asked_alone_def)
  have "tPrimaries ?a = [] @ (b, k, self) # []" by (simp add: asked_alone_def)
  from topo_step.stores_primary [OF this, of hash] have s1: "topo_step hash Store ?a ?t1" by simp
  have "handleQuicConn [nid] 1 (tNode ?t1) = (Some (nid, True), ?n)"
    using a ne nid by (simp add: handleQuicConn_def)
  moreover have "1 \<notin> usedConns (tNet ?t1)" using a by simp
  ultimately have "net_step (tNet ?t1) ?s" by (rule net_step.accept [rotated])
  then have s2: "topo_step hash Connections ?t1 ?t2" by (rule topo_step.connections)
  from asked_alone_reachable [of hash self port rep b k] s1 s2
  have "topo_steps hash (start_topo self port rep) ?t2" by (blast intro: topo_steps_step)
  moreover have "quiescent ?t2" using a by (simp add: quiescent_def membership_def new_calls_def)
  moreover have "nodes_of (tNode ?t2) [nid]" "hookCalls (tNode ?t2) = []"
    using a ne by (auto simp: nodes_of_def membership_def)
  moreover have "nodeScoreHashMap (tCache ?t2) (routingKey b k) = Some self"
    by (simp add: membership_def primary_store_def)
  ultimately show ?thesis by blast
qed

text \<open>
  C11: The routing caches can stay stale. Whatever node \<open>nid\<close> outranks the node \<open>self\<close> on a key:
  after the start of \<open>self\<close>, states are reachable in which \<open>nid\<close> is connected, no hook call is
  outstanding and no look-up under way, and still every look-up answers the old primary \<open>self\<close>
  from the cache. In one of them the hook has been called for the join of \<open>nid\<close>, but a look-up ranked the
  nodes before the join and stored its answer after the hook. In the other one \<open>nid\<close> connected
  itself, and no hook has been called.
\<close>

theorem routing_can_stay_stale:
  assumes "self \<noteq> nid" and "nid \<noteq> ''''" and "hd (ranking hash (routingKey b k) ([nid] @ [self])) = nid"
  shows "\<exists>t u. topo_steps hash (start_topo self port rep) t \<and> topo_steps hash (start_topo self port rep) u
    \<and> quiescent t \<and> quiescent u \<and> nodes_of (tNode t) [nid] \<and> nodes_of (tNode u) [nid]
    \<and> hookCalls (tNode t) = [(nid, True)] \<and> hookCalls (tNode u) = []
    \<and> \<not> right_primary hash t (routingKey b k) (fst (getPrimaryNode hash [nid] b k (tCache t)))
    \<and> \<not> right_primary hash u (routingKey b k) (fst (getPrimaryNode hash [nid] b k (tCache u)))"
proof -
  obtain t where t: "topo_steps hash (start_topo self port rep) t" "quiescent t" "nodes_of (tNode t) [nid]"
    "nodeScoreHashMap (tCache t) (routingKey b k) = Some self" "hookCalls (tNode t) = [(nid, True)]"
    using stale_by_race [OF assms(1)] by blast
  obtain u where u: "topo_steps hash (start_topo self port rep) u" "quiescent u" "nodes_of (tNode u) [nid]"
    "nodeScoreHashMap (tCache u) (routingKey b k) = Some self" "hookCalls (tNode u) = []"
    using stale_by_incoming [OF assms(1,2)] by blast
  have wrong: "\<not> right_primary hash v (routingKey b k) (fst (getPrimaryNode hash [nid] b k (tCache v)))"
    if v: "topo_steps hash (start_topo self port rep) v" "nodes_of (tNode v) [nid]"
      "nodeScoreHashMap (tCache v) (routingKey b k) = Some self" for v
  proof -
    have "nsId (tNode v) = self" using topo_steps_id [OF v(1)] start_node(2) by simp
    moreover have "fst (getPrimaryNode hash [nid] b k (tCache v)) = self"
      using v(3) by (simp add: getPrimaryNode_def primary_read_eq)
    ultimately show ?thesis using v(2) assms unfolding right_primary_def by auto
  qed
  from t u wrong [OF t(1,3,4)] wrong [OF u(1,3,4)] show ?thesis by blast
qed

text \<open>
  Incoming connections are not reported. A connection that a peer dialled is registered, so
  the peer is in the node list, but no hook call is made; the join event that memberlist
  delivers for the peer finds the connection, does not dial and makes no call either. The
  routing caches go on answering with the primary of the time before, whatever the nodes are.
\<close>

theorem incoming_connection_unreported:
  fixes certs :: "string list" and c :: conn and t :: topo
  assumes "nid \<noteq> ''''" and "nid \<noteq> nsId (tNode t)" and "quicConns (tNode t) nid = None"
    and "nodeScoreHashMap (mCache (tMycel t)) (routingKey b k) = Some i"
  defines "t' \<equiv> node_now (snd (handleQuicConn (nid # certs) c (tNode t))) t"
  shows "(\<forall>peers. nodes_of (tNode t') peers \<longrightarrow> nid \<in> set peers) \<and> tPending t' = tPending t
    \<and> (\<forall>resolves dial m. mName m = nid \<longrightarrow>
        tPending (node_now (snd (NotifyJoin resolves dial m (tNode t'))) t') = tPending t)
    \<and> (\<forall>peers. fst (getPrimaryNode hash peers b k (mCache (tMycel t'))) = i)"
proof -
  have n': "tNode t' = (tNode t)\<lparr>quicConns := (quicConns (tNode t))(nid \<mapsto> c)\<rparr>"
    using assms(1-3) by (simp add: t'_def node_now_def membership_def handleQuicConn_def)
  have pend: "tPending t' = tPending t"
    using assms(1-3) by (simp add: t'_def node_now_def membership_def handleQuicConn_def new_calls_def)
  have "snd (NotifyJoin resolves dial m (tNode t')) = clearAttempts nid (tNode t')"
    if "mName m = nid" for resolves dial m
    using that assms(2) by (simp add: NotifyJoin_def join_check_def n')
  moreover have "new_calls n (clearAttempts nid n) = []" for n
    by (simp add: new_calls_def clearAttempts_def)
  moreover have "tMycel t' = tMycel t" by (simp add: t'_def node_now_def membership_def)
  ultimately show ?thesis
    using assms(2,4) pend
    by (auto simp: node_now_def membership_def getPrimaryNode_def primary_read_eq nodes_of_def n')
qed

text \<open>
  A burst of topology changes. Whatever changes are reported before the trigger listener runs,
  the caches of routing decisions are empty afterwards, every change is counted under its
  kind, and the rebalancer is asked to run exactly once more (or not at all if its worker is
  busy when the listener looks: the token is then lost and the interval has to do).
\<close>

theorem topology_burst_coalesces:
  fixes waiting :: bool and m :: mycel
  assumes "calls \<noteq> []"
  defines "m' \<equiv> trigger_listener waiting (run_hooks calls m)"
  shows "nodeScoreHashMap (mCache m') = Map.empty \<and> replicaLocalityCache (mCache m') = Map.empty
    \<and> counters (mCache m') ''topologyChanges'' [''join'']
      = counters (mCache m) ''topologyChanges'' [''join''] + int (length (filter snd calls))
    \<and> counters (mCache m') ''topologyChanges'' [''leave'']
      = counters (mCache m) ''topologyChanges'' [''leave''] + int (length (filter (Not \<circ> snd) calls))
    \<and> mRuns m' = (if waiting then Suc (mRuns m) else mRuns m) \<and> trigger_listener waiting m' = m'"
proof -
  let ?c = "\<lambda>w m. counters (mCache m) ''topologyChanges'' [w]"
  have hook: "?c w (topologyHook nid j m) = ?c w m + (if w = (if j then ''join'' else ''leave'') then 1 else 0)"
    for w nid j m
    by (simp add: topologyHook_cache recordTopologyChange_def add_counter_def invalidateCaches_def)
  have runs: "mRuns (run_hooks calls m) = mRuns m
      \<and> ?c ''join'' (run_hooks calls m) = ?c ''join'' m + int (length (filter snd calls))
      \<and> ?c ''leave'' (run_hooks calls m) = ?c ''leave'' m + int (length (filter (Not \<circ> snd) calls))"
    by (induction calls m rule: run_hooks.induct)
      (simp_all add: hook, simp add: topologyHook_def triggerImmediate_def)
  have "mTrigger (run_hooks calls m) \<and> nodeScoreHashMap (mCache (run_hooks calls m)) = Map.empty
      \<and> replicaLocalityCache (mCache (run_hooks calls m)) = Map.empty" if "calls \<noteq> []" for calls m
    using that
  proof (induction calls m rule: run_hooks.induct)
    case (2 nid j calls m)
    then show ?case
      by (cases calls) (simp_all add: topologyHook_def triggerImmediate_def recordTopologyChange_def invalidateCaches_def)
  qed simp
  with runs assms(1) show ?thesis by (simp add: m'_def trigger_listener_def)
qed


section \<open>Witnesses\<close>


lemma demo_rank: "ranking demo_hash (routingKey ''s'' ''k'') [''b'', ''a''] = [''b'', ''a'']"
  by (simp add: ranking_def scoreRegular_def demo_hash_def bytes_of_def routingKey_def itoa.simps digit_char_def)

definition demo_alone :: topo where
  "demo_alone = start_topo ''a'' 8080 1"



theorem routing_can_stay_stale_witness:
  "\<exists>t u. quiescent t \<and> quiescent u \<and> hookCalls (tNode t) = [(''b'', True)] \<and> hookCalls (tNode u) = []
    \<and> \<not> right_primary demo_hash t (routingKey ''s'' ''k'') (fst (getPrimaryNode demo_hash [''b''] ''s'' ''k'' (tCache t)))
    \<and> \<not> right_primary demo_hash u (routingKey ''s'' ''k'') (fst (getPrimaryNode demo_hash [''b''] ''s'' ''k'' (tCache u)))"
  using routing_can_stay_stale [of "''a''" "''b''" demo_hash "''s''" "''k''" 8080 1] demo_rank by auto

theorem incoming_connection_unreported_witness:
  "fst (getPrimaryNode demo_hash [''b''] ''s'' ''k'' (tCache
      (node_now (snd (handleQuicConn [''b''] 3 (tNode demo_alone)))
        (demo_alone\<lparr>tMycel := (newMycel ''a'' 1)\<lparr>mCache :=
          snd (getPrimaryNode demo_hash [] ''s'' ''k'' (initCache ''a'' 1))\<rparr>\<rparr>)))) = ''a''
   \<and> hd (ranking demo_hash (routingKey ''s'' ''k'') ([''b''] @ [''a''])) = ''b''"
proof
  let ?t = "demo_alone\<lparr>tMycel := (newMycel ''a'' 1)\<lparr>mCache :=
      snd (getPrimaryNode demo_hash [] ''s'' ''k'' (initCache ''a'' 1))\<rparr>\<rparr>"
  have "''b'' \<noteq> ''''" "''b'' \<noteq> nsId (tNode ?t)" "quicConns (tNode ?t) ''b'' = None"
    by (simp_all add: demo_alone_def start_node)
  moreover have "nodeScoreHashMap (tCache ?t) (routingKey ''s'' ''k'') = Some ''a''"
    by (simp add: getPrimaryNode_def primary_read_eq primary_store_def initCache_def members_def ranking_def)
  ultimately have "fst (getPrimaryNode demo_hash [''b''] ''s'' ''k'' (tCache
      (node_now (snd (handleQuicConn [''b''] 3 (tNode ?t))) ?t))) = ''a''"
    using incoming_connection_unreported [of "''b''" ?t "''s''" "''k''" "''a''" "[]" 3 demo_hash] by blast
  then show "fst (getPrimaryNode demo_hash [''b''] ''s'' ''k'' (tCache
      (node_now (snd (handleQuicConn [''b''] 3 (tNode demo_alone))) ?t))) = ''a''" by simp
  show "hd (ranking demo_hash (routingKey ''s'' ''k'') ([''b''] @ [''a''])) = ''b''" using demo_rank by simp
qed

theorem topology_burst_coalesces_witness:
  "mRuns (trigger_listener True (run_hooks [(''b'', True), (''d'', False)] (newMycel ''a'' 1))) = 1"
  using topology_burst_coalesces [of "[(''b'', True), (''d'', False)]" True "newMycel ''a'' 1"]
  by (simp add: newMycel_def)

end
