(* ===== verification/Lifecycle.thy ===== *)
theory Lifecycle
  imports Instruments Topology
begin

text \<open>
  Configuration and lifecycle (\<open>mycorrhizal.go\<close>, \<open>config.go\<close>, \<open>internal/mycel/mycel.go\<close>,
  \<open>internal/nodosum/nodosum.go\<close>): what \<open>New\<close> checks, opens and passes on, the state of the
  layers it returns, what a failing \<open>New\<close> leaves behind; \<open>Start\<close>, \<open>Ready\<close> and \<open>Shutdown\<close>.
  Whether a library call succeeds (parsing the certificate, opening the socket,
  \<open>memberlist.Create\<close>) is an argument. \<open>parseCAPEM\<close> and \<open>generateNodeCert\<close> are not in the
  repository; the code uses their error results only.
\<close>

section \<open>Configuration\<close>

definition seconds :: "int \<Rightarrow> duration" where
  "seconds n = n * 1000000000"

definition milliseconds :: "int \<Rightarrow> duration" where
  "milliseconds n = n * 1000000"

type_synonym discovery_mode = int

abbreviation DC_MODE_DNS_SD :: discovery_mode where "DC_MODE_DNS_SD \<equiv> 0"
abbreviation DC_MODE_CONSUL :: discovery_mode where "DC_MODE_CONSUL \<equiv> 1"
abbreviation DC_MODE_STATIC :: discovery_mode where "DC_MODE_STATIC \<equiv> 2"

text \<open>
  \<open>NodeAddrs\<close> is \<open>None\<close> for a \<open>nil\<close> slice. Of the pointers and interfaces only whether they are
  \<open>nil\<close> matters here, so they are booleans.
\<close>

record Config =
  Ctx :: bool
  Logger :: bool
  DiscoveryMode :: discovery_mode
  DiscoveryHost :: bool
  NodeAddrs :: "string list option"
  HttpClientTLSEnabled :: bool
  HttpClientTLSCACert :: bool
  HttpClientTLSCert :: bool
  SingleMode :: bool
  ListenPort :: int
  SharedSecret :: string
  HandshakeTimeout :: duration
  CaCertPEM :: "byte list"
  CaKeyPEM :: "byte list"
  MultiplexerBufferSize :: int
  MultiplexerWorkerCount :: int
  CacheReplicaCount :: int
  CacheRemoteTimeout :: duration
  MemberlistConfig :: bool
  QuicListenPort :: nat
  QuicAdvertisePort :: nat
  Debug :: bool
  RebalancerInterval :: duration
  StartupDelay :: duration

definition zeroConfig :: Config where
  "zeroConfig = \<lparr>Ctx = False, Logger = False, DiscoveryMode = DC_MODE_DNS_SD, DiscoveryHost = False, NodeAddrs = None,
     HttpClientTLSEnabled = False, HttpClientTLSCACert = False, HttpClientTLSCert = False, SingleMode = False,
     ListenPort = 0, SharedSecret = '''', HandshakeTimeout = 0, CaCertPEM = [], CaKeyPEM = [],
     MultiplexerBufferSize = 0, MultiplexerWorkerCount = 0, CacheReplicaCount = 0, CacheRemoteTimeout = 0,
     MemberlistConfig = False, QuicListenPort = 0, QuicAdvertisePort = 0, Debug = False,
     RebalancerInterval = 0, StartupDelay = 0\<rparr>"

definition GetDefaultClusterConfig :: Config where
  "GetDefaultClusterConfig = zeroConfig\<lparr>Ctx := True, Logger := True, DiscoveryMode := DC_MODE_STATIC,
     SingleMode := False, NodeAddrs := Some [], HandshakeTimeout := seconds 2, MultiplexerBufferSize := 1024,
     MultiplexerWorkerCount := 1, MemberlistConfig := True, CacheReplicaCount := 3,
     CacheRemoteTimeout := milliseconds 100, RebalancerInterval := seconds 10, StartupDelay := seconds 30\<rparr>"

definition GetDefaultSingleConfig :: Config where
  "GetDefaultSingleConfig = zeroConfig"

text \<open>The configurations of the two layers.\<close>

record nodosumConfig =
  ncNodeId :: string
  ncNodeAddrs :: "string list"
  ncListenPort :: int
  ncSharedSecret :: string
  ncHandshakeTimeout :: duration
  ncLogger :: bool
  ncCACertPEM :: "byte list"
  ncCAKeyPEM :: "byte list"
  ncMemberlistConfig :: bool
  ncQuicListenPort :: nat
  ncQuicAdvertisePort :: nat

record mycelConfig =
  mcLogger :: bool
  mcReplicas :: int
  mcRemoteTimeout :: duration
  mcRebalancerInterval :: duration
  mcGeoFlushInterval :: duration
  mcGeoFlushFunc :: bool

section \<open>Opening a node\<close>

datatype new_error = MissingCACert | MissingCAKey | MissingClientTLS | MissingNodeAddrs | MissingDiscoveryHost
  | BadCertificate | ListenFailed | CertificateFailed | MemberlistFailed | BadReplicas

text \<open>\<open>Panics\<close>: a method of a \<open>nil\<close> logger, a context without parent, a \<open>nil\<close> dereference.\<close>

datatype 'a attempt = Opened 'a | Refused new_error | Panics

record library =
  parsesPEM :: bool
  listens :: bool
  generatesCert :: bool
  createsMemberlist :: bool

text \<open>What has been opened: the transport on the socket and memberlist, and whether contexts are cancelled.\<close>

record opened =
  transportOpen :: bool
  memberlistRuns :: bool
  nodosumCancelled :: bool
  ctxCancelled :: bool

definition nothing :: opened where
  "nothing = \<lparr>transportOpen = False, memberlistRuns = False, nodosumCancelled = False, ctxCancelled = False\<rparr>"

text \<open>
  \<open>nodosum.New\<close>. \<open>memberlist.Create\<close> may already report members (\<open>early\<close>: what resolving and
  dialling them gives), before \<open>New\<close> has returned and before there is a topology hook. Every path
  through \<open>NotifyJoin\<close> logs.
\<close>

type_synonym join_event = "bool \<times> conn option \<times> memberNode"

fun early_joins :: "join_event list \<Rightarrow> nodosum \<Rightarrow> nodosum" where
  "early_joins [] n = n"
| "early_joins ((resolves, dial, node) # es) n = early_joins es (snd (NotifyJoin resolves dial node n))"

definition nodosum_New ::
    "library \<Rightarrow> join_event list \<Rightarrow> nodosumConfig \<Rightarrow> opened \<Rightarrow> nodosum attempt \<times> opened" where
  "nodosum_New lib early cfg r =
     (if \<not> parsesPEM lib then (Refused BadCertificate, r)
      else if \<not> listens lib then (Refused ListenFailed, r)
      else
        let r1 = r\<lparr>transportOpen := True\<rparr>;
            close = \<lambda>r. r\<lparr>transportOpen := False, nodosumCancelled := True\<rparr> in
        if \<not> generatesCert lib then (Refused CertificateFailed, close r1)
        else if \<not> ncMemberlistConfig cfg then (Panics, r1)
        else if \<not> createsMemberlist lib then (Refused MemberlistFailed, close r1)
        else if early \<noteq> [] \<and> \<not> ncLogger cfg then (Panics, r1)
        else (Opened (early_joins early (newNodosum (ncNodeId cfg) (ncQuicAdvertisePort cfg))),
          r1\<lparr>memberlistRuns := True\<rparr>))"

text \<open>\<open>mycel.New\<close>: the effective settings of the cache; \<open>newRebalancer\<close> replaces a zero interval.\<close>

record settings =
  sRemoteTimeout :: duration
  sRebalancerInterval :: duration
  sFlushInterval :: duration
  sFlushes :: bool

record service =
  svTopo :: topo
  svMetrics :: "metrics option"
  svSettings :: settings
  svSeeds :: "string list"

definition newRebalancer_interval :: "duration \<Rightarrow> duration" where
  "newRebalancer_interval interval = (if interval = 0 then seconds 30 else interval)"

definition mycel_New ::
    "meter \<Rightarrow> mycelConfig \<Rightarrow> string list \<Rightarrow> nodosum \<Rightarrow> service attempt" where
  "mycel_New meter cfg seeds nds =
     (if mcReplicas cfg < 1 then Refused BadReplicas
      else
        let flushInterval = (if mcGeoFlushInterval cfg = 0 then seconds 30 else mcGeoFlushInterval cfg);
            mt = newMetrics meter in
        if mt = None \<and> \<not> mcLogger cfg then Panics
        else Opened
          \<lparr>svTopo = \<lparr>tNet = settled_net (SetTopologyChangeHook nds), tMycel = newMycel (nsId nds) (nat (mcReplicas cfg)),
             tPending = [], tClearing = [], tPrimaries = [], tLocalities = []\<rparr>,
           svMetrics = mt,
           svSettings = \<lparr>sRemoteTimeout = mcRemoteTimeout cfg,
             sRebalancerInterval = newRebalancer_interval (mcRebalancerInterval cfg),
             sFlushInterval = flushInterval, sFlushes = mcGeoFlushFunc cfg\<rparr>,
           svSeeds = seeds\<rparr>)"

definition check_config :: "Config \<Rightarrow> unit attempt" where
  "check_config cfg =
     (if length (CaCertPEM cfg) = 0 then Refused MissingCACert
      else if length (CaKeyPEM cfg) = 0 then Refused MissingCAKey
      else if DiscoveryMode cfg = DC_MODE_CONSUL \<and> HttpClientTLSEnabled cfg
          \<and> (\<not> HttpClientTLSCACert cfg \<or> \<not> HttpClientTLSCert cfg) then Refused MissingClientTLS
      else if DiscoveryMode cfg = DC_MODE_STATIC \<and> NodeAddrs cfg = None then Refused MissingNodeAddrs
      else if DiscoveryMode cfg = DC_MODE_STATIC \<and> NodeAddrs cfg = Some [] \<and> \<not> Logger cfg then Panics
      else if (DiscoveryMode cfg = DC_MODE_CONSUL \<or> DiscoveryMode cfg = DC_MODE_DNS_SD) \<and> \<not> DiscoveryHost cfg
        then Refused MissingDiscoveryHost
      else if SingleMode cfg \<and> \<not> Logger cfg then Panics
      else if \<not> Ctx cfg then Panics
      else Opened ())"

definition node_id :: "string \<Rightarrow> string \<Rightarrow> string" where
  "node_id env_id generated = (if env_id = '''' then generated else env_id)"

definition seeds :: "Config \<Rightarrow> string list" where
  "seeds cfg = (case NodeAddrs cfg of None \<Rightarrow> [] | Some as \<Rightarrow> as)"

text \<open>\<open>New\<close>; the fields of \<open>mycel.Config\<close> it does not set are zero.\<close>

definition New ::
    "library \<Rightarrow> meter \<Rightarrow> string \<Rightarrow> string \<Rightarrow> join_event list \<Rightarrow> Config \<Rightarrow> service attempt \<times> opened" where
  "New lib meter env_id generated early cfg =
     (case check_config cfg of
        Refused e \<Rightarrow> (Refused e, nothing)
      | Panics \<Rightarrow> (Panics, nothing)
      | Opened _ \<Rightarrow>
          let nc = \<lparr>ncNodeId = node_id env_id generated, ncNodeAddrs = seeds cfg, ncListenPort = ListenPort cfg,
                ncSharedSecret = SharedSecret cfg, ncHandshakeTimeout = HandshakeTimeout cfg, ncLogger = Logger cfg,
                ncCACertPEM = CaCertPEM cfg, ncCAKeyPEM = CaKeyPEM cfg, ncMemberlistConfig = MemberlistConfig cfg,
                ncQuicListenPort = QuicListenPort cfg, ncQuicAdvertisePort = QuicAdvertisePort cfg\<rparr>;
              mc = \<lparr>mcLogger = Logger cfg, mcReplicas = CacheReplicaCount cfg, mcRemoteTimeout = HandshakeTimeout cfg,
                mcRebalancerInterval = 0, mcGeoFlushInterval = 0, mcGeoFlushFunc = False\<rparr>
          in (case nodosum_New lib early nc nothing of
             (Refused e, r) \<Rightarrow> (Refused e, r\<lparr>ctxCancelled := True\<rparr>)
           | (Panics, r) \<Rightarrow> (Panics, r)
           | (Opened nds, r) \<Rightarrow>
               (case mycel_New meter mc (ncNodeAddrs nc) nds of
                  Refused e \<Rightarrow> (Refused e, r\<lparr>ctxCancelled := True\<rparr>)
                | Panics \<Rightarrow> (Panics, r)
                | Opened sv \<Rightarrow> (Opened sv, r))))"

section \<open>What New gives\<close>

lemma early_joins_Cons [simp]: "early_joins (e # es) n = early_joins es (snd (NotifyJoin (fst e) (fst (snd e)) (snd (snd e)) n))"
  by (cases e) simp

lemma NotifyJoin_facts:
  "nsId (snd (NotifyJoin resolves dial m n)) = nsId n"
  "hookSet (snd (NotifyJoin resolves dial m n)) = hookSet n"
  "quicConns (snd (NotifyJoin resolves dial m n)) = quicConns n
     \<or> (mName m \<noteq> nsId n \<and> (\<exists>c. dial = Some c \<and> quicConns (snd (NotifyJoin resolves dial m n)) = (quicConns n)(mName m \<mapsto> c)))"
  by (auto simp: NotifyJoin_def join_check_def join_failed_def join_dialled_def callHook_def clearAttempts_def Let_def
      split: option.split if_split_asm prod.split bool.split)

lemma early_joins_facts:
  "nsId (early_joins es n) = nsId n \<and> hookSet (early_joins es n) = hookSet n
   \<and> (quicConns n (nsId n) = None \<longrightarrow> quicConns (early_joins es n) (nsId n) = None)
   \<and> dom (quicConns (early_joins es n)) \<subseteq> dom (quicConns n) \<union> (\<lambda>e. mName (snd (snd e))) ` set es"
proof (induction es arbitrary: n)
  case (Cons e es)
  let ?n = "snd (NotifyJoin (fst e) (fst (snd e)) (snd (snd e)) n)"
  note F = NotifyJoin_facts [of "fst e" "fst (snd e)" "snd (snd e)" n]
  have "quicConns ?n (nsId n) = quicConns n (nsId n)" using F(3) by auto
  moreover have "dom (quicConns ?n) \<subseteq> insert (mName (snd (snd e))) (dom (quicConns n))" using F(3) by auto
  moreover have "dom (quicConns (early_joins es ?n)) \<subseteq> dom (quicConns ?n) \<union> (\<lambda>e. mName (snd (snd e))) ` set es"
    using Cons.IH [of ?n] by (elim conjE)
  ultimately have "dom (quicConns (early_joins es ?n)) \<subseteq> dom (quicConns n) \<union> (\<lambda>e. mName (snd (snd e))) ` set (e # es)"
    by (simp only: list.set image_insert) blast
  with Cons.IH [of ?n] F(1,2) \<open>quicConns ?n (nsId n) = quicConns n (nsId n)\<close> show ?case
    by (simp only: early_joins_Cons) simp
qed simp

lemma New_opened:
  assumes "New lib meter env_id generated early cfg = (Opened sv, r)"
  shows "svTopo sv = \<lparr>tNet = settled_net (SetTopologyChangeHook
        (early_joins early (newNodosum (node_id env_id generated) (QuicAdvertisePort cfg)))),
      tMycel = newMycel (node_id env_id generated) (nat (CacheReplicaCount cfg)),
      tPending = [], tClearing = [], tPrimaries = [], tLocalities = []\<rparr>"
    and "svMetrics sv = newMetrics meter" and "1 \<le> CacheReplicaCount cfg" and "svSeeds sv = seeds cfg"
    and "svSettings sv = \<lparr>sRemoteTimeout = HandshakeTimeout cfg, sRebalancerInterval = seconds 30,
      sFlushInterval = seconds 30, sFlushes = False\<rparr>"
  using assms early_joins_facts [of early "newNodosum (node_id env_id generated) (QuicAdvertisePort cfg)"]
  by (auto simp: New_def nodosum_New_def mycel_New_def newRebalancer_interval_def Let_def newNodosum_def
      split: attempt.split_asm if_split_asm prod.split_asm)


definition demo_lib :: library where
  "demo_lib = \<lparr>parsesPEM = True, listens = True, generatesCert = True, createsMemberlist = True\<rparr>"

definition demo_config :: Config where
  "demo_config = GetDefaultClusterConfig\<lparr>CaCertPEM := [1], CaKeyPEM := [2]\<rparr>"

text \<open>The configurations a caller can be expected to give: no \<open>nil\<close> where the code dereferences.\<close>

definition complete :: "Config \<Rightarrow> bool" where
  "complete cfg \<longleftrightarrow> Ctx cfg \<and> Logger cfg \<and> MemberlistConfig cfg"

lemma New_succeeds:
  assumes "complete cfg"
  shows "(\<exists>sv. fst (New lib meter env_id generated early cfg) = Opened sv) \<longleftrightarrow> check_config cfg = Opened () \<and> parsesPEM lib
    \<and> listens lib \<and> generatesCert lib \<and> createsMemberlist lib \<and> 1 \<le> CacheReplicaCount cfg"
  using assms by (auto simp: New_def nodosum_New_def mycel_New_def complete_def Let_def split: attempt.split)

lemma demo_ok: "complete demo_config" "check_config demo_config = Opened ()" "CacheReplicaCount demo_config = 3"
  "RebalancerInterval demo_config = seconds 10" "HandshakeTimeout demo_config = seconds 2"
  by (simp_all add: demo_config_def GetDefaultClusterConfig_def zeroConfig_def check_config_def complete_def)

lemma demo_opened: "\<exists>sv r. New demo_lib meter '''' ''a'' early demo_config = (Opened sv, r)"
proof -
  have "\<exists>sv. fst (New demo_lib meter '''' ''a'' early demo_config) = Opened sv"
    using New_succeeds [OF demo_ok(1), of demo_lib meter "''''" "''a''" early] demo_ok by (simp add: demo_lib_def)
  then show ?thesis by (metis surj_pair fst_conv)
qed


text \<open>
  C30: When \<open>New\<close> succeeds and what a failure leaves behind. For a configuration without \<open>nil\<close>
  pointers, \<open>New\<close> never panics and succeeds exactly when the configuration passes the checks,
  every library call succeeds and at least one replica is asked for. When it fails, neither
  memberlist nor the transport keeps running, with one exception: fewer than one replica is only
  noticed when both have been started, and they are left running.
\<close>

theorem New_outcome:
  assumes "complete cfg" and "New lib meter env_id generated early cfg = (res, r)"
  shows "res \<noteq> Panics
    \<and> ((\<exists>sv. res = Opened sv) \<longleftrightarrow> check_config cfg = Opened () \<and> parsesPEM lib \<and> listens lib
        \<and> generatesCert lib \<and> createsMemberlist lib \<and> 1 \<le> CacheReplicaCount cfg)
    \<and> (\<forall>e. res = Refused e \<longrightarrow> (memberlistRuns r \<longleftrightarrow> e = BadReplicas) \<and> (transportOpen r \<longleftrightarrow> e = BadReplicas)
        \<and> (ctxCancelled r \<longleftrightarrow> check_config cfg = Opened ()))"
proof (intro conjI allI impI)
  have c: "check_config cfg \<noteq> Panics" "check_config cfg \<noteq> Refused BadReplicas"
    using assms(1) by (auto simp: check_config_def complete_def)
  note n = assms(2) [unfolded New_def nodosum_New_def mycel_New_def Let_def]
  show "res \<noteq> Panics"
    using assms(1) c n by (auto simp: complete_def split: attempt.split_asm if_split_asm)
  show "(\<exists>sv. res = Opened sv) \<longleftrightarrow> check_config cfg = Opened () \<and> parsesPEM lib \<and> listens lib
        \<and> generatesCert lib \<and> createsMemberlist lib \<and> 1 \<le> CacheReplicaCount cfg"
    using New_succeeds [OF assms(1), of lib meter env_id generated early] assms(2) by simp
  fix e assume e: "res = Refused e"
  show "memberlistRuns r \<longleftrightarrow> e = BadReplicas" "transportOpen r \<longleftrightarrow> e = BadReplicas"
    "ctxCancelled r \<longleftrightarrow> check_config cfg = Opened ()"
    using assms(1) c e n by (auto simp: complete_def nothing_def split: attempt.split_asm if_split_asm)
qed

theorem New_outcome_witness:
  "memberlistRuns (snd (New demo_lib (\<lambda>_ _. True) '''' ''a'' [] (demo_config\<lparr>CacheReplicaCount := 0\<rparr>)))
   \<and> fst (New demo_lib (\<lambda>_ _. True) '''' ''a'' [] (demo_config\<lparr>CacheReplicaCount := 0\<rparr>)) = Refused BadReplicas"
proof -
  let ?cfg = "demo_config\<lparr>CacheReplicaCount := 0\<rparr>"
  have "fst (New demo_lib (\<lambda>_ _. True) '''' ''a'' [] ?cfg) = Refused BadReplicas"
    by (simp add: New_def check_config_def nodosum_New_def mycel_New_def demo_lib_def Let_def demo_config_def
        GetDefaultClusterConfig_def zeroConfig_def)
  moreover have "complete ?cfg" using demo_ok(1) by (simp add: complete_def)
  moreover obtain res r where "New demo_lib (\<lambda>_ _. True) '''' ''a'' [] ?cfg = (res, r)" by (rule prod.exhaust)
  ultimately show ?thesis using New_outcome [of ?cfg demo_lib "\<lambda>_ _. True" "''''" "''a''" "[]" res r] by simp
qed

text \<open>
  Most of the configuration has no effect. Of two complete configurations that pass the checks
  and agree on the replica count, the handshake timeout, the node addresses and the advertised
  QUIC port, \<open>New\<close> makes the same node: the discovery mode and its TLS settings, single mode,
  \<open>CacheRemoteTimeout\<close> and \<open>RebalancerInterval\<close> change nothing. Remote calls time out after the
  handshake timeout, the rebalancer runs every 30 s, and nothing is flushed.
\<close>

lemma New_ignores:
  assumes "complete cfg" and "complete cfg'"
    and "check_config cfg = Opened ()" and "check_config cfg' = Opened ()"
    and "CacheReplicaCount cfg = CacheReplicaCount cfg'" and "HandshakeTimeout cfg = HandshakeTimeout cfg'"
    and "seeds cfg = seeds cfg'" and "QuicAdvertisePort cfg = QuicAdvertisePort cfg'"
  shows "New lib meter env_id generated early cfg = New lib meter env_id generated early cfg'
    \<and> (\<forall>sv r. New lib meter env_id generated early cfg = (Opened sv, r) \<longrightarrow>
        svSettings sv = \<lparr>sRemoteTimeout = HandshakeTimeout cfg, sRebalancerInterval = seconds 30,
          sFlushInterval = seconds 30, sFlushes = False\<rparr>)"
proof
  show "New lib meter env_id generated early cfg = New lib meter env_id generated early cfg'"
    using assms by (simp add: New_def nodosum_New_def mycel_New_def complete_def Let_def)
  show "\<forall>sv r. New lib meter env_id generated early cfg = (Opened sv, r) \<longrightarrow>
        svSettings sv = \<lparr>sRemoteTimeout = HandshakeTimeout cfg, sRebalancerInterval = seconds 30,
          sFlushInterval = seconds 30, sFlushes = False\<rparr>"
    using New_opened(5) by blast
qed

lemma New_ignores_witness:
  "New demo_lib (\<lambda>_ _. True) '''' ''a'' [] demo_config
    = New demo_lib (\<lambda>_ _. True) '''' ''a'' [] (demo_config\<lparr>SingleMode := True, RebalancerInterval := seconds 1,
        CacheRemoteTimeout := seconds 5\<rparr>)
   \<and> (\<exists>sv r. New demo_lib (\<lambda>_ _. True) '''' ''a'' [] demo_config = (Opened sv, r) \<and> RebalancerInterval demo_config = seconds 10
        \<and> sRebalancerInterval (svSettings sv) = seconds 30)"
proof -
  let ?cfg = "demo_config\<lparr>SingleMode := True, RebalancerInterval := seconds 1, CacheRemoteTimeout := seconds 5\<rparr>"
  have c: "complete ?cfg" "check_config ?cfg = Opened ()"
    using demo_ok(1,2) by (simp_all add: complete_def check_config_def demo_config_def GetDefaultClusterConfig_def zeroConfig_def)
  note I = New_ignores [OF demo_ok(1) c(1) demo_ok(2) c(2), of demo_lib "\<lambda>_ _. True" "''''" "''a''" "[]"]
  obtain sv r where "New demo_lib (\<lambda>_ _. True) '''' ''a'' [] demo_config = (Opened sv, r)"
    using demo_opened by blast
  note n = this
  have same: "CacheReplicaCount demo_config = CacheReplicaCount ?cfg" "HandshakeTimeout demo_config = HandshakeTimeout ?cfg"
    "seeds demo_config = seeds ?cfg" "QuicAdvertisePort demo_config = QuicAdvertisePort ?cfg"
    by (simp_all add: seeds_def)
  note J = I [OF same]
  from J n have "sRebalancerInterval (svSettings sv) = seconds 30" by simp
  with J n demo_ok(4) show ?thesis by blast
qed

text \<open>
  The default configuration of a single node cannot be used. With the certificates \<open>New\<close> asks
  for, and whatever else is set among the discovery host, the node addresses, the replicas and
  the ports, \<open>New\<close> of \<open>GetDefaultSingleConfig\<close> reports a missing discovery host or
  panics, because the context is \<open>nil\<close>; the default cluster configuration lacks the certificates only.
\<close>

lemma single_config_unusable:
  "(\<nexists>sv. fst (New lib meter env_id generated early (GetDefaultSingleConfig\<lparr>CaCertPEM := cert, CaKeyPEM := key,
      DiscoveryHost := host, NodeAddrs := addrs, SingleMode := alone, CacheReplicaCount := n,
      QuicListenPort := p, QuicAdvertisePort := q\<rparr>)) = Opened sv)
   \<and> (length cert > 0 \<longrightarrow> length key > 0 \<longrightarrow>
      check_config (GetDefaultClusterConfig\<lparr>CaCertPEM := cert, CaKeyPEM := key\<rparr>) = Opened ())"
  by (auto simp: New_def check_config_def GetDefaultSingleConfig_def GetDefaultClusterConfig_def zeroConfig_def)

lemma single_config_unusable_witness:
  "(\<nexists>sv. fst (New demo_lib (\<lambda>_ _. True) '''' ''a'' [] (GetDefaultSingleConfig\<lparr>CaCertPEM := [1], CaKeyPEM := [2],
      DiscoveryHost := True, NodeAddrs := None, SingleMode := True, CacheReplicaCount := 1,
      QuicListenPort := 0, QuicAdvertisePort := 0\<rparr>)) = Opened sv)
   \<and> check_config (GetDefaultClusterConfig\<lparr>CaCertPEM := [1], CaKeyPEM := [2]\<rparr>) = Opened ()"
  using single_config_unusable [where cert = "[1]" and key = "[2]" and lib = demo_lib and early = "[]" and host = True
      and addrs = None and alone = True and n = 1 and p = 0 and q = 0 and meter = "\<lambda>_ _. True"
      and env_id = "''''" and generated = "''a''"] by simp

section \<open>Start, Ready and Shutdown\<close>

text \<open>
  The contexts and ready channels of the three layers, the counter of the wait group, and how
  often the workers of the cache were started. \<open>lcCtx\<close> stands for the context of \<open>mycorrhizal\<close> and
  the one of nodosum derived from it, which are cancelled together.
\<close>

record lifecycle =
  lcCtx :: bool
  lcMycelCtx :: bool
  lcNodosumReady :: bool
  lcMycelReady :: bool
  lcReady :: bool
  lcWg :: int
  lcWorkers :: nat

definition fresh :: lifecycle where
  "fresh = \<lparr>lcCtx = True, lcMycelCtx = True, lcNodosumReady = False, lcMycelReady = False, lcReady = False,
     lcWg = 0, lcWorkers = 0\<rparr>"

text \<open>
  What is left to chance: whether joining the seed nodes ends before mycel gives up waiting
  (30 s), what the \<open>select\<close> of the two \<open>Ready\<close> calls takes when both its channels are ready, and
  whether the context is cancelled during the startup delay.
\<close>

record chance =
  inTime :: bool
  pickNodosum :: bool
  pickMycel :: bool
  delayCut :: bool

datatype life_error = NotReadyInTime | ContextCancelled | DelayCancelled

text \<open>How a call ends; \<open>Crashed\<close> is a panic that ends the process.\<close>

datatype ending = Returned "life_error option" lifecycle | Crashed | Blocked

text \<open>The \<open>select\<close> of the \<open>Ready\<close> functions of the three layers.\<close>

definition await :: "bool \<Rightarrow> bool \<Rightarrow> bool \<Rightarrow> life_error option" where
  "await isReady alive pick =
     (if isReady \<and> (alive \<or> pick) then None
      else if alive then Some NotReadyInTime else Some ContextCancelled)"

definition cancel :: "lifecycle \<Rightarrow> lifecycle" where
  "cancel m = m\<lparr>lcCtx := False, lcMycelCtx := False\<rparr>"

text \<open>
  The goroutine of nodosum: \<open>Start\<close> closes the ready channel once (\<open>startOnce\<close>). Its own \<open>Ready\<close>
  finds the channel closed, so it fails only when the context is cancelled already.
\<close>

definition nodosum_Start :: "chance \<Rightarrow> lifecycle \<Rightarrow> lifecycle" where
  "nodosum_Start ch m =
     (let m1 = m\<lparr>lcNodosumReady := True\<rparr>
      in if await (lcNodosumReady m1) (lcCtx m1) (pickNodosum ch) = None then m1 else cancel m1)"

text \<open>\<open>mycel.Start\<close>; closing the ready channel a second time panics, after the workers were started.\<close>

definition mycel_Start :: "chance \<Rightarrow> lifecycle \<Rightarrow> ending" where
  "mycel_Start ch m =
     (case await (lcNodosumReady m) (lcCtx m) (pickNodosum ch) of
        Some e \<Rightarrow> Returned (Some e) (m\<lparr>lcMycelCtx := False\<rparr>)
      | None \<Rightarrow>
          let m1 = m\<lparr>lcWorkers := Suc (lcWorkers m)\<rparr>
          in if lcMycelReady m1 then Crashed else Returned None (m1\<lparr>lcMycelReady := True\<rparr>))"

text \<open>The goroutine of mycel: \<open>Start\<close>, then \<open>Ready\<close>, cancelling the context when one fails.\<close>

definition mycel_goroutine :: "chance \<Rightarrow> lifecycle \<Rightarrow> ending" where
  "mycel_goroutine ch m =
     (case mycel_Start ch m of
        Returned r m1 \<Rightarrow>
          let m2 = (if r \<noteq> None then cancel m1 else m1)
          in Returned None (if await (lcMycelReady m2) (lcMycelCtx m2) (pickMycel ch) \<noteq> None then cancel m2 else m2)
      | e \<Rightarrow> e)"

text \<open>
  \<open>Start\<close>: mycel waits for nodosum, so nodosum's goroutine comes first if it is ready in time;
  otherwise mycel has given up before.
\<close>

definition Start :: "Config \<Rightarrow> chance \<Rightarrow> lifecycle \<Rightarrow> ending" where
  "Start cfg ch m =
     (case (if inTime ch then mycel_goroutine ch (nodosum_Start ch m) else mycel_goroutine ch m) of
        Returned _ m1 \<Rightarrow>
          let m2 = (if inTime ch then m1 else nodosum_Start ch m1);
              m3 = m2\<lparr>lcWg := lcWg m2 + 2\<rparr>
          in if 0 < StartupDelay cfg \<and> (\<not> lcCtx m3 \<or> delayCut ch)
             then Returned (Some DelayCancelled) (if delayCut ch then cancel m3 else m3)
             else if lcReady m3 then Crashed
             else Returned None (m3\<lparr>lcReady := True\<rparr>)
      | e \<Rightarrow> e)"

definition Ready :: "bool \<Rightarrow> lifecycle \<Rightarrow> life_error option" where
  "Ready pick m = await (lcReady m) (lcCtx m) pick"

text \<open>
  \<open>Shutdown\<close>: two \<open>wg.Go\<close>, each of which adds one, and whose functions call \<open>wg.Done\<close> in addition to
  the \<open>Done\<close> of \<open>Go\<close>. \<open>drains\<close> tells if the layers' own \<open>Shutdown\<close> return.
\<close>

definition Shutdown :: "bool \<Rightarrow> lifecycle \<Rightarrow> ending" where
  "Shutdown drains m =
     (let n = lcWg m + 2 - 4
      in if \<not> drains then Blocked
         else if n < 0 then Crashed
         else if 0 < n then Blocked
         else Returned None (cancel (m\<lparr>lcWg := n\<rparr>)))"

text \<open>Histories of calls; \<open>DoCancel\<close>: the caller cancels the context of the configuration.\<close>

datatype life_op = DoStart chance | DoShutdown bool | DoCancel

fun life_call :: "Config \<Rightarrow> life_op \<Rightarrow> lifecycle \<Rightarrow> ending" where
  "life_call cfg (DoStart ch) m = Start cfg ch m"
| "life_call cfg (DoShutdown drains) m = Shutdown drains m"
| "life_call cfg DoCancel m = Returned None (cancel m)"

fun life_run :: "Config \<Rightarrow> life_op list \<Rightarrow> lifecycle \<Rightarrow> lifecycle option" where
  "life_run cfg [] m = Some m"
| "life_run cfg (op # ops) m = (case life_call cfg op m of Returned _ m' \<Rightarrow> life_run cfg ops m' | _ \<Rightarrow> None)"

fun is_start :: "life_op \<Rightarrow> bool" where
  "is_start (DoStart ch) = True"
| "is_start op = False"

fun is_shutdown :: "life_op \<Rightarrow> bool" where
  "is_shutdown (DoShutdown d) = True"
| "is_shutdown op = False"

definition starts :: "life_op list \<Rightarrow> nat" where
  "starts ops = length (filter is_start ops)"

definition shutdowns :: "life_op list \<Rightarrow> nat" where
  "shutdowns ops = length (filter is_shutdown ops)"

text \<open>
  What nodosum's \<open>Start\<close> does once: it hands the seed nodes other than the own address to memberlist
  (\<open>filterNodes\<close>), and starts a \<open>NotifyJoin\<close> for every member but itself.
\<close>

fun initial_joins :: "memberNode list \<Rightarrow> nodosum \<Rightarrow> memberNode list" where
  "initial_joins [] n = []"
| "initial_joins (member # ms) n = (if mName member \<noteq> nsId n then member # initial_joins ms n else initial_joins ms n)"

definition nodosum_Start_once :: "string \<Rightarrow> memberNode list \<Rightarrow> service \<Rightarrow> string list \<times> memberNode list" where
  "nodosum_Start_once localAddr joined sv =
     (filterNodes localAddr (svSeeds sv), initial_joins joined (tNode (svTopo sv)))"

lemma initial_joins_filter: "initial_joins ms n = filter (\<lambda>m. mName m \<noteq> nsId n) ms"
  by (induction ms) auto

lemma NotifyJoin_keeps:
  "quicConns n a = Some c \<Longrightarrow> quicConns (snd (NotifyJoin resolves dial m n)) a = Some c"
  by (auto simp: NotifyJoin_def join_check_def join_failed_def join_dialled_def callHook_def clearAttempts_def Let_def
      split: option.split)

lemma early_joins_keep: "quicConns n a = Some c \<Longrightarrow> quicConns (early_joins es n) a = Some c"
  by (induction es arbitrary: n) (simp_all add: NotifyJoin_keeps)

lemma NotifyJoin_connects:
  assumes "mName m \<noteq> nsId n" and "quicPort m \<noteq> None" and "dial = Some c"
  shows "quicConns (snd (NotifyJoin True dial m n)) (mName m) \<noteq> None"
  using assms by (auto simp: NotifyJoin_def join_check_def join_dialled_def callHook_def clearAttempts_def
      split: option.split)

text \<open>
  Starting connects a node to the members it can dial: in whatever order the joins that
  \<open>Start\<close> begins are handled, the node has a connection to every member but itself whose address
  resolves, whose metadata carry a port and whose dial succeeds, and to itself it has none.
\<close>

lemma Start_connects_members:
  assumes "mset (map (snd \<circ> snd) es) = mset (initial_joins joined n)"
    and "m \<in> set joined" and "mName m \<noteq> nsId n"
    and "\<forall>(resolves, dial, m') \<in> set es. m' = m \<longrightarrow> resolves \<and> dial \<noteq> None \<and> quicPort m \<noteq> None"
  shows "quicConns (early_joins es n) (mName m) \<noteq> None"
proof -
  have "m \<in> set (initial_joins joined n)" using assms(2,3) by (simp add: initial_joins_filter)
  then have "m \<in> (snd \<circ> snd) ` set es" using assms(1) by (metis list.set_map set_mset_mset)
  then show ?thesis using assms(3,4)
  proof (induction es arbitrary: n)
    case (Cons e es)
    obtain resolves dial m' where e: "e = (resolves, dial, m')" by (cases e)
    let ?n = "snd (NotifyJoin resolves dial m' n)"
    show ?case
    proof (cases "m' = m")
      case True
      then obtain c where "dial = Some c" "resolves" "quicPort m \<noteq> None" using Cons.prems(3) by (auto simp: e)
      then obtain c' where "quicConns ?n (mName m) = Some c'"
        using NotifyJoin_connects [of m n dial c] Cons.prems(2) True by auto
      then show ?thesis using early_joins_keep [of ?n] by (simp add: e)
    next
      case False
      with Cons.prems have "m \<in> (snd \<circ> snd) ` set es" by (auto simp: e)
      with Cons.IH [of ?n] Cons.prems NotifyJoin_facts(1) [of resolves dial m' n] show ?thesis by (simp add: e)
    qed
  qed simp
qed

section \<open>Properties of the lifecycle\<close>

text \<open>The workers run at most once, and only after the channel of mycel was closed.\<close>

definition life_ok :: "lifecycle \<Rightarrow> bool" where
  "life_ok m \<longleftrightarrow> lcWorkers m = (if lcMycelReady m then 1 else 0)"

lemma cancel_facts [simp]:
  "lcWg (cancel m) = lcWg m" "life_ok (cancel m) = life_ok m" "\<not> lcCtx (cancel m)" "lcReady (cancel m) = lcReady m"
  by (simp_all add: cancel_def life_ok_def)

lemma life_ok_update [simp]:
  "life_ok (m\<lparr>lcWg := n\<rparr>) = life_ok m" "life_ok (m\<lparr>lcReady := b\<rparr>) = life_ok m"
  by (simp_all add: life_ok_def)

lemma nodosum_Start_facts:
  "lcWg (nodosum_Start ch m) = lcWg m" "life_ok (nodosum_Start ch m) = life_ok m"
  by (simp_all add: nodosum_Start_def Let_def) (simp_all add: life_ok_def)

lemma mycel_goroutine_facts:
  assumes "mycel_goroutine ch m = Returned r m'"
  shows "lcWg m' = lcWg m \<and> (life_ok m \<longrightarrow> life_ok m')"
proof -
  obtain r1 m1 where s: "mycel_Start ch m = Returned r1 m1"
    using assms by (cases "mycel_Start ch m") (auto simp: mycel_goroutine_def)
  then have 1: "lcWg m1 = lcWg m" "life_ok m \<Longrightarrow> life_ok m1"
    by (auto simp: mycel_Start_def life_ok_def Let_def split: option.split_asm if_split_asm)
  let ?m2 = "if r1 \<noteq> None then cancel m1 else m1"
  have "m' = (if await (lcMycelReady ?m2) (lcMycelCtx ?m2) (pickMycel ch) \<noteq> None then cancel ?m2 else ?m2)"
    using assms s unfolding mycel_goroutine_def Let_def by simp
  then show ?thesis using 1 by simp
qed

lemma Start_effect:
  assumes "Start cfg ch m = Returned r m'"
  shows "lcWg m' = lcWg m + 2 \<and> (life_ok m \<longrightarrow> life_ok m')"
proof -
  let ?g = "if inTime ch then mycel_goroutine ch (nodosum_Start ch m) else mycel_goroutine ch m"
  obtain r1 m1 where g: "?g = Returned r1 m1"
    using assms unfolding Start_def by (cases ?g) auto
  then have 1: "lcWg m1 = lcWg m" "life_ok m \<Longrightarrow> life_ok m1"
    using mycel_goroutine_facts [of ch "nodosum_Start ch m" r1 m1] mycel_goroutine_facts [of ch m r1 m1]
      nodosum_Start_facts [of ch m] by (simp_all split: if_split_asm)
  let ?m2 = "if inTime ch then m1 else nodosum_Start ch m1"
  let ?m3 = "?m2\<lparr>lcWg := lcWg ?m2 + 2\<rparr>"
  have 3: "lcWg ?m3 = lcWg m + 2" "life_ok m \<Longrightarrow> life_ok ?m3"
    using 1 nodosum_Start_facts [of ch m1] by simp_all
  have "m' = cancel ?m3 \<or> m' = ?m3 \<or> m' = ?m3\<lparr>lcReady := True\<rparr>"
    using assms g unfolding Start_def Let_def by (simp split: if_split_asm)
  then show ?thesis using 3 by (elim disjE) (simp_all only: cancel_facts life_ok_update lifecycle.simps simp_thms, simp_all)
qed

lemma Shutdown_effect:
  assumes "Shutdown d m = Returned r m'"
  shows "lcWg m = 2 \<and> lcWg m' = 0 \<and> (life_ok m \<longrightarrow> life_ok m') \<and> \<not> lcCtx m'"
  using assms by (auto simp: Shutdown_def Let_def split: if_split_asm)

lemma life_run_balance:
  "life_run cfg ops m = Some m' \<Longrightarrow> life_ok m \<Longrightarrow>
    life_ok m' \<and> lcWg m' = lcWg m + 2 * int (starts ops) - 2 * int (shutdowns ops)"
proof (induction ops arbitrary: m)
  case Nil
  then show ?case by (simp add: starts_def shutdowns_def)
next
  case (Cons op ops)
  then obtain r m1 where c: "life_call cfg op m = Returned r m1" "life_run cfg ops m1 = Some m'"
    by (auto split: ending.split_asm)
  have "life_ok m1 \<and> lcWg m1 = lcWg m + 2 * int (starts [op]) - 2 * int (shutdowns [op])"
    using c(1) Cons.prems(2) Start_effect [of cfg _ m r m1] Shutdown_effect [of _ m r m1]
    by (cases op) (auto simp: starts_def shutdowns_def)
  with Cons.IH [OF c(2)] show ?case by (cases op) (simp_all add: starts_def shutdowns_def)
qed

lemma life_run_shutdowns:
  "life_run cfg ops m = Some m' \<Longrightarrow> 0 \<le> lcWg m \<Longrightarrow> 0 \<le> lcWg m'"
proof (induction ops arbitrary: m)
  case (Cons op ops)
  then obtain r m1 where c: "life_call cfg op m = Returned r m1" "life_run cfg ops m1 = Some m'"
    by (auto split: ending.split_asm)
  have "0 \<le> lcWg m1"
    using c(1) Cons.prems(2) Start_effect [of cfg _ m r m1] Shutdown_effect [of _ m r m1]
    by (cases op) auto
  with Cons.IH [OF c(2)] show ?case .
qed simp

text \<open>
  C29: A shutdown needs exactly one start. After any history of \<open>Start\<close>, \<open>Shutdown\<close> and cancelled
  contexts, the workers of the cache were started at most once, and \<open>Shutdown\<close>, whose layers
  drain, panics if there were as many shutdowns as starts (a node that was never started, or that
  is shut down twice), returns if there was one start more, and blocks for ever otherwise (a
  start that failed and was tried again).
\<close>

theorem shutdown_needs_one_start:
  assumes "life_run cfg ops fresh = Some m"
  shows "lcWorkers m \<le> 1 \<and> shutdowns ops \<le> starts ops \<and> Shutdown True m =
    (if starts ops = shutdowns ops then Crashed
     else if starts ops = Suc (shutdowns ops) then Returned None (cancel (m\<lparr>lcWg := 0\<rparr>))
     else Blocked)"
proof -
  have "life_ok fresh" "lcWg fresh = 0" by (simp_all add: life_ok_def fresh_def)
  with life_run_balance [OF assms] life_run_shutdowns [OF assms]
  have "life_ok m" "lcWg m = 2 * int (starts ops) - 2 * int (shutdowns ops)" "0 \<le> lcWg m" by simp_all
  then show ?thesis by (auto simp: life_ok_def Shutdown_def Let_def)
qed

definition demo_chance :: chance where
  "demo_chance = \<lparr>inTime = True, pickNodosum = False, pickMycel = False, delayCut = False\<rparr>"

lemma two_starts:
  "life_run demo_config [DoStart (demo_chance\<lparr>inTime := False\<rparr>), DoStart demo_chance] fresh \<noteq> None"
  by (simp add: Start_def mycel_goroutine_def mycel_Start_def nodosum_Start_def fresh_def await_def demo_chance_def
      cancel_def Let_def demo_config_def GetDefaultClusterConfig_def seconds_def)

theorem shutdown_needs_one_start_witness:
  "\<exists>m. life_run demo_config [DoStart (demo_chance\<lparr>inTime := False\<rparr>), DoStart demo_chance] fresh = Some m
    \<and> Shutdown True m = Blocked"
proof -
  obtain m where m: "life_run demo_config [DoStart (demo_chance\<lparr>inTime := False\<rparr>), DoStart demo_chance] fresh = Some m"
    using two_starts by blast
  from shutdown_needs_one_start [OF m] m show ?thesis by (simp add: starts_def shutdowns_def)
qed

text \<open>
  \<open>Start\<close> may hide a failure. If the seed nodes are not joined in time and there is no startup
  delay, \<open>Start\<close> of a new node returns without error and the node counts as ready (\<open>Ready\<close> may
  return without error), although its context is cancelled and no worker runs. With a startup
  delay the same failure is reported. When all goes well, the workers run and \<open>Ready\<close> returns.
\<close>

theorem start_may_hide_failure:
  "(\<not> inTime ch \<and> StartupDelay cfg \<le> 0 \<longrightarrow> (\<exists>m. Start cfg ch fresh = Returned None m \<and> lcReady m \<and> \<not> lcCtx m
      \<and> lcWorkers m = 0 \<and> Ready True m = None))
   \<and> (\<not> inTime ch \<and> 0 < StartupDelay cfg \<longrightarrow>
      (\<exists>m. Start cfg ch fresh = Returned (Some DelayCancelled) m \<and> lcWorkers m = 0))
   \<and> (inTime ch \<and> \<not> delayCut ch \<longrightarrow> (\<exists>m. Start cfg ch fresh = Returned None m \<and> lcCtx m \<and> lcWorkers m = 1
      \<and> Ready pick m = None))"
  by (auto simp: Start_def mycel_goroutine_def mycel_Start_def nodosum_Start_def fresh_def await_def cancel_def
      Ready_def Let_def)

theorem start_may_hide_failure_witness:
  "\<exists>m. Start (demo_config\<lparr>StartupDelay := 0\<rparr>) (demo_chance\<lparr>inTime := False\<rparr>) fresh = Returned None m
    \<and> \<not> lcCtx m \<and> lcWorkers m = 0"
  using start_may_hide_failure [of "demo_chance\<lparr>inTime := False\<rparr>" "demo_config\<lparr>StartupDelay := 0\<rparr>"] by auto

end
