(* ===== verification/Local_Steps.thy ===== *)
theory Local_Steps
  imports Local_Cache
begin

text \<open>
  The operations of one node as sequences of critical sections (\<open>internal/mycel/local.go\<close>):
  \<open>keyVal\<close>, the table of buckets, a bucket and a node each have a mutex of their own, and an
  operation holds at most those of one bucket and one node at a time. Any number of goroutines run
  such operations, one critical section at a time in any order.
\<close>

section \<open>Program points\<close>

text \<open>
  The points between two critical sections, with the local variables that are live there. The
  eviction block holds the bucket's mutex from its first to its last assignment and is one
  step; \<open>DelWalk\<close> and \<open>Push\<close> hold it as well.
\<close>

datatype pc =
    GetStart string string
  | GetFound string string addr
  | GetPush string addr
  | GetRead addr
  | SetStart string string goany instant duration
  | SetLook string string goany gotime
  | SetWrite string addr goany gotime
  | SetMove string addr
  | SetIndex string string addr
  | SetPush string string addr
  | SetGauge string string
  | SetCheck string string
  | SetEvict string string
  | DelStart string string
  | DelWalk string string
  | DelIndex string string
  | DelRoute string string
  | DelGauge string
  | TtlStart string string instant duration
  | TtlWrite string string addr gotime
  | TtlIndex string string addr
  | Finished "error + goany"

abbreviation at_pc :: "pc \<Rightarrow> cache \<Rightarrow> (pc, cache) outcome" where
  "at_pc p c \<equiv> Ret (Inr p) c"

text \<open>
  A goroutine keeps the pointer to its bucket; buckets are never removed or replaced, so the
  bucket of that name is the one it points to.
\<close>

definition bucket_at :: "string \<Rightarrow> cache \<Rightarrow> (lruBucket \<Rightarrow> (pc, cache) outcome) \<Rightarrow> (pc, cache) outcome" where
  "bucket_at bn c f = (case lruBuckets c bn of None \<Rightarrow> Panic | Some b \<Rightarrow> f b)"

fun pc_step :: "pc \<Rightarrow> cache \<Rightarrow> (pc, cache) outcome" where
  "pc_step (GetStart bn k) c =
     (case keyVal_Get (bn @ k) c of None \<Rightarrow> at_pc (Finished (Inl ERR_NOT_FOUND)) c | Some n \<Rightarrow> at_pc (GetFound bn k n) c)"
| "pc_step (GetFound bn k n) c =
     (case GetBucket bn c of Inl e \<Rightarrow> at_pc (Finished (Inl e)) c | Inr b \<Rightarrow> at_pc (GetPush bn n) c)"
| "pc_step (GetPush bn n) c = bucket_at bn c (\<lambda>b. at_pc (GetRead n) (put_list bn (Push n b (heapOf c)) c))"
| "pc_step (GetRead n) c = at_pc (Finished (Inr (ndata (heapOf c n)))) c"
| "pc_step (SetStart bn k v now ttl) c =
     (case GetBucket bn c of Inl e \<Rightarrow> at_pc (Finished (Inl e)) c | Inr b \<Rightarrow> at_pc (SetLook bn k v (expiry now ttl)) c)"
| "pc_step (SetLook bn k v e) c =
     (case keyVal_Get (bn @ k) c of
        Some n \<Rightarrow> at_pc (SetWrite bn n v e) c
      | None \<Rightarrow> at_pc (SetIndex bn k (freshAddr c)) (c\<lparr>freshAddr := Suc (freshAddr c), heapOf := (heapOf c)(freshAddr c :=
          \<lparr>nnext = None, nprev = None, nkey = k, ndata = v, nexpiresAt = e\<rparr>)\<rparr>))"
| "pc_step (SetWrite bn n v e) c = at_pc (SetMove bn n)
     (c\<lparr>heapOf := (heapOf c)(n := (heapOf c n)\<lparr>ndata := v, nexpiresAt := e\<rparr>)\<rparr>)"
| "pc_step (SetMove bn n) c =
     bucket_at bn c (\<lambda>b. at_pc (Finished (Inr ANil)) (put_list bn (Push n b (heapOf c)) c))"
| "pc_step (SetIndex bn k n) c = at_pc (SetPush bn k n) (keyVal_Set (bn @ k) n c)"
| "pc_step (SetPush bn k n) c = bucket_at bn c (\<lambda>b. at_pc (SetGauge bn k) (put_list bn (Push n b (heapOf c)) c))"
| "pc_step (SetGauge bn k) c = at_pc (SetCheck bn k) (recordBucketSize bn 1 c)"
| "pc_step (SetCheck bn k) c =
     bucket_at bn c (\<lambda>b. at_pc (if bMaxLen b < bLen b then SetEvict bn k else Finished (Inr ANil)) c)"
| "pc_step (SetEvict bn k) c = bucket_at bn c (\<lambda>b. case evictTail bn k b c of
        Ret r c' \<Rightarrow> at_pc (Finished (Inr ANil)) c' | Panic \<Rightarrow> Panic | Hang \<Rightarrow> Hang)"
| "pc_step (DelStart bn k) c =
     (case GetBucket bn c of Inl e \<Rightarrow> at_pc (Finished (Inl e)) c | Inr b \<Rightarrow> at_pc (DelWalk bn k) c)"
| "pc_step (DelWalk bn k) c = bucket_at bn c (\<lambda>b. case Delete k b (heapOf c) of
        None \<Rightarrow> Hang
      | Some (False, bh) \<Rightarrow> at_pc (Finished (Inl ERR_NOT_FOUND)) c
      | Some (True, bh) \<Rightarrow> at_pc (DelIndex bn k) (put_list bn bh c))"
| "pc_step (DelIndex bn k) c = at_pc (DelRoute bn k) (keyVal_Delete (bn @ k) c)"
| "pc_step (DelRoute bn k) c = at_pc (DelGauge bn) (c\<lparr>nodeScoreHashMap := (nodeScoreHashMap c)(bn @ k := None)\<rparr>)"
| "pc_step (DelGauge bn) c = at_pc (Finished (Inr ANil)) (recordBucketSize bn (-1) c)"
| "pc_step (TtlStart bn k now ttl) c =
     (case keyVal_Get (bn @ k) c of None \<Rightarrow> at_pc (Finished (Inl ERR_NOT_FOUND)) c
      | Some n \<Rightarrow> at_pc (TtlWrite bn k n (Some (now + ttl))) c)"
| "pc_step (TtlWrite bn k n e) c =
     at_pc (TtlIndex bn k n) (c\<lparr>heapOf := (heapOf c)(n := (heapOf c n)\<lparr>nexpiresAt := e\<rparr>)\<rparr>)"
| "pc_step (TtlIndex bn k n) c = at_pc (Finished (Inr ANil)) (keyVal_Set (bn @ k) n c)"
| "pc_step (Finished r) c = at_pc (Finished r) c"

section \<open>One goroutine alone\<close>

text \<open>A goroutine that is not interrupted; the operations have at most eight critical sections.\<close>

fun solo :: "nat \<Rightarrow> pc \<Rightarrow> cache \<Rightarrow> (goany, cache) outcome" where
  "solo fuel (Finished r) c = Ret r c"
| "solo 0 p c = Hang"
| "solo (Suc fuel) p c =
     (case pc_step p c of Ret (Inr p') c' \<Rightarrow> solo fuel p' c' | Ret (Inl e) c' \<Rightarrow> Ret (Inl e) c'
      | Panic \<Rightarrow> Panic | Hang \<Rightarrow> Hang)"

fun start_pc :: "local_op \<Rightarrow> pc" where
  "start_pc (OpGet bn k) = GetStart bn k"
| "start_pc (OpSet now bn k v ttl) = SetStart bn k v now ttl"
| "start_pc (OpDelete bn k) = DelStart bn k"
| "start_pc (OpSetTtl now bn k ttl) = TtlStart bn k now ttl"
| "start_pc (OpCreate bn ttl m) = Finished (Inr ANil)"

fun creates :: "local_op \<Rightarrow> bool" where
  "creates (OpCreate bn ttl m) = True"
| "creates op = False"

lemma put_list_same: "put_list bn bh c = put_list bn bh c'"
  if "c' = c\<lparr>heapOf := h\<rparr>" for h
  using that by (simp add: put_list_def)

lemma solo_eval:
  "\<not> (\<exists>r. p = Finished r) \<Longrightarrow> solo (numeral n) p c =
     (case pc_step p c of Ret (Inr p') c' \<Rightarrow> solo (pred_numeral n) p' c' | Ret (Inl e) c' \<Rightarrow> Ret (Inl e) c'
      | Panic \<Rightarrow> Panic | Hang \<Rightarrow> Hang)"
  by (cases p) (simp_all add: numeral_eq_Suc)

text \<open>
  The critical sections make up the operations. A goroutine that is not interrupted computes
  the operation of the atomic model, panics and loops included, so the two models of the code agree.
\<close>

theorem solo_is_operation:
  assumes "\<not> creates op"
  shows "solo 8 (start_pc op) c = exec op c"
proof (cases op)
  case (OpGet bn k)
  then show ?thesis
    by (simp add: solo_eval getLocal_def bucket_at_def GetBucket_def Let_def put_list_def split: option.split sum.split)
next
  case (OpSet now bn k v ttl)
  then show ?thesis
    by (simp add: solo_eval setLocal_def as_value_def bucket_at_def GetBucket_def Let_def cache_updates evictTail_def
        split: option.split sum.split)
next
  case (OpDelete bn k)
  then show ?thesis
    by (simp add: solo_eval deleteLocal_def as_value_def bucket_at_def GetBucket_def Let_def cache_updates
        split: option.split sum.split prod.split bool.split)
next
  case (OpSetTtl now bn k ttl)
  then show ?thesis
    by (simp add: solo_eval setTtlLocal_def as_value_def bucket_at_def Let_def cache_updates split: option.split)
qed (use assms in simp)

section \<open>Interleavings\<close>

text \<open>
  A node with its running operations. \<open>conc_step\<close> lets one of them pass one critical section;
  \<open>calm_step\<close> leaves out the steps after which an eviction is due (what an eviction does to the
  list is the subject of \<open>Local_Cache\<close>).
\<close>

inductive conc_step :: "pc list \<times> cache \<Rightarrow> pc list \<times> cache \<Rightarrow> bool" where
  goroutine: "i < length ps \<Longrightarrow> pc_step (ps ! i) c = Ret (Inr p') c' \<Longrightarrow> conc_step (ps, c) (ps[i := p'], c')"





















section \<open>Properties\<close>





fun run_schedule :: "nat list \<Rightarrow> pc list \<times> cache \<Rightarrow> (pc list \<times> cache) option" where
  "run_schedule [] s = Some s"
| "run_schedule (i # is) (ps, c) =
     (if i < length ps
      then (case pc_step (ps ! i) c of Ret (Inr p') c' \<Rightarrow> run_schedule is (ps[i := p'], c') | _ \<Rightarrow> None)
      else None)"

lemma run_schedule_steps: "run_schedule is s = Some t \<Longrightarrow> conc_step\<^sup>*\<^sup>* s t"
proof (induction "is" s rule: run_schedule.induct)
  case (2 i "is" ps c)
  then obtain p' c' where p: "i < length ps" "pc_step (ps ! i) c = Ret (Inr p') c'" "run_schedule is (ps[i := p'], c') = Some t"
    by (auto split: if_split_asm outcome.split_asm sum.split_asm)
  then have "conc_step\<^sup>*\<^sup>* (ps[i := p'], c') t" using "2.IH" by blast
  with conc_step.goroutine [OF p(1,2)] show ?case by (rule converse_rtranclp_into_rtranclp)
qed simp

text \<open>
  C39: A read can bring a deleted entry back. If a \<open>Get\<close> has looked the key up when a \<open>Delete\<close> of it runs,
  and goes on afterwards, both succeed, the \<open>Get\<close> with a \<open>nil\<close> value. The node of the deleted key
  is then at the front of the bucket, counted by its length, but neither in \<open>keyVal\<close> nor
  in the size instrument: it takes up room until it is evicted, and no operation finds it.
\<close>

theorem get_revives_deleted:
  assumes ok: "cache_ok c L" and b: "lruBuckets c bn = Some b" and kv: "keyVal c (bn @ k) = Some n"
  shows "\<exists>c' b'. run_schedule [0, 1, 1, 1, 1, 1, 0, 0, 0] ([GetStart bn k, DelStart bn k], c)
        = Some ([Finished (Inr ANil), Finished (Inr ANil)], c')
    \<and> keyVal c' (bn @ k) = None \<and> lruBuckets c' bn = Some b' \<and> lru_list b' (heapOf c') (n # remove1 n (L bn)) None
    \<and> nkey (heapOf c' n) = k \<and> bLen b' = bLen b \<and> sizeGauge c' bn = bLen b' - 1"
proof -
  from keyVal_in_bucket [OF ok b kv] have n: "n \<in> set (L bn)" and key: "nkey (heapOf c n) = k" by auto
  note list = cache_okD(2) [OF ok b]
  have dist: "distinct (L bn)" by (rule cache_ok_distinct [OF ok])
  obtain b1 h1 where bh: "delete_node n b (heapOf c) = (b1, h1)" by fastforce
  have del: "Delete k b (heapOf c) = Some (True, b1, h1)"
    using Delete_list [OF list, of k] kv keyVal_find [OF ok b] bh by simp
  have D: "lru_list b1 h1 (remove1 n (L bn)) None" using delete_node_list(1) [OF list n] bh by simp
  have N: "nkey (h1 n) = k" "nnext (h1 n) = None" "nprev (h1 n) = None" "ndata (h1 n) = ANil"
    using delete_node_self [of n b "heapOf c"] bh key by simp_all
  have out: "n \<notin> set (remove1 n (L bn))" using dist by simp
  obtain b2 h2 where bh2: "Push n b1 h1 = (b2, h2)" by fastforce
  have P: "lru_list b2 h2 (n # remove1 n (L bn)) None" "nkey (h2 n) = k" "ndata (h2 n) = ANil"
    using Push_new(1) [OF D out _ N(2,3)] Push_payload(1,2) [of n b1 h1 n] bh2 N by simp_all
  have len: "bLen b2 = bLen b"
    using P(1) list n length_pos_if_in_set [OF n] by (simp add: lru_list_def length_remove1)
  have "sizeGauge c bn = bLen b" using cache_okD(8) [OF ok] list by (simp add: lru_list_def)
  with b kv del bh2 P len show ?thesis
    by (simp add: keyVal_Get_def bucket_at_def cache_updates)
qed

text \<open>
  Two concurrent writes of a new key both insert a node: the bucket then has two nodes for the
  key, of which \<open>keyVal\<close> knows the one indexed last.
\<close>

lemma concurrent_sets_duplicate:
  assumes ok: "cache_ok c L" and b: "lruBuckets c bn = Some b" and kv: "keyVal c (bn @ k) = None"
    and room: "bLen b + 2 \<le> bMaxLen b"
  shows "\<exists>c' b'. run_schedule [0, 1, 0, 1, 0, 1, 0, 1, 0, 1, 0, 1]
        ([SetStart bn k v now ttl, SetStart bn k v' now' ttl'], c)
        = Some ([Finished (Inr ANil), Finished (Inr ANil)], c')
    \<and> lruBuckets c' bn = Some b' \<and> keyVal c' (bn @ k) = Some (Suc (freshAddr c))
    \<and> lru_list b' (heapOf c') (Suc (freshAddr c) # freshAddr c # L bn) None
    \<and> nkey (heapOf c' (freshAddr c)) = k \<and> nkey (heapOf c' (Suc (freshAddr c))) = k"
proof -
  let ?n = "freshAddr c"
  let ?h = "(heapOf c)(?n := \<lparr>nnext = None, nprev = None, nkey = k, ndata = v, nexpiresAt = expiry now ttl\<rparr>,
    Suc ?n := \<lparr>nnext = None, nprev = None, nkey = k, ndata = v', nexpiresAt = expiry now' ttl'\<rparr>)"
  have out: "?n \<notin> set (L bn)" "Suc ?n \<notin> set (L bn)"
    using cache_okD(6) [OF ok, of ?n bn] cache_okD(6) [OF ok, of "Suc ?n" bn] by auto
  have l0: "lru_list b ?h (L bn) None" using cache_okD(2) [OF ok b] out by (simp add: lru_list_def)
  obtain b1 h1 where p1: "Push ?n b ?h = (b1, h1)" by fastforce
  have l1: "lru_list b1 h1 (?n # L bn) None" "h1 (Suc ?n) = ?h (Suc ?n)" "nkey (h1 ?n) = k"
    using Push_new [OF l0 out(1)] Push_payload(1) [of ?n b ?h ?n] p1 out by simp_all
  obtain b2 h2 where p2: "Push (Suc ?n) b1 h1 = (b2, h2)" by fastforce
  have l2: "lru_list b2 h2 (Suc ?n # ?n # L bn) None" "nkey (h2 ?n) = k" "nkey (h2 (Suc ?n)) = k"
    using Push_new(1) [OF l1(1), of "Suc ?n"] Push_payload(1) [of "Suc ?n" b1 h1] p2 out l1(2,3) by simp_all
  have len: "bLen b2 = bLen b + 2" "bMaxLen b2 = bMaxLen b"
    using l2(1) cache_okD(2) [OF ok b] Push_config(3) [of ?n b ?h] Push_config(3) [of "Suc ?n" b1 h1] p1 p2
    by (simp_all add: lru_list_def)
  with b kv p1 p2 l2 room show ?thesis
    by (simp add: keyVal_Get_def bucket_at_def cache_updates)
qed

theorem solo_is_operation_witness:
  "solo 8 (start_pc (OpSet 5 ''s'' ''k'' (AInt 1) 0)) (initCache ''n'' 3) = Ret (Inl ErrBucketNotFound) (initCache ''n'' 3)"
  using solo_is_operation [of "OpSet 5 ''s'' ''k'' (AInt 1) 0" "initCache ''n'' 3"]
  by (simp add: setLocal_def as_value_def GetBucket_def initCache_def)




theorem get_revives_deleted_witness:
  "\<exists>c' n b'. run_schedule [0, 1, 1, 1, 1, 1, 0, 0, 0] ([GetStart ''s'' ''a'', DelStart ''s'' ''a''], full_demo)
      = Some ([Finished (Inr ANil), Finished (Inr ANil)], c')
    \<and> keyVal c' (''s'' @ ''a'') = None \<and> lruBuckets c' ''s'' = Some b' \<and> bHead b' = Some n \<and> nkey (heapOf c' n) = ''a''"
proof -
  obtain L where ok: "cache_ok full_demo L"
    and st: "store_of full_demo L = [''s'' \<mapsto> (2, [(''b'', AInt 2, None)] @ [(''a'', AInt 1, None)])]"
    using refines_full_demo by (auto simp: refines_def)
  then have "store_of full_demo L ''s'' = Some (2, [(''b'', AInt 2, None), (''a'', AInt 1, None)])" by simp
  then obtain b where b: "lruBuckets full_demo ''s'' = Some b"
    and es: "map (entry_of (heapOf full_demo)) (L ''s'') = [(''b'', AInt 2, None), (''a'', AInt 1, None)]"
    unfolding store_of_Some by metis
  have "lookup ''a'' (map (entry_of (heapOf full_demo)) (L ''s'')) \<noteq> None" unfolding es by (simp add: lookup_def)
  then obtain n where kv: "keyVal full_demo (''s'' @ ''a'') = Some n"
    unfolding lookup_index [OF ok b] by (cases "keyVal full_demo (''s'' @ ''a'')") simp_all
  from get_revives_deleted [OF ok b kv] show ?thesis by (fastforce simp: lru_list_def)
qed

end
