(* ===== verification/Linearization.thy ===== *)
theory Linearization
  imports Local_Steps "HOL-Library.Multiset"
begin

text \<open>
  Concurrent reads, overwrites and ttl updates of one node (\<open>internal/mycel/local.go\<close>) that neither
  insert nor delete keys: their critical sections, however interleaved, keep the index and the
  lists in agreement, and the values read are those of the operations executed one after the
  other.
\<close>

section \<open>The sequential specification\<close>

text \<open>What a node stores, by bucket and key: the value and its expiry time, without the recency.\<close>

type_synonym contents = "string \<Rightarrow> string \<rightharpoonup> goany \<times> gotime"

definition contents :: "cache \<Rightarrow> contents" where
  "contents c bn k = (case lruBuckets c bn of None \<Rightarrow> None
     | Some b \<Rightarrow> map_option (\<lambda>n. (ndata (heapOf c n), nexpiresAt (heapOf c n))) (keyVal c (bn @ k)))"

fun map_exec :: "local_op \<Rightarrow> contents \<Rightarrow> (error + goany) \<times> contents" where
  "map_exec (OpGet bn k) M = (case M bn k of None \<Rightarrow> Inl ERR_NOT_FOUND | Some (v, t) \<Rightarrow> Inr v, M)"
| "map_exec (OpSet now bn k v ttl) M = (Inr ANil, M(bn := (M bn)(k \<mapsto> (v, expiry now ttl))))"
| "map_exec (OpSetTtl now bn k ttl) M = (case M bn k of
       None \<Rightarrow> (Inl ERR_NOT_FOUND, M)
     | Some (v, t) \<Rightarrow> (Inr ANil, M(bn := (M bn)(k \<mapsto> (v, Some (now + ttl))))))"
| "map_exec op M = (Inr ANil, M)"

text \<open>The operations with the given numbers, one after the other, with their results.\<close>

fun in_order :: "local_op list \<Rightarrow> nat list \<Rightarrow> (nat \<rightharpoonup> error + goany) \<times> contents \<Rightarrow> (nat \<rightharpoonup> error + goany) \<times> contents" where
  "in_order ops [] s = s"
| "in_order ops (i # is) (R, M) = (case map_exec (ops ! i) M of (r, M') \<Rightarrow> in_order ops is (R(i \<mapsto> r), M'))"

section \<open>Linearisation points\<close>

text \<open>The section in which an operation takes effect: the one that reads or writes the node's data.\<close>

fun takes_effect :: "cache \<Rightarrow> pc \<Rightarrow> bool" where
  "takes_effect c (GetStart bn k) = (keyVal c (bn @ k) = None)"
| "takes_effect c (GetRead n) = True"
| "takes_effect c (SetWrite bn n v e) = True"
| "takes_effect c (TtlStart bn k now ttl) = (keyVal c (bn @ k) = None)"
| "takes_effect c (TtlWrite bn k n e) = True"
| "takes_effect c p = False"

text \<open>The operations of a schedule in the order in which they take effect.\<close>

fun effect_order :: "nat list \<Rightarrow> pc list \<times> cache \<Rightarrow> nat list" where
  "effect_order [] s = []"
| "effect_order (i # is) (ps, c) = (if takes_effect c (ps ! i) then [i] else [])
     @ (case pc_step (ps ! i) c of Ret (Inr p') c' \<Rightarrow> effect_order is (ps[i := p'], c') | _ \<Rightarrow> [])"

text \<open>Operations on existing buckets that insert and delete no key.\<close>

fun keeps_keys :: "cache \<Rightarrow> local_op \<Rightarrow> bool" where
  "keeps_keys c (OpGet bn k) = (bn \<in> dom (lruBuckets c))"
| "keeps_keys c (OpSet now bn k v ttl) = (bn \<in> dom (lruBuckets c) \<and> keyVal c (bn @ k) \<noteq> None)"
| "keeps_keys c (OpSetTtl now bn k ttl) = (bn \<in> dom (lruBuckets c))"
| "keeps_keys c op = False"

text \<open>Where a goroutine can be, and the result of its operation if that has taken effect.\<close>

fun at_point :: "cache \<Rightarrow> local_op \<Rightarrow> pc \<Rightarrow> (error + goany) option \<Rightarrow> bool" where
  "at_point c (OpGet bn k) p r = (case keyVal c (bn @ k) of
       None \<Rightarrow> p = GetStart bn k \<and> r = None \<or> (\<exists>x. p = Finished x \<and> r = Some x)
     | Some n \<Rightarrow> p \<in> {GetStart bn k, GetFound bn k n, GetPush bn n, GetRead n} \<and> r = None
         \<or> (\<exists>x. p = Finished x \<and> r = Some x))"
| "at_point c (OpSet now bn k v ttl) p r = (case keyVal c (bn @ k) of
       None \<Rightarrow> False
     | Some n \<Rightarrow> p \<in> {SetStart bn k v now ttl, SetLook bn k v (expiry now ttl), SetWrite bn n v (expiry now ttl)} \<and> r = None
         \<or> p \<in> {SetMove bn n, Finished (Inr ANil)} \<and> r = Some (Inr ANil))"
| "at_point c (OpSetTtl now bn k ttl) p r = (case keyVal c (bn @ k) of
       None \<Rightarrow> p = TtlStart bn k now ttl \<and> r = None \<or> (\<exists>x. p = Finished x \<and> r = Some x)
     | Some n \<Rightarrow> p \<in> {TtlStart bn k now ttl, TtlWrite bn k n (Some (now + ttl))} \<and> r = None
         \<or> p \<in> {TtlIndex bn k n, Finished (Inr ANil)} \<and> r = Some (Inr ANil))"
| "at_point c op p r = False"

lemma at_point_start: "keeps_keys c op \<Longrightarrow> at_point c op (start_pc op) None"
  by (cases op) (auto split: option.split)

lemma at_point_finished: "at_point c op (Finished x) r \<Longrightarrow> r = Some x"
  by (cases op) (auto split: option.split_asm)

lemma at_point_cong: "keyVal c' = keyVal c \<Longrightarrow> at_point c' op p r = at_point c op p r"
  by (cases op) simp_all

lemma keeps_keys_cong:
  "keyVal c' = keyVal c \<Longrightarrow> dom (lruBuckets c') = dom (lruBuckets c) \<Longrightarrow> keeps_keys c' op = keeps_keys c op"
  by (cases op) simp_all

section \<open>One critical section\<close>

text \<open>The states an interleaving keeps: the same nodes in every list, the same index.\<close>

definition same_keys :: "cache \<Rightarrow> (string \<Rightarrow> addr list) \<Rightarrow> cache \<Rightarrow> (string \<Rightarrow> addr list) \<Rightarrow> bool" where
  "same_keys c L c' L' \<longleftrightarrow> cache_ok c' L' \<and> (\<forall>bn. mset (L' bn) = mset (L bn)) \<and> keyVal c' = keyVal c
     \<and> dom (lruBuckets c') = dom (lruBuckets c)"

lemma same_keys_refl: "cache_ok c L \<Longrightarrow> same_keys c L c L"
  by (simp add: same_keys_def)

lemma same_keys_trans: "same_keys c L c1 L1 \<Longrightarrow> same_keys c1 L1 c2 L2 \<Longrightarrow> same_keys c L c2 L2"
  by (simp add: same_keys_def)

lemma push_keeps:
  assumes ok: "cache_ok c L" and b: "lruBuckets c bn = Some b" and kv: "keyVal c (bn @ k) = Some n"
  shows "\<exists>L'. same_keys c L (put_list bn (Push n b (heapOf c)) c) L'"
    and "contents (put_list bn (Push n b (heapOf c)) c) = contents c"
proof -
  have n: "n \<in> set (L bn)" using keyVal_in_bucket [OF ok b kv] by simp
  have "heapOf c = (heapOf c)(n := (heapOf c n)\<lparr>ndata := ndata (heapOf c n), nexpiresAt := nexpiresAt (heapOf c n)\<rparr>)"
    by simp
  note T = touch_node(1) [OF ok b n this]
  have "mset (n # remove1 n (L bn)) = mset (L bn)" using n by simp
  moreover have "dom (lruBuckets (put_list bn (Push n b (heapOf c)) c)) = dom (lruBuckets c)" using b by auto
  ultimately show "\<exists>L'. same_keys c L (put_list bn (Push n b (heapOf c)) c) L'"
    unfolding same_keys_def by (intro exI [of _ "L(bn := n # remove1 n (L bn))"]) (simp add: T)
  show "contents (put_list bn (Push n b (heapOf c)) c) = contents c"
    using b by (auto simp: fun_eq_iff contents_def split: option.split)
qed

lemma payload_keeps:
  fixes v :: goany and t :: gotime
  assumes ok: "cache_ok c L" and b: "lruBuckets c bn = Some b" and kv: "keyVal c (bn @ k) = Some n"
  defines "c' \<equiv> c\<lparr>heapOf := (heapOf c)(n := (heapOf c n)\<lparr>ndata := v, nexpiresAt := t\<rparr>)\<rparr>"
  shows "same_keys c L c' L" and "contents c' = (contents c)(bn := (contents c bn)(k \<mapsto> (v, t)))"
proof -
  let ?h = "(heapOf c)(n := (heapOf c n)\<lparr>ndata := v, nexpiresAt := t\<rparr>)"
  have lists: "lru_list b2 ?h xs None = lru_list b2 (heapOf c) xs None" for b2 xs
    by (rule iffI; erule lru_list_links; simp)
  have keys: "nkey (?h a) = nkey (heapOf c a)" for a by simp
  have "cache_ok c' L"
    using ok unfolding cache_ok_def c'_def by (simp add: lists keys del: fun_upd_apply)
  then show "same_keys c L c' L" by (simp add: same_keys_def c'_def)
  from keyVal_in_bucket [OF ok b kv] have n: "n \<in> set (L bn)" "nkey (heapOf c n) = k" by auto
  have one: "bn' = bn \<and> k' = k" if "lruBuckets c bn' = Some b'" "keyVal c (bn' @ k') = Some n" for bn' k' b'
  proof -
    have n': "n \<in> set (L bn')" "nkey (heapOf c n) = k'" using keyVal_in_bucket [OF ok that] by blast+
    have "bn' = bn" by (rule cache_ok_disjoint [OF ok n'(1) n(1)])
    with n(2) n'(2) show ?thesis by simp
  qed
  show "contents c' = (contents c)(bn := (contents c bn)(k \<mapsto> (v, t)))"
  proof (intro ext)
    fix bn' k'
    show "contents c' bn' k' = ((contents c)(bn := (contents c bn)(k \<mapsto> (v, t)))) bn' k'"
    proof (cases "lruBuckets c bn'")
      case None
      then show ?thesis using b by (auto simp: contents_def c'_def)
    next
      case (Some b')
      then show ?thesis using one [OF Some, of k'] b kv
        by (cases "keyVal c (bn' @ k')") (auto simp: contents_def c'_def)
    qed
  qed
qed

lemma contents_hit:
  "lruBuckets c bn = Some b \<Longrightarrow> contents c bn k = map_option (\<lambda>n. (ndata (heapOf c n), nexpiresAt (heapOf c n))) (keyVal c (bn @ k))"
  by (simp add: contents_def)

text \<open>
  A critical section at a point of its operation: it returns, keeps the keys, and changes the
  contents only as the operation does, and only if it is the one that takes effect.
\<close>

definition section_ok :: "cache \<Rightarrow> (string \<Rightarrow> addr list) \<Rightarrow> local_op \<Rightarrow> pc \<Rightarrow> (error + goany) option \<Rightarrow> bool" where
  "section_ok c L op p r \<longleftrightarrow> (\<exists>p' c' L'. pc_step p c = Ret (Inr p') c' \<and> same_keys c L c' L'
     \<and> (if takes_effect c p
        then r = None \<and> at_point c op p' (Some (fst (map_exec op (contents c)))) \<and> contents c' = snd (map_exec op (contents c))
        else at_point c op p' r \<and> contents c' = contents c))"

lemma section_same:
  assumes "cache_ok c L" and "pc_step p c = Ret (Inr p') c" and "\<not> takes_effect c p" and "at_point c op p' r"
  shows "section_ok c L op p r"
  using assms same_keys_refl unfolding section_ok_def by auto

lemma section_push:
  assumes ok: "cache_ok c L" and b: "lruBuckets c bn = Some b" and kv: "keyVal c (bn @ k) = Some n"
    and "pc_step p c = at_pc p' (put_list bn (Push n b (heapOf c)) c)" and "\<not> takes_effect c p" and "at_point c op p' r"
  shows "section_ok c L op p r"
  using push_keeps [OF ok b kv] assms(4-6) unfolding section_ok_def by auto

lemma section_get:
  assumes ok: "cache_ok c L" and b: "lruBuckets c bn = Some b" and p: "at_point c (OpGet bn k) p r"
  shows "section_ok c L (OpGet bn k) p r"
proof (cases "keyVal c (bn @ k)")
  case None
  with p consider "p = GetStart bn k" "r = None" | x where "p = Finished x" "r = Some x" by auto
  then show ?thesis
  proof cases
    case 1
    with None show ?thesis
      unfolding section_ok_def using same_keys_refl [OF ok] by (auto simp: keyVal_Get_def contents_hit [OF b])
  next
    case (2 x)
    with None show ?thesis by (intro section_same [OF ok, where p' = "Finished x"]) simp_all
  qed
next
  case (Some n)
  with p consider "p = GetStart bn k" "r = None" | "p = GetFound bn k n" "r = None" | "p = GetPush bn n" "r = None"
    | "p = GetRead n" "r = None" | x where "p = Finished x" "r = Some x" by auto
  then show ?thesis
  proof cases
    case 3
    with Some b show ?thesis by (intro section_push [OF ok b Some, where p' = "GetRead n"]) (simp_all add: bucket_at_def)
  next
    case 4
    with Some show ?thesis
      unfolding section_ok_def using same_keys_refl [OF ok] by (auto simp: contents_hit [OF b])
  next
    case 1
    with Some show ?thesis by (intro section_same [OF ok, where p' = "GetFound bn k n"]) (simp_all add: keyVal_Get_def)
  next
    case 2
    with Some b show ?thesis by (intro section_same [OF ok, where p' = "GetPush bn n"]) simp_all
  next
    case (5 x)
    with Some show ?thesis by (intro section_same [OF ok, where p' = "Finished x"]) simp_all
  qed
qed

lemma section_set:
  assumes ok: "cache_ok c L" and b: "lruBuckets c bn = Some b" and p: "at_point c (OpSet now bn k v ttl) p r"
  shows "section_ok c L (OpSet now bn k v ttl) p r"
proof -
  obtain n where kv: "keyVal c (bn @ k) = Some n" using p by (auto split: option.split_asm)
  with p consider "p = SetStart bn k v now ttl" "r = None" | "p = SetLook bn k v (expiry now ttl)" "r = None"
    | "p = SetWrite bn n v (expiry now ttl)" "r = None" | "p = SetMove bn n" "r = Some (Inr ANil)"
    | "p = Finished (Inr ANil)" "r = Some (Inr ANil)" by auto
  then show ?thesis
  proof cases
    case 3
    with kv payload_keeps [OF ok b kv, where v = v and t = "expiry now ttl"] show ?thesis
      unfolding section_ok_def by auto
  next
    case 4
    with kv b show ?thesis by (intro section_push [OF ok b kv, where p' = "Finished (Inr ANil)"]) (simp_all add: bucket_at_def)
  next
    case 1
    with kv b show ?thesis by (intro section_same [OF ok, where p' = "SetLook bn k v (expiry now ttl)"]) simp_all
  next
    case 2
    with kv b show ?thesis
      by (intro section_same [OF ok, where p' = "SetWrite bn n v (expiry now ttl)"]) (simp_all add: keyVal_Get_def)
  next
    case 5
    with kv show ?thesis by (intro section_same [OF ok, where p' = "Finished (Inr ANil)"]) simp_all
  qed
qed

lemma section_ttl:
  assumes ok: "cache_ok c L" and b: "lruBuckets c bn = Some b" and p: "at_point c (OpSetTtl now bn k ttl) p r"
  shows "section_ok c L (OpSetTtl now bn k ttl) p r"
proof (cases "keyVal c (bn @ k)")
  case None
  with p consider "p = TtlStart bn k now ttl" "r = None" | x where "p = Finished x" "r = Some x" by auto
  then show ?thesis
  proof cases
    case 1
    with None show ?thesis
      unfolding section_ok_def using same_keys_refl [OF ok] by (auto simp: keyVal_Get_def contents_hit [OF b])
  next
    case (2 x)
    with None show ?thesis by (intro section_same [OF ok, where p' = "Finished x"]) simp_all
  qed
next
  case (Some n)
  with p consider "p = TtlStart bn k now ttl" "r = None" | "p = TtlWrite bn k n (Some (now + ttl))" "r = None"
    | "p = TtlIndex bn k n" "r = Some (Inr ANil)" | "p = Finished (Inr ANil)" "r = Some (Inr ANil)" by auto
  then show ?thesis
  proof cases
    case 2
    have same: "(heapOf c n)\<lparr>nexpiresAt := t\<rparr> = (heapOf c n)\<lparr>ndata := ndata (heapOf c n), nexpiresAt := t\<rparr>" for t by simp
    from 2 Some payload_keeps [OF ok b Some, where v = "ndata (heapOf c n)" and t = "Some (now + ttl)"] show ?thesis
      unfolding section_ok_def by (auto simp: contents_hit [OF b] same [symmetric])
  next
    case 3
    have "keyVal_Set (bn @ k) n c = c" using Some by (simp add: keyVal_Set_def fun_upd_idem)
    with 3 Some show ?thesis by (intro section_same [OF ok, where p' = "Finished (Inr ANil)"]) simp_all
  next
    case 1
    with Some show ?thesis
      by (intro section_same [OF ok, where p' = "TtlWrite bn k n (Some (now + ttl))"]) (simp_all add: keyVal_Get_def)
  next
    case 4
    with Some show ?thesis by (intro section_same [OF ok, where p' = "Finished (Inr ANil)"]) simp_all
  qed
qed

lemma sections_ok:
  assumes "cache_ok c L" and "keeps_keys c op" and "at_point c op p r"
  shows "section_ok c L op p r"
  using assms section_get section_set section_ttl by (cases op) (auto simp del: at_point.simps)

section \<open>Schedules\<close>

lemma in_order_other: "i \<notin> set is \<Longrightarrow> fst (in_order ops is (R, M)) i = R i"
proof (induction "is" arbitrary: R M)
  case (Cons j js)
  obtain r M' where "map_exec (ops ! j) M = (r, M')" by fastforce
  with Cons show ?case by simp
qed simp

definition in_progress :: "local_op list \<Rightarrow> pc list \<Rightarrow> cache \<Rightarrow> (nat \<rightharpoonup> error + goany) \<Rightarrow> bool" where
  "in_progress ops ps c R \<longleftrightarrow> length ps = length ops
     \<and> (\<forall>i < length ops. keeps_keys c (ops ! i) \<and> at_point c (ops ! i) (ps ! i) (R i))"

lemma in_progress_step:
  assumes "in_progress ops ps c R" and "same_keys c L c' L'" and "at_point c (ops ! i) p' r"
  shows "in_progress ops (ps[i := p']) c' (R(i := r))"
  using assms unfolding in_progress_def same_keys_def
  by (auto simp: nth_list_update at_point_cong [of c' c] keeps_keys_cong [of c' c])

text \<open>Any schedule runs to its end and executes the operations in their effect order.\<close>

lemma schedule_in_order:
  assumes "cache_ok c L" and "in_progress ops ps c R" and "set is \<subseteq> {..<length ops}"
  shows "\<exists>ps' c' L'. run_schedule is (ps, c) = Some (ps', c') \<and> same_keys c L c' L'
    \<and> in_progress ops ps' c' (fst (in_order ops (effect_order is (ps, c)) (R, contents c)))
    \<and> contents c' = snd (in_order ops (effect_order is (ps, c)) (R, contents c))
    \<and> distinct (effect_order is (ps, c)) \<and> (\<forall>i \<in> set (effect_order is (ps, c)). R i = None)"
  using assms
proof (induction "is" arbitrary: ps c L R)
  case Nil
  then show ?case using same_keys_refl by auto
next
  case (Cons i js)
  let ?M = "contents c"
  have i: "i < length ops" "i < length ps" using Cons.prems by (auto simp: in_progress_def)
  then have "section_ok c L (ops ! i) (ps ! i) (R i)"
    using sections_ok [OF Cons.prems(1)] Cons.prems(2) by (simp add: in_progress_def)
  then obtain p' c' L' where p': "pc_step (ps ! i) c = Ret (Inr p') c'" and keys: "same_keys c L c' L'"
    and effect: "if takes_effect c (ps ! i)
        then R i = None \<and> at_point c (ops ! i) p' (Some (fst (map_exec (ops ! i) ?M))) \<and> contents c' = snd (map_exec (ops ! i) ?M)
        else at_point c (ops ! i) p' (R i) \<and> contents c' = ?M" unfolding section_ok_def by blast
  have ok': "cache_ok c' L'" using keys by (simp add: same_keys_def)
  have js: "set js \<subseteq> {..<length ops}" using Cons.prems(3) by simp
  let ?R = "if takes_effect c (ps ! i) then R(i \<mapsto> fst (map_exec (ops ! i) ?M)) else R"
  let ?o = "effect_order js (ps[i := p'], c')"
  have "in_progress ops (ps[i := p']) c' ?R"
    using in_progress_step [OF Cons.prems(2) keys, of i p' "?R i"] effect by (auto split: if_split_asm)
  from Cons.IH [OF ok' this js] obtain ps'' c'' L'' where
    run: "run_schedule js (ps[i := p'], c') = Some (ps'', c'')" and keys': "same_keys c' L' c'' L''"
    and rest: "in_progress ops ps'' c'' (fst (in_order ops ?o (?R, contents c')))"
      "contents c'' = snd (in_order ops ?o (?R, contents c'))" "distinct ?o" "\<forall>j \<in> set ?o. ?R j = None" by blast
  have order: "effect_order (i # js) (ps, c) = (if takes_effect c (ps ! i) then i # ?o else ?o)"
    by (simp add: p')
  have whole: "in_order ops (effect_order (i # js) (ps, c)) (R, ?M) = in_order ops ?o (?R, contents c')"
    using effect by (simp only: order) (auto simp: case_prod_beta)
  have "run_schedule (i # js) (ps, c) = Some (ps'', c'')" using p' i run by simp
  moreover have "distinct (effect_order (i # js) (ps, c)) \<and> (\<forall>j \<in> set (effect_order (i # js) (ps, c)). R j = None)"
    unfolding order using rest(3,4) effect by (auto split: if_split_asm)
  ultimately show ?case
    using same_keys_trans [OF keys keys'] rest(1,2) unfolding whole by blast
qed

text \<open>
  C14: Operations that insert and delete no key are linearisable as far as the contents go. Any
  number of goroutines read, overwrite and refresh entries, their critical sections interleaved by
  any schedule: no section panics or blocks, the index stays as it is, every list keeps its nodes
  and the invariant of the atomic operations holds at every moment; the values and expiry times
  are those of the operations executed one after the other in the order in which they read or write
  the node's data, each at most once and within its own duration, and an operation that has
  finished returns what it returns in that order.
\<close>

theorem existing_keys_linearise:
  assumes ok: "cache_ok c L" and ops: "\<forall>op \<in> set ops. keeps_keys c op" and sched: "set is \<subseteq> {..<length ops}"
  shows "\<exists>ps c' L' order R. run_schedule is (map start_pc ops, c) = Some (ps, c') \<and> cache_ok c' L'
    \<and> keyVal c' = keyVal c \<and> (\<forall>bn. mset (L' bn) = mset (L bn))
    \<and> order = effect_order is (map start_pc ops, c) \<and> distinct order
    \<and> in_order ops order (Map.empty, contents c) = (R, contents c')
    \<and> (\<forall>i r. i < length ops \<longrightarrow> ps ! i = Finished r \<longrightarrow> i \<in> set order \<and> R i = Some r)"
proof -
  let ?o = "effect_order is (map start_pc ops, c)"
  have "in_progress ops (map start_pc ops) c Map.empty"
    using ops at_point_start by (simp add: in_progress_def)
  from schedule_in_order [OF ok this sched] obtain ps c' L' where
    run: "run_schedule is (map start_pc ops, c) = Some (ps, c')" and keys: "same_keys c L c' L'"
    and prog: "in_progress ops ps c' (fst (in_order ops ?o (Map.empty, contents c)))"
    and cont: "contents c' = snd (in_order ops ?o (Map.empty, contents c))" and dist: "distinct ?o" by blast
  let ?R = "fst (in_order ops ?o (Map.empty, contents c))"
  have result: "i \<in> set ?o \<and> ?R i = Some r" if "i < length ops" "ps ! i = Finished r" for i r
  proof -
    have "?R i = Some r" using prog that at_point_finished [of c' "ops ! i" r] by (auto simp: in_progress_def)
    then show ?thesis using in_order_other [of i ?o ops Map.empty "contents c"] by auto
  qed
  show ?thesis
    by (intro exI [of _ ps] exI [of _ c'] exI [of _ L'] exI [of _ ?o] exI [of _ ?R])
      (use run keys cont dist result in \<open>auto simp: same_keys_def\<close>)
qed

text \<open>A read that an overwrite overtakes: it has found the node first and reads the new value.\<close>

theorem existing_keys_linearise_witness:
  "\<exists>ps c'. run_schedule [0, 1, 1, 1, 0, 0, 1, 0]
      (map start_pc [OpGet ''s'' ''a'', OpSet 5 ''s'' ''a'' (AInt 9) 0], full_demo) = Some (ps, c')
    \<and> keyVal c' = keyVal full_demo \<and> ps = [Finished (Inr (AInt 9)), Finished (Inr ANil)]"
proof -
  let ?ops = "[OpGet ''s'' ''a'', OpSet 5 ''s'' ''a'' (AInt 9) 0]" and ?is = "[0, 1, 1, 1, 0, 0, 1, 0]"
  obtain L where ok: "cache_ok full_demo L"
    and st: "store_of full_demo L ''s'' = Some (2, [(''b'', AInt 2, None)] @ [(''a'', AInt 1, None)])"
    using refines_full_demo by (auto simp: refines_def) (metis fun_upd_same)
  obtain b where b: "lruBuckets full_demo ''s'' = Some b"
    and es: "map (entry_of (heapOf full_demo)) (L ''s'') = [(''b'', AInt 2, None), (''a'', AInt 1, None)]"
    using st unfolding store_of_Some by auto
  have "lookup ''a'' (map (entry_of (heapOf full_demo)) (L ''s'')) \<noteq> None" unfolding es by (simp add: lookup_def)
  then obtain n where kv: "keyVal full_demo (''s'' @ ''a'') = Some n"
    unfolding lookup_index [OF ok b] by (cases "keyVal full_demo (''s'' @ ''a'')") simp_all
  have ops: "\<forall>op \<in> set ?ops. keeps_keys full_demo op" using b kv by auto
  have sched: "set ?is \<subseteq> {..<length ?ops}" by auto
  from existing_keys_linearise [OF ok ops sched] obtain ps c' where
    run: "run_schedule ?is (map start_pc ?ops, full_demo) = Some (ps, c')" and keys: "keyVal c' = keyVal full_demo" by blast
  moreover have "ps = [Finished (Inr (AInt 9)), Finished (Inr ANil)]"
    using run b kv by (simp add: keyVal_Get_def bucket_at_def)
  ultimately show ?thesis by blast
qed

end
