(* ===== verification/Table_Lock.thy ===== *)
theory Table_Lock
  imports Main
begin

text \<open>
  The read-write mutex of the bucket table (\<open>lruBuckets\<close> in \<open>internal/mycel/ds.go\<close>) and who holds
  it for how long: \<open>GetBucket\<close>, \<open>CreateBucket\<close>, the snapshots of the rebalancer, and the expiry
  worker (\<open>internal/mycel/task.go\<close>), which keeps the read lock while it deletes.
\<close>

section \<open>The mutex and the programs that use it\<close>

text \<open>
  \<open>sync.RWMutex\<close>: a waiting writer (\<open>Announce\<close>) keeps new readers out, and gets the mutex (\<open>Lock\<close>) when
  the readers that are in have left. \<open>pending\<close> is set while a writer waits or holds the mutex.
\<close>

datatype lock_action = RLock | RUnlock | Announce | Lock | Unlock

record rwmutex =
  readers :: nat
  pending :: bool

definition free_mutex :: rwmutex where
  "free_mutex = \<lparr>readers = 0, pending = False\<rparr>"

fun lock_do :: "lock_action \<Rightarrow> rwmutex \<Rightarrow> rwmutex option" where
  "lock_do RLock m = (if pending m then None else Some (m\<lparr>readers := Suc (readers m)\<rparr>))"
| "lock_do RUnlock m = (if readers m = 0 then None else Some (m\<lparr>readers := readers m - 1\<rparr>))"
| "lock_do Announce m = (if pending m then None else Some (m\<lparr>pending := True\<rparr>))"
| "lock_do Lock m = (if readers m = 0 then Some m else None)"
| "lock_do Unlock m = Some (m\<lparr>pending := False\<rparr>)"

text \<open>What a call does with this mutex, in order.\<close>

type_synonym lock_program = "lock_action list"

definition GetBucket_locks :: lock_program where
  "GetBucket_locks = [RLock, RUnlock]"

definition CreateBucket_locks :: lock_program where
  "CreateBucket_locks = [Announce, Lock, Unlock]"

text \<open>
  \<open>deleteLocal\<close> looks the bucket up once. The expiry worker deletes every expired key through
  \<open>Delete\<close>, and waits for its goroutines; \<open>here\<close> tells for each key whether the node itself is one of
  its replicas, so that one of them is \<open>deleteLocal\<close>.
\<close>

definition deleteLocal_locks :: lock_program where
  "deleteLocal_locks = GetBucket_locks"

definition Delete_locks :: "bool \<Rightarrow> lock_program" where
  "Delete_locks here = (if here then deleteLocal_locks else [])"

definition expiry_locks :: "bool list \<Rightarrow> lock_program" where
  "expiry_locks expired = [RLock] @ concat (map Delete_locks expired) @ [RUnlock]"

text \<open>A cycle of the rebalancer: the names of the buckets, each bucket, and the deletion of foreign keys.\<close>

definition rebalancer_locks :: "nat list \<Rightarrow> lock_program" where
  "rebalancer_locks foreign =
     [RLock, RUnlock] @ concat (map (\<lambda>k. [RLock, RUnlock] @ concat (replicate k deleteLocal_locks)) foreign)"

text \<open>The calls that do not delete while they hold the mutex.\<close>

definition call_locks :: "lock_program set" where
  "call_locks = {GetBucket_locks, CreateBucket_locks} \<union> range Delete_locks \<union> range rebalancer_locks"

inductive lock_step :: "lock_program list \<times> rwmutex \<Rightarrow> lock_program list \<times> rwmutex \<Rightarrow> bool" where
  act: "i < length ps \<Longrightarrow> ps ! i = a # p \<Longrightarrow> lock_do a m = Some m' \<Longrightarrow> lock_step (ps, m) (ps[i := p], m')"

inductive_cases lock_stepE: "lock_step (ps, m) t"

section \<open>Brief sections\<close>

text \<open>Programs that let go of the mutex before they take it again.\<close>

fun brief :: "lock_program \<Rightarrow> bool" where
  "brief [] = True"
| "brief (RLock # RUnlock # p) = brief p"
| "brief (Announce # Lock # Unlock # p) = brief p"
| "brief p = False"

lemma brief_append: "brief p \<Longrightarrow> brief q \<Longrightarrow> brief (p @ q)"
  by (induction p rule: brief.induct) auto

lemma brief_concat: "\<forall>p \<in> set ps. brief p \<Longrightarrow> brief (concat ps)"
  by (induction ps) (auto intro: brief_append)

lemma brief_programs:
  "brief GetBucket_locks" "brief CreateBucket_locks" "brief deleteLocal_locks" "brief (Delete_locks here)"
  "brief (rebalancer_locks foreign)"
proof -
  show "brief GetBucket_locks" "brief CreateBucket_locks" "brief deleteLocal_locks" "brief (Delete_locks here)"
    by (simp_all add: GetBucket_locks_def CreateBucket_locks_def deleteLocal_locks_def Delete_locks_def)
  show "brief (rebalancer_locks foreign)"
    by (auto simp: rebalancer_locks_def deleteLocal_locks_def GetBucket_locks_def intro!: brief_concat)
qed

lemma call_locks_brief: "p \<in> call_locks \<Longrightarrow> brief p"
  using brief_programs by (auto simp: call_locks_def)

text \<open>Where a goroutine with a brief program can be, and what it then contributes to the mutex.\<close>

fun inside :: "lock_program \<Rightarrow> bool" where
  "inside (RUnlock # p) = brief p"
| "inside (Lock # Unlock # p) = brief p"
| "inside (Unlock # p) = brief p"
| "inside p = brief p"

fun reads :: "lock_program \<Rightarrow> nat" where
  "reads (RUnlock # p) = 1"
| "reads p = 0"

fun writes :: "lock_program \<Rightarrow> nat" where
  "writes (Lock # p) = 1"
| "writes (Unlock # p) = 1"
| "writes p = 0"

definition locks_ok :: "lock_program list \<times> rwmutex \<Rightarrow> bool" where
  "locks_ok s \<longleftrightarrow> (\<forall>p \<in> set (fst s). inside p) \<and> readers (snd s) = sum_list (map reads (fst s))
     \<and> (if pending (snd s) then 1 else 0) = sum_list (map writes (fst s))"

lemma brief_inside: "brief p \<Longrightarrow> inside p \<and> reads p = 0 \<and> writes p = 0"
  by (cases p rule: brief.cases) auto

lemma sum_update:
  "i < length ps \<Longrightarrow> sum_list (map f (ps[i := p])) + f (ps ! i) = sum_list (map f ps) + (f p :: nat)"
  by (induction ps arbitrary: i) (auto split: nat.split)

lemma inside_step:
  assumes "inside (a # p)"
  shows "inside p" and "a = RLock \<Longrightarrow> reads (a # p) = 0 \<and> reads p = 1 \<and> writes (a # p) = 0 \<and> writes p = 0"
    and "a = RUnlock \<Longrightarrow> reads (a # p) = 1 \<and> reads p = 0 \<and> writes (a # p) = 0 \<and> writes p = 0"
    and "a = Announce \<Longrightarrow> reads (a # p) = 0 \<and> reads p = 0 \<and> writes (a # p) = 0 \<and> writes p = 1"
    and "a = Lock \<Longrightarrow> reads (a # p) = 0 \<and> reads p = 0 \<and> writes (a # p) = 1 \<and> writes p = 1"
    and "a = Unlock \<Longrightarrow> reads (a # p) = 0 \<and> reads p = 0 \<and> writes (a # p) = 1 \<and> writes p = 0"
  using assms brief_inside by (cases "a # p" rule: inside.cases; auto elim: brief.elims)+

lemma locks_ok_step:
  assumes "lock_step s t" and ok: "locks_ok s"
  shows "locks_ok t"
  using assms(1)
proof cases
  case (act i ps a p m m')
  have "a # p \<in> set ps" using act(3,4) by (metis nth_mem)
  then have inside: "inside (a # p)" using ok act(1) by (simp add: locks_ok_def)
  note F = inside_step [OF inside]
  have "\<forall>q \<in> set (ps[i := p]). inside q"
    using ok act(1) F(1) set_update_subset_insert [of ps i p] by (auto simp: locks_ok_def)
  moreover have r: "sum_list (map reads (ps[i := p])) + reads (a # p) = sum_list (map reads ps) + reads p"
    and w: "sum_list (map writes (ps[i := p])) + writes (a # p) = sum_list (map writes ps) + writes p"
    using sum_update [OF act(3), of _ p] act(4) by metis+
  moreover have old: "readers m = sum_list (map reads ps)" "(if pending m then 1 else 0) = sum_list (map writes ps)"
    using ok act(1) by (simp_all add: locks_ok_def)
  moreover have "readers m' = sum_list (map reads (ps[i := p]))
      \<and> (if pending m' then 1 else 0) = sum_list (map writes (ps[i := p]))"
  proof (cases a)
    case RLock
    then show ?thesis using F(2) act(5) r w old by (auto split: if_split_asm)
  next
    case RUnlock
    then show ?thesis using F(3) act(5) r w old by (auto split: if_split_asm)
  next
    case Announce
    then show ?thesis using F(4) act(5) r w old by (auto split: if_split_asm)
  next
    case Lock
    then show ?thesis using F(5) act(5) r w old by (auto split: if_split_asm)
  next
    case Unlock
    then show ?thesis using F(6) act(5) r w old by (auto split: if_split_asm)
  qed
  ultimately show ?thesis by (simp add: locks_ok_def act(2))
qed

lemma locks_ok_reachable: "lock_step\<^sup>*\<^sup>* s t \<Longrightarrow> locks_ok s \<Longrightarrow> locks_ok t"
  by (induction rule: rtranclp_induct) (auto intro: locks_ok_step)

lemma locks_ok_start:
  assumes "\<forall>p \<in> set ps. brief p"
  shows "locks_ok (ps, free_mutex)"
proof -
  have "sum_list (map reads ps) = 0" "sum_list (map writes ps) = 0"
    using assms brief_inside by (simp_all add: sum_list_eq_0_iff)
  then show ?thesis using assms brief_inside by (auto simp: locks_ok_def free_mutex_def)
qed

lemma sum_list_nonzero: "sum_list (map f ps) \<noteq> (0 :: nat) \<Longrightarrow> \<exists>p \<in> set ps. f p \<noteq> 0"
  by (induction ps) auto

text \<open>With brief programs somebody can always go on.\<close>

lemma brief_progress:
  assumes ok: "locks_ok (ps, m)" and rest: "\<exists>p \<in> set ps. p \<noteq> []"
  shows "\<exists>t. lock_step (ps, m) t"
proof -
  have go: "\<exists>t. lock_step (ps, m) t" if "a # p \<in> set ps" "lock_do a m \<noteq> None" for a p
    using that lock_step.act [of _ ps a p m] by (fastforce simp: in_set_conv_nth)
  have inside: "inside p" if "p \<in> set ps" for p using ok that by (simp add: locks_ok_def)
  show ?thesis
  proof (cases "readers m = 0")
    case False
    then have "sum_list (map reads ps) \<noteq> 0" using ok unfolding locks_ok_def by (metis fst_conv snd_conv)
    then obtain p where p: "p \<in> set ps" "reads p \<noteq> 0" using sum_list_nonzero by blast
    then obtain q where "p = RUnlock # q" by (cases p rule: reads.cases) auto
    with go [of RUnlock q] p(1) False show ?thesis by simp
  next
    case True
    show ?thesis
    proof (cases "pending m")
      case True
      then have "sum_list (map writes ps) \<noteq> 0" using ok unfolding locks_ok_def by (metis fst_conv snd_conv zero_neq_one)
      then obtain p where p: "p \<in> set ps" "writes p \<noteq> 0" using sum_list_nonzero by blast
      then obtain q where "p = Lock # q \<or> p = Unlock # q" by (cases p rule: writes.cases) auto
      with go [of Lock q] go [of Unlock q] p(1) \<open>readers m = 0\<close> show ?thesis by auto
    next
      case False
      obtain a p where p: "a # p \<in> set ps" using rest by (metis neq_Nil_conv)
      have "reads (a # p) = 0" using ok p True by (auto simp: locks_ok_def)
      then have "a \<noteq> RUnlock" by auto
      then have "lock_do a m \<noteq> None" using False True by (cases a) auto
      with go p show ?thesis by blast
    qed
  qed
qed

text \<open>
  C18: Holding the bucket table while deleting deadlocks. If an expired key has the node itself among
  its replicas and a bucket is created while the expiry worker is collecting, then, whatever
  other calls wait to start, all of them can come to a state in which nobody ever goes on: the worker
  waits to read, behind the writer that waits for the worker. The other calls (looking up, creating
  and deleting, a cycle of the rebalancer) never get stuck with one another.
\<close>

theorem expiry_deadlock:
  shows "(True \<in> set expired \<and> set others \<subseteq> call_locks \<longrightarrow>
      (\<exists>s. lock_step\<^sup>*\<^sup>* (expiry_locks expired # CreateBucket_locks # others, free_mutex) s
        \<and> fst s ! 0 \<noteq> [] \<and> fst s ! 1 \<noteq> [] \<and> (\<nexists>t. lock_step s t)))
   \<and> (set ps \<subseteq> call_locks \<and> lock_step\<^sup>*\<^sup>* (ps, free_mutex) (ps', m) \<and> (\<exists>p \<in> set ps'. p \<noteq> []) \<longrightarrow>
      (\<exists>t. lock_step (ps', m) t))"
proof (intro conjI impI)
  assume "True \<in> set expired \<and> set others \<subseteq> call_locks"
  then have a: "True \<in> set expired \<and> (\<forall>p \<in> set others. brief p)" using call_locks_brief by blast
  have "\<exists>q. concat (map Delete_locks expired) = RLock # q"
    using a by (induction expired) (auto simp: Delete_locks_def deleteLocal_locks_def GetBucket_locks_def)
  then obtain q where q: "expiry_locks expired = RLock # RLock # q" by (auto simp: expiry_locks_def)
  let ?ps = "expiry_locks expired # CreateBucket_locks # others"
  let ?s = "((RLock # q) # [Lock, Unlock] # others, \<lparr>readers = 1, pending = True\<rparr>)"
  have 1: "lock_step (?ps, free_mutex) ((RLock # q) # CreateBucket_locks # others, \<lparr>readers = 1, pending = False\<rparr>)"
    using lock_step.act [of 0 ?ps RLock "RLock # q" free_mutex] q by (simp add: free_mutex_def)
  have 2: "lock_step ((RLock # q) # CreateBucket_locks # others, \<lparr>readers = 1, pending = False\<rparr>) ?s"
    using lock_step.act [of 1 "(RLock # q) # CreateBucket_locks # others" Announce "[Lock, Unlock]"]
    by (simp add: CreateBucket_locks_def)
  have stuck: "\<nexists>t. lock_step ?s t"
  proof
    assume "\<exists>t. lock_step ?s t"
    then obtain i b p m' where s: "i < length (fst ?s)" "fst ?s ! i = b # p" "lock_do b (snd ?s) = Some m'"
      by (auto elim!: lock_stepE)
    have "b # p \<in> set (fst ?s)" using s(1,2) by (metis nth_mem)
    then have "b # p = RLock # q \<or> b # p = [Lock, Unlock] \<or> brief (b # p)" using a by auto
    then have "b = RLock \<or> b = Lock \<or> b = Announce" by (auto elim: brief.elims)
    then show False using s(3) by auto
  qed
  show "\<exists>s. lock_step\<^sup>*\<^sup>* (?ps, free_mutex) s \<and> fst s ! 0 \<noteq> [] \<and> fst s ! 1 \<noteq> [] \<and> (\<nexists>t. lock_step s t)"
  proof (intro exI [of _ ?s] conjI)
    show "lock_step\<^sup>*\<^sup>* (?ps, free_mutex) ?s"
      using 1 2 by (meson rtranclp.rtrancl_into_rtrancl rtranclp.rtrancl_refl)
  qed (use stuck in simp_all)
next
  assume a: "set ps \<subseteq> call_locks \<and> lock_step\<^sup>*\<^sup>* (ps, free_mutex) (ps', m) \<and> (\<exists>p \<in> set ps'. p \<noteq> [])"
  then have "\<forall>p \<in> set ps. brief p" using call_locks_brief by blast
  with a have "locks_ok (ps', m)" using locks_ok_reachable locks_ok_start by blast
  with a show "\<exists>t. lock_step (ps', m) t" using brief_progress by blast
qed

theorem expiry_deadlock_witness:
  "(\<exists>s. lock_step\<^sup>*\<^sup>* ([expiry_locks [False, True], CreateBucket_locks, GetBucket_locks], free_mutex) s
      \<and> fst s ! 0 \<noteq> [] \<and> fst s ! 1 \<noteq> [] \<and> (\<nexists>t. lock_step s t))
   \<and> (\<exists>t. lock_step ([rebalancer_locks [1], CreateBucket_locks], free_mutex) t)"
  using expiry_deadlock [of "[False, True]" "[GetBucket_locks]" "[rebalancer_locks [1], CreateBucket_locks]"
      "[rebalancer_locks [1], CreateBucket_locks]" free_mutex]
  by (simp add: call_locks_def) (simp add: rebalancer_locks_def)

end
