(* ===== verification/Eviction.thy ===== *)
theory Eviction
  imports Local_Cache
begin

text \<open>
  What becomes of a bucket after its first eviction (\<open>internal/mycel/local.go\<close>). The next pointer
  of the new tail still leads to the evicted node, so the next read of the tail entry does not
  take it for the tail: it moves to the head, and the tail pointer stays on it. From there on
  evictions hit the wrong entry, and a deletion makes the bucket lose writes and panic.
\<close>

section \<open>Reading the tail of a bucket that has evicted\<close>

text \<open>
  The full bucket \<open>bn\<close> with its head and its tail pointer on the node \<open>t\<close>, which another
  node \<open>n\<close> follows.
\<close>

definition head_is_tail :: "cache \<Rightarrow> string \<Rightarrow> lruBucket \<Rightarrow> addr \<Rightarrow> addr \<Rightarrow> bool" where
  "head_is_tail c bn b t n \<longleftrightarrow> lruBuckets c bn = Some b \<and> bHead b = Some t \<and> bTail b = Some t
     \<and> bLen b = bMaxLen b \<and> nnext (heapOf c t) = Some n \<and> nprev (heapOf c t) = None \<and> n \<noteq> t
     \<and> t < freshAddr c \<and> n < freshAddr c \<and> keyVal c (bn @ nkey (heapOf c t)) = Some t"

text \<open>Every key of \<open>es\<close> is indexed by an allocated node that holds its value.\<close>

definition indexed :: "cache \<Rightarrow> string \<Rightarrow> entry list \<Rightarrow> bool" where
  "indexed c bn es \<longleftrightarrow> (\<forall>k v t. lookup k es = Some (v, t) \<longrightarrow>
     (\<exists>a < freshAddr c. keyVal c (bn @ k) = Some a \<and> ndata (heapOf c a) = v \<and> nkey (heapOf c a) = k))"

lemma setLocal_new_fresh:
  assumes "setLocal now bn k v ttl c = Ret (Inr ()) c'" and "keyVal c (bn @ k) = None"
  shows "freshAddr c' = Suc (freshAddr c)"
  using assms by (auto simp: setLocal_def evictTail_def cache_updates GetBucket_def Let_def split: option.splits if_splits)

lemma indexed_refined: "refines c A \<Longrightarrow> A bn = Some (cap, es) \<Longrightarrow> indexed c bn es"
proof -
  assume "refines c A" and "A bn = Some (cap, es)"
  then obtain L b where ok: "cache_ok c L" and b: "lruBuckets c bn = Some b"
    and es: "es = map (entry_of (heapOf c)) (L bn)" by (auto simp: refines_def store_of_Some)
  show ?thesis
    unfolding indexed_def
  proof (intro allI impI)
    fix k v t assume "lookup k es = Some (v, t)"
    then obtain a where kv: "keyVal c (bn @ k) = Some a" and v: "ndata (heapOf c a) = v"
      using lookup_index [OF ok b, of k] es by auto
    from keyVal_in_bucket [OF ok b kv] have "a \<in> set (L bn)" "nkey (heapOf c a) = k" by auto
    with kv v cache_okD(6) [OF ok] show "\<exists>a < freshAddr c. keyVal c (bn @ k) = Some a
        \<and> ndata (heapOf c a) = v \<and> nkey (heapOf c a) = k" by blast
  qed
qed

text \<open>The first eviction, and then a read of the entry that is the last one now.\<close>

lemma read_tail:
  assumes ref: "refines c A" and A: "A bn = Some (cap, es @ [(tk, tv, tt), (lk, lv, lt)])"
    and full: "int (length es) + 2 = cap" and new: "lookup k (es @ [(tk, tv, tt), (lk, lv, lt)]) = None"
    and set: "setLocal now bn k v ttl c = Ret (Inr ()) c'"
  shows "\<exists>c1 b t n. getLocal bn tk c' = Ret (Inr tv) c1 \<and> head_is_tail c1 bn b t n \<and> bMaxLen b = cap
    \<and> nkey (heapOf c1 t) = tk \<and> indexed c1 bn ((k, v, expiry now ttl) # es @ [(tk, tv, tt)])
    \<and> (\<forall>k'. k' \<noteq> k \<longrightarrow> lookup k' (es @ [(tk, tv, tt)]) = None \<longrightarrow> keyVal c1 (bn @ k') = None)"
proof -
  have A': "A bn = Some (cap, (es @ [(tk, tv, tt)]) @ [(lk, lv, lt)])" using A by simp
  from full_bucket [OF ref A'] obtain L b xs e where ok: "cache_ok c L"
    and b: "lruBuckets c bn = Some b" and cap: "cap = bMaxLen b" and Lbn: "L bn = xs @ [e]"
    and es: "es @ [(tk, tv, tt)] = map (entry_of (heapOf c)) xs" and e: "entry_of (heapOf c) e = (lk, lv, lt)" by blast
  obtain ys t where xs: "xs = ys @ [t]" and t: "entry_of (heapOf c) t = (tk, tv, tt)" and ys: "es = map (entry_of (heapOf c)) ys"
    using es by (cases xs rule: rev_cases) auto
  let ?f = "freshAddr c"
  have ents: "es @ [(tk, tv, tt), (lk, lv, lt)] = map (entry_of (heapOf c)) (L bn)" using es e Lbn xs t by simp
  from new lookup_index [OF ok b, of k] have none: "keyVal c (bn @ k) = None" unfolding ents by simp
  have "int (length (L bn)) = bMaxLen b" using full cap ys Lbn xs by simp
  from evict_result [OF ok b none this Lbn, of now v ttl] set obtain b' where
    b': "lruBuckets c' bn = Some b'" "bMaxLen b' = bMaxLen b" and l: "lru_list b' (heapOf c') (?f # ys @ [t]) (Some e)"
    and ent_f: "entry_of (heapOf c') ?f = (k, v, expiry now ttl)"
    and ent: "\<And>a. a \<noteq> e \<Longrightarrow> a \<noteq> ?f \<Longrightarrow> entry_of (heapOf c') a = entry_of (heapOf c) a"
    and kv: "keyVal c' = (keyVal c)(bn @ k \<mapsto> ?f, bn @ nkey (heapOf c e) := None)"
    unfolding xs by auto
  have fresh: "freshAddr c' = Suc ?f" using setLocal_new_fresh [OF set none] .
  have lk: "nkey (heapOf c e) = lk" using e by (simp add: entry_of_def)
  have idx: "keyVal c (bn @ nkey (heapOf c a)) = Some a" if "a \<in> set (L bn)" for a
    using cache_okD(7) [OF ok] that by fastforce
  have lk_idx: "keyVal c (bn @ lk) = Some e" using idx [of e] Lbn lk by simp
  have dist: "a \<noteq> e" "a \<noteq> ?f" "a < ?f" if "a \<in> set xs" for a
    using that cache_ok_distinct [OF ok, of bn] Lbn cache_okD(6) [OF ok, of a bn] by auto
  have kept: "keyVal c' (bn @ nkey (heapOf c a)) = Some a \<and> entry_of (heapOf c') a = entry_of (heapOf c) a"
    if a: "a \<in> set xs" for a
  proof -
    have "keyVal c (bn @ nkey (heapOf c a)) = Some a" using idx [of a] a Lbn by simp
    moreover from this have "nkey (heapOf c a) \<noteq> lk" "nkey (heapOf c a) \<noteq> k" using lk_idx none dist [OF a] by auto
    ultimately show ?thesis using kv lk ent dist [OF a] by simp
  qed
  have klk: "k \<noteq> lk" using none lk_idx by auto
  have "indexed c' bn ((k, v, expiry now ttl) # map (entry_of (heapOf c)) xs)"
    unfolding indexed_def
  proof (intro allI impI)
    fix k' v' t' assume look: "lookup k' ((k, v, expiry now ttl) # map (entry_of (heapOf c)) xs) = Some (v', t')"
    show "\<exists>a < freshAddr c'. keyVal c' (bn @ k') = Some a \<and> ndata (heapOf c' a) = v' \<and> nkey (heapOf c' a) = k'"
    proof (cases "k' = k")
      case True
      then show ?thesis using look ent_f kv klk lk fresh by (auto simp: lookup_def entry_of_def)
    next
      case False
      then have "lookup k' (map (entry_of (heapOf c)) xs) = Some (v', t')" using look by (simp add: lookup_def)
      then obtain a where a: "a \<in> set xs" "nkey (heapOf c a) = k'" "ndata (heapOf c a) = v'"
        unfolding lookup_entries by (auto dest!: find_SomeD)
      have "a < freshAddr c'" using dist [OF a(1)] fresh by simp
      then show ?thesis using kept [OF a(1)] a by (intro exI [of _ a]) (auto simp: entry_of_def)
    qed
  qed
  then have indexed': "indexed c' bn ((k, v, expiry now ttl) # es @ [(tk, tv, tt)])" unfolding es .
  have absent: "keyVal c' (bn @ k') = None" if "k' \<noteq> k" "lookup k' (es @ [(tk, tv, tt)]) = None" for k'
  proof (cases "k' = lk")
    case True
    then show ?thesis using kv lk by simp
  next
    case False
    then have "lookup k' (es @ [(tk, tv, tt), (lk, lv, lt)]) = None"
      using that(2) by (auto simp: lookup_def map_add_def split: option.split_asm if_split_asm)
    with lookup_index [OF ok b, of k'] have "keyVal c (bn @ k') = None" unfolding ents by simp
    with kv lk that(1) False show ?thesis by simp
  qed
  have tx: "t \<in> set xs" using xs by simp
  have tkv: "keyVal c' (bn @ tk) = Some t" and tdata: "nkey (heapOf c' t) = tk" "ndata (heapOf c' t) = tv"
    using kept [OF tx] t by (auto simp: entry_of_def)
  obtain p where p: "nprev (heapOf c' t) = Some p" "nnext (heapOf c' t) = Some e" "p \<noteq> t"
  proof -
    have "nprev (heapOf c' t) = last_or None (?f # ys)" "nnext (heapOf c' t) = Some e" "distinct (?f # ys @ [t])"
      using l by (simp_all add: lru_list_def dseg_append)
    moreover have "last_or None (?f # ys) = Some (last (?f # ys))" by (rule last_or_nonempty) simp
    moreover have "last (?f # ys) \<in> set (?f # ys)" by (rule last_in_set) simp
    ultimately show thesis using that by auto
  qed
  have head: "bHead b' = Some ?f" "bTail b' = Some t" "bLen b' = bMaxLen b'" "?f \<noteq> t"
    using l full cap ys b'(2) by (auto simp: lru_list_def)
  have te: "t \<noteq> e" using dist(1) [OF tx] .
  let ?bh = "Push t b' (heapOf c')"
  have push: "fst ?bh = b'\<lparr>bHead := Some t\<rparr>" "nnext (snd ?bh t) = Some ?f" "nprev (snd ?bh t) = None"
    using head p te by (simp_all add: Push_def push_unlink_def push_front_def Let_def)
  have read: "getLocal bn tk c' = Ret (Inr tv) (put_list bn ?bh c')"
    using getLocal_hit [OF b'(1) tkv] tdata by simp
  have "head_is_tail (put_list bn ?bh c') bn (b'\<lparr>bHead := Some t\<rparr>) t ?f"
    using push head tkv tdata fresh dist(3) [OF tx] by (simp add: head_is_tail_def put_list_def)
  moreover have "indexed (put_list bn ?bh c') bn ((k, v, expiry now ttl) # es @ [(tk, tv, tt)])"
    using indexed' by (simp add: indexed_def put_list_def)
  ultimately show ?thesis using read tdata absent cap b'(2)
    by (intro exI [of _ "put_list bn ?bh c'"] exI [of _ "b'\<lparr>bHead := Some t\<rparr>"] exI [of _ t] exI [of _ ?f])
      (simp add: put_list_def)
qed

section \<open>The two ways on\<close>

lemma insert_head_is_tail:
  assumes ht: "head_is_tail c bn b t n" and none: "keyVal c (bn @ k) = None"
  shows "\<exists>c' b'. setLocal now bn k v ttl c = Ret (Inr ()) c' \<and> lruBuckets c' bn = Some b'
    \<and> walk (heapOf c') (bHead b') = Some [freshAddr c, t] \<and> nkey (heapOf c' (freshAddr c)) = k
    \<and> ndata (heapOf c' (freshAddr c)) = v
    \<and> (\<forall>a. a \<noteq> t \<longrightarrow> a \<noteq> freshAddr c \<longrightarrow> ndata (heapOf c' a) = ndata (heapOf c a))
    \<and> keyVal c' = (keyVal c)(bn @ k \<mapsto> freshAddr c, bn @ nkey (heapOf c t) := None)"
proof -
  let ?m = "freshAddr c"
  have tm: "t \<noteq> ?m" using ht by (auto simp: head_is_tail_def)
  then show ?thesis
    using ht none
    by (simp add: head_is_tail_def setLocal_def keyVal_Get_def Push_def push_unlink_def push_front_def
        evictTail_def cache_updates Let_def walk_Some set_next_def set_prev_def)
qed

lemma delete_head_is_tail:
  assumes ht: "head_is_tail c bn b t n" and key: "nkey (heapOf c t) = k"
  shows "\<exists>c' b'. deleteLocal bn k c = Ret (Inr ()) c' \<and> lruBuckets c' bn = Some b' \<and> bMaxLen b' = bMaxLen b
    \<and> bLen b' = bMaxLen b - 1 \<and> bHead b' = Some n \<and> bTail b' = Some t \<and> nprev (heapOf c' t) = None
    \<and> nkey (heapOf c' t) = k \<and> keyVal c' = (keyVal c)(bn @ k := None) \<and> freshAddr c' = freshAddr c"
proof -
  have "find_node (heapOf c) k (bHead b) = Some (Some t)"
    using ht key by (simp add: head_is_tail_def find_node_Some)
  moreover have "delete_node t b (heapOf c) = (b\<lparr>bHead := Some n, bLen := bLen b - 1\<rparr>,
      (set_prev (heapOf c) n None)(t := (heapOf c t)\<lparr>nnext := None, nprev := None, ndata := ANil\<rparr>))"
    using ht by (intro delete_head) (auto simp: head_is_tail_def)
  ultimately show ?thesis
    using ht key by (simp add: head_is_tail_def deleteLocal_def Delete_def cache_updates Let_def)
qed

text \<open>Insertion of a new key, first below the capacity, then at it.\<close>

lemma insert_below:
  assumes b: "lruBuckets c bn = Some b" "bHead b = Some x" "bTail b = Some t" "bLen b < bMaxLen b"
    and t: "nprev (heapOf c t) = None" "t \<noteq> x" "t < freshAddr c" "x < freshAddr c" and none: "keyVal c (bn @ k) = None"
  shows "\<exists>c' b'. setLocal now bn k v ttl c = Ret (Inr ()) c' \<and> lruBuckets c' bn = Some b' \<and> bMaxLen b' = bMaxLen b
    \<and> bLen b' = bLen b + 1 \<and> bHead b' = Some (freshAddr c) \<and> bTail b' = Some t \<and> nprev (heapOf c' t) = None
    \<and> nkey (heapOf c' t) = nkey (heapOf c t) \<and> keyVal c' = (keyVal c)(bn @ k \<mapsto> freshAddr c)
    \<and> freshAddr c' = Suc (freshAddr c)"
  using assms
  by (auto simp: setLocal_def keyVal_Get_def Push_def push_unlink_def push_front_def cache_updates Let_def
      set_next_def set_prev_def)

lemma insert_evicts:
  assumes b: "lruBuckets c bn = Some b" "bHead b = Some x" "bTail b = Some t" "bLen b = bMaxLen b"
    and t: "nprev (heapOf c t) = None" "t \<noteq> x" "t < freshAddr c" "x < freshAddr c" and none: "keyVal c (bn @ k) = None"
  shows "\<exists>c' b'. setLocal now bn k v ttl c = Ret (Inr ()) c' \<and> lruBuckets c' bn = Some b' \<and> bMaxLen b' = bMaxLen b
    \<and> bLen b' = bLen b \<and> bHead b' = Some (freshAddr c) \<and> bTail b' = None
    \<and> keyVal c' = (keyVal c)(bn @ k \<mapsto> freshAddr c, bn @ nkey (heapOf c t) := None)"
  using assms
  by (auto simp: setLocal_def keyVal_Get_def Push_def push_unlink_def push_front_def evictTail_def cache_updates Let_def
      set_next_def set_prev_def)

lemma insert_without_tail:
  assumes "lruBuckets c bn = Some b" "bHead b = Some x" "x \<noteq> freshAddr c" "bTail b = None" "bLen b = bMaxLen b"
    and "keyVal c (bn @ k) = None"
  shows "setLocal now bn k v ttl c = Panic"
  using assms
  by (auto simp: setLocal_def keyVal_Get_def Push_def push_unlink_def push_front_def evictTail_def cache_updates Let_def
      set_next_def set_prev_def)

section \<open>Properties\<close>

text \<open>
  C22: From the second eviction on, a bucket evicts the wrong entry. Take a full bucket, let the
  insertion of \<open>k\<close> evict its last entry (the first eviction), and read the entry \<open>tk\<close> that is
  the last one now: it is the most recently used one. The next insertion of a new key evicts
  just this entry and keeps the others; and from the head only the inserted node and the cleared
  one can be reached: the expiry worker, the rebalancer and \<open>Delete\<close> no longer see the others.
\<close>

theorem second_eviction_evicts_recent:
  assumes ref: "refines c A" and A: "A bn = Some (cap, es @ [(tk, tv, tt), (lk, lv, lt)])"
    and full: "int (length es) + 2 = cap" and new: "lookup k (es @ [(tk, tv, tt), (lk, lv, lt)]) = None"
    and set: "setLocal now bn k v ttl c = Ret (Inr ()) c'"
    and new2: "k2 \<noteq> k" "lookup k2 (es @ [(tk, tv, tt)]) = None"
  shows "\<exists>c1 c2 b2 m t. getLocal bn tk c' = Ret (Inr tv) c1 \<and> setLocal now2 bn k2 v2 ttl2 c1 = Ret (Inr ()) c2
    \<and> getLocal bn tk c2 = Ret (Inl ERR_NOT_FOUND) c2
    \<and> (\<forall>k' v' t'. k' \<noteq> tk \<longrightarrow> lookup k' ((k2, v2, expiry now2 ttl2) # (k, v, expiry now ttl) # es) = Some (v', t')
        \<longrightarrow> (\<exists>c3. getLocal bn k' c2 = Ret (Inr v') c3))
    \<and> lruBuckets c2 bn = Some b2 \<and> walk (heapOf c2) (bHead b2) = Some [m, t] \<and> nkey (heapOf c2 m) = k2
    \<and> keyVal c2 (bn @ tk) = None"
proof -
  from read_tail [OF ref A full new set] obtain c1 b t n where
    read: "getLocal bn tk c' = Ret (Inr tv) c1" and ht: "head_is_tail c1 bn b t n" and tk: "nkey (heapOf c1 t) = tk"
    and ind: "indexed c1 bn ((k, v, expiry now ttl) # es @ [(tk, tv, tt)])"
    and absent: "\<And>k'. k' \<noteq> k \<Longrightarrow> lookup k' (es @ [(tk, tv, tt)]) = None \<Longrightarrow> keyVal c1 (bn @ k') = None"
    by blast
  let ?m = "freshAddr c1"
  have none: "keyVal c1 (bn @ k2) = None" by (rule absent [OF new2])
  from insert_head_is_tail [OF ht none, of now2 v2 ttl2] obtain c2 b2 where
    run: "setLocal now2 bn k2 v2 ttl2 c1 = Ret (Inr ()) c2" and b2: "lruBuckets c2 bn = Some b2"
    and walk: "walk (heapOf c2) (bHead b2) = Some [?m, t]" and m: "nkey (heapOf c2 ?m) = k2" "ndata (heapOf c2 ?m) = v2"
    and data: "\<And>a. a \<noteq> t \<Longrightarrow> a \<noteq> ?m \<Longrightarrow> ndata (heapOf c2 a) = ndata (heapOf c1 a)"
    and kv: "keyVal c2 = (keyVal c1)(bn @ k2 \<mapsto> ?m, bn @ tk := None)"
    unfolding tk by blast
  have gone: "keyVal c2 (bn @ tk) = None" using kv by simp
  have kept: "\<exists>c3. getLocal bn k' c2 = Ret (Inr v') c3"
    if ne: "k' \<noteq> tk" and look: "lookup k' ((k2, v2, expiry now2 ttl2) # (k, v, expiry now ttl) # es) = Some (v', t')" for k' v' t'
  proof (cases "k' = k2")
    case True
    then have "keyVal c2 (bn @ k') = Some ?m" "v' = v2" using kv ne look by (simp_all add: lookup_def)
    then show ?thesis using getLocal_hit [OF b2] m by simp
  next
    case False
    then have "lookup k' ((k, v, expiry now ttl) # es @ [(tk, tv, tt)]) = Some (v', t')"
      using look by (auto simp: lookup_def map_add_def split: if_splits)
    then obtain a where a: "a < ?m" "keyVal c1 (bn @ k') = Some a" "ndata (heapOf c1 a) = v'" "nkey (heapOf c1 a) = k'"
      using ind unfolding indexed_def by blast
    then have "a \<noteq> t" "a \<noteq> ?m" using ne tk by auto
    with a data have "ndata (heapOf c2 a) = v'" by simp
    moreover have "keyVal c2 (bn @ k') = Some a" using kv a ne False by simp
    ultimately show ?thesis using getLocal_hit [OF b2] by simp
  qed
  have "getLocal bn tk c2 = Ret (Inl ERR_NOT_FOUND) c2" using gone by (simp add: getLocal_def keyVal_Get_def)
  with read run kept b2 walk m(1) gone show ?thesis by blast
qed

text \<open>
  C23: After an eviction writes are lost and the node panics. Take the bucket as above, with the
  entry \<open>tk\<close> read after the first eviction, delete \<open>tk\<close>, insert a new key \<open>x\<close>, and write \<open>tk\<close>
  again. Every call succeeds, but \<open>tk\<close> is not stored: its insertion evicts the node deleted
  before, which has the same key. From then on the insertion of any key not stored,
  also of \<open>tk\<close>, panics on the nil tail.
\<close>

theorem write_lost_after_eviction:
  assumes ref: "refines c A" and A: "A bn = Some (cap, es @ [(tk, tv, tt), (lk, lv, lt)])"
    and full: "int (length es) + 2 = cap" and new: "lookup k (es @ [(tk, tv, tt), (lk, lv, lt)]) = None"
    and set: "setLocal now bn k v ttl c = Ret (Inr ()) c'"
    and new_x: "x \<noteq> k" "lookup x (es @ [(tk, tv, tt)]) = None"
  shows "\<exists>c1 c2 c3 c4. getLocal bn tk c' = Ret (Inr tv) c1 \<and> deleteLocal bn tk c1 = Ret (Inr ()) c2
    \<and> setLocal now2 bn x v2 ttl2 c2 = Ret (Inr ()) c3 \<and> setLocal now3 bn tk v3 ttl3 c3 = Ret (Inr ()) c4
    \<and> getLocal bn tk c4 = Ret (Inl ERR_NOT_FOUND) c4
    \<and> (\<forall>y now4 v4 ttl4. y \<noteq> x \<longrightarrow> lookup y ((k, v, expiry now ttl) # es) = None
        \<longrightarrow> setLocal now4 bn y v4 ttl4 c4 = Panic)"
proof -
  from read_tail [OF ref A full new set] obtain c1 b t n where
    read: "getLocal bn tk c' = Ret (Inr tv) c1" and ht: "head_is_tail c1 bn b t n" and tk: "nkey (heapOf c1 t) = tk"
    and absent: "\<And>k'. k' \<noteq> k \<Longrightarrow> lookup k' (es @ [(tk, tv, tt)]) = None \<Longrightarrow> keyVal c1 (bn @ k') = None"
    by blast
  from delete_head_is_tail [OF ht tk] obtain c2 b2 where del: "deleteLocal bn tk c1 = Ret (Inr ()) c2"
    and b2: "lruBuckets c2 bn = Some b2" "bMaxLen b2 = bMaxLen b" "bLen b2 = bMaxLen b - 1" "bHead b2 = Some n" "bTail b2 = Some t"
    and t2: "nprev (heapOf c2 t) = None" "nkey (heapOf c2 t) = tk" and kv2: "keyVal c2 = (keyVal c1)(bn @ tk := None)"
    and fr2: "freshAddr c2 = freshAddr c1" by blast
  have addrs: "t \<noteq> n" "t < freshAddr c2" "n < freshAddr c2" using ht fr2 by (auto simp: head_is_tail_def)
  have none2: "keyVal c2 (bn @ x) = None" using absent [OF new_x] kv2 by simp
  from insert_below [OF b2(1,4,5) _ t2(1) addrs none2, of now2 v2 ttl2] b2(2,3) t2(2)
  obtain c3 b3 where run3: "setLocal now2 bn x v2 ttl2 c2 = Ret (Inr ()) c3"
    and b3: "lruBuckets c3 bn = Some b3" "bMaxLen b3 = bMaxLen b" "bLen b3 = bMaxLen b" "bHead b3 = Some (freshAddr c2)" "bTail b3 = Some t"
    and t3: "nprev (heapOf c3 t) = None" "nkey (heapOf c3 t) = tk"
    and kv3: "keyVal c3 = (keyVal c2)(bn @ x \<mapsto> freshAddr c2)" and fr3: "freshAddr c3 = Suc (freshAddr c2)" by auto
  have x: "x \<noteq> tk" using new_x(2) by (auto simp: lookup_def)
  have none3: "keyVal c3 (bn @ tk) = None" using kv3 kv2 x by simp
  have addrs3: "t \<noteq> freshAddr c2" "t < freshAddr c3" "freshAddr c2 < freshAddr c3" using addrs fr3 by simp_all
  from insert_evicts [OF b3(1,4,5) _ t3(1) addrs3 none3, of now3 v3 ttl3] b3(2,3) t3(2)
  obtain c4 b4 where run4: "setLocal now3 bn tk v3 ttl3 c3 = Ret (Inr ()) c4"
    and b4: "lruBuckets c4 bn = Some b4" "bMaxLen b4 = bMaxLen b" "bLen b4 = bMaxLen b" "bHead b4 = Some (freshAddr c3)" "bTail b4 = None"
    and kv4: "keyVal c4 = (keyVal c3)(bn @ tk \<mapsto> freshAddr c3, bn @ tk := None)" by auto
  have gone: "keyVal c4 (bn @ tk) = None" using kv4 by simp
  have fresh4: "freshAddr c3 \<noteq> freshAddr c4" using setLocal_new_fresh [OF run4 none3] by simp
  have panic: "setLocal now4 bn y v4 ttl4 c4 = Panic"
    if y: "y \<noteq> x" "lookup y ((k, v, expiry now ttl) # es) = None" for y now4 v4 ttl4
  proof (rule insert_without_tail [OF b4(1,4) fresh4 b4(5)])
    show "bLen b4 = bMaxLen b4" using b4(2,3) by simp
    show "keyVal c4 (bn @ y) = None"
    proof (cases "y = tk")
      case True
      then show ?thesis using gone by simp
    next
      case False
      then have "y \<noteq> k" "lookup y (es @ [(tk, tv, tt)]) = None"
        using y(2) by (auto simp: lookup_def map_add_def split: option.splits if_splits)
      from absent [OF this] False y(1) show ?thesis using kv2 kv3 kv4 by simp
    qed
  qed
  have "getLocal bn tk c4 = Ret (Inl ERR_NOT_FOUND) c4" using gone by (simp add: getLocal_def keyVal_Get_def)
  with read del run3 run4 panic show ?thesis by blast
qed

section \<open>Witnesses\<close>

lemma full_demo_shape:
  "refines full_demo [''s'' \<mapsto> (2, [] @ [(''b'', AInt 2, None), (''a'', AInt 1, None)])]"
  using refines_full_demo by simp

lemma full_demo_evicts:
  obtains c' where "setLocal 9 ''s'' ''c'' (AInt 3) 0 full_demo = Ret (Inr ()) c'"
  using setLocal_full_returns [OF refines_full_demo, of "''s''" 2 "[(''b'', AInt 2, None)]"
      "''a''" "AInt 1" None "''c''" 9 "AInt 3" 0]
  by (auto simp: lookup_def)

theorem second_eviction_evicts_recent_witness:
  "\<exists>c' c1 c2 c3. setLocal 9 ''s'' ''c'' (AInt 3) 0 full_demo = Ret (Inr ()) c'
     \<and> getLocal ''s'' ''b'' c' = Ret (Inr (AInt 2)) c1 \<and> setLocal 10 ''s'' ''d'' (AInt 4) 0 c1 = Ret (Inr ()) c2
     \<and> getLocal ''s'' ''b'' c2 = Ret (Inl ERR_NOT_FOUND) c2 \<and> getLocal ''s'' ''c'' c2 = Ret (Inr (AInt 3)) c3"
proof -
  obtain c' where c': "setLocal 9 ''s'' ''c'' (AInt 3) 0 full_demo = Ret (Inr ()) c'" by (rule full_demo_evicts)
  from second_eviction_evicts_recent [OF full_demo_shape _ _ _ c', where ?k2.0 = "''d''" and ?now2.0 = 10 and ?v2.0 = "AInt 4"
      and ?ttl2.0 = 0 and es = "[]" and lk = "''a''" and tk = "''b''"]
  obtain c1 c2 where "getLocal ''s'' ''b'' c' = Ret (Inr (AInt 2)) c1" "setLocal 10 ''s'' ''d'' (AInt 4) 0 c1 = Ret (Inr ()) c2"
    "getLocal ''s'' ''b'' c2 = Ret (Inl ERR_NOT_FOUND) c2"
    and kept: "\<And>k' v' t'. k' \<noteq> ''b'' \<Longrightarrow> lookup k' [(''d'', AInt 4, expiry 10 0), (''c'', AInt 3, expiry 9 0)] = Some (v', t')
        \<Longrightarrow> \<exists>c3. getLocal ''s'' k' c2 = Ret (Inr v') c3"
    by (auto simp: lookup_def)
  with c' kept [of "''c''" "AInt 3" "expiry 9 0"] show ?thesis by (auto simp: lookup_def)
qed

theorem write_lost_after_eviction_witness:
  "\<exists>c' c1 c2 c3 c4. setLocal 9 ''s'' ''c'' (AInt 3) 0 full_demo = Ret (Inr ()) c'
     \<and> getLocal ''s'' ''b'' c' = Ret (Inr (AInt 2)) c1 \<and> deleteLocal ''s'' ''b'' c1 = Ret (Inr ()) c2
     \<and> setLocal 10 ''s'' ''x'' (AInt 4) 0 c2 = Ret (Inr ()) c3 \<and> setLocal 11 ''s'' ''b'' (AInt 5) 0 c3 = Ret (Inr ()) c4
     \<and> getLocal ''s'' ''b'' c4 = Ret (Inl ERR_NOT_FOUND) c4 \<and> setLocal 12 ''s'' ''b'' (AInt 6) 0 c4 = Panic"
proof -
  obtain c' where c': "setLocal 9 ''s'' ''c'' (AInt 3) 0 full_demo = Ret (Inr ()) c'" by (rule full_demo_evicts)
  from write_lost_after_eviction [OF full_demo_shape _ _ _ c', where x = "''x''" and ?now2.0 = 10 and ?v2.0 = "AInt 4"
      and ?ttl2.0 = 0 and ?now3.0 = 11 and ?v3.0 = "AInt 5" and ?ttl3.0 = 0 and es = "[]" and lk = "''a''" and tk = "''b''"]
  obtain c1 c2 c3 c4 where steps: "getLocal ''s'' ''b'' c' = Ret (Inr (AInt 2)) c1" "deleteLocal ''s'' ''b'' c1 = Ret (Inr ()) c2"
    "setLocal 10 ''s'' ''x'' (AInt 4) 0 c2 = Ret (Inr ()) c3" "setLocal 11 ''s'' ''b'' (AInt 5) 0 c3 = Ret (Inr ()) c4"
    "getLocal ''s'' ''b'' c4 = Ret (Inl ERR_NOT_FOUND) c4"
    and panic: "\<And>y now4 v4 ttl4. y \<noteq> ''x'' \<Longrightarrow> lookup y [(''c'', AInt 3, expiry 9 0)] = None
        \<Longrightarrow> setLocal now4 ''s'' y v4 ttl4 c4 = Panic"
    by (auto simp: lookup_def)
  from panic [of "''b''" 12 "AInt 6" 0] have "setLocal 12 ''s'' ''b'' (AInt 6) 0 c4 = Panic" by (simp add: lookup_def)
  with c' steps show ?thesis by blast
qed

end
