(* ===== verification/Accept.thy ===== *)
theory Accept
  imports Streams
begin

text \<open>
  Accepting connections and streams (\<open>listenQuic\<close> and \<open>handleQuicConn\<close> in
  \<open>internal/nodosum/conn.go\<close>), and two nodes with the connections between them: who dialled a
  connection decides in which direction streams are accepted.
\<close>

section \<open>The accept loops\<close>

text \<open>One turn of a loop: the check of the context, or the outcome of the blocking \<open>Accept\<close>.\<close>

datatype ('a, 'e) turn = ContextDone | Accepts 'a | AcceptFails 'e

datatype accept_error = AcceptCanceled | AcceptNetClosed | AcceptOther

text \<open>
  What has been accepted, in order, and whether the loop has returned. An error on which the
  loop does not return is logged, and the loop goes on at once.
\<close>

fun accept_loop :: "('e \<Rightarrow> bool) \<Rightarrow> ('a, 'e) turn list \<Rightarrow> 'a list \<times> bool" where
  "accept_loop stops [] = ([], False)"
| "accept_loop stops (ContextDone # ts) = ([], True)"
| "accept_loop stops (Accepts x # ts) = (let (xs, ended) = accept_loop stops ts in (x # xs, ended))"
| "accept_loop stops (AcceptFails e # ts) = (if stops e then ([], True) else accept_loop stops ts)"

text \<open>
  \<open>listenQuic\<close>: every connection gets a \<open>handleQuicConn\<close> of its own. When \<open>Listen\<close> fails, the error is
  only logged, and \<open>Accept\<close> on the \<open>nil\<close> listener panics (\<open>None\<close>).
\<close>

definition listenQuic :: "bool \<Rightarrow> (conn, accept_error) turn list \<Rightarrow> (conn list \<times> bool) option" where
  "listenQuic ok turns =
     (if \<not> ok then None
      else Some (accept_loop (\<lambda>e. e = AcceptCanceled \<or> e = AcceptNetClosed) turns))"

text \<open>The loop of \<open>handleQuicConn\<close>: every stream gets a \<open>handleStream\<close>.\<close>

definition serve_streams :: "(stream, read_error) turn list \<Rightarrow> stream list \<times> bool" where
  "serve_streams turns = accept_loop isQuicConnectionClosed turns"

text \<open>The whole handler: the streams it accepts, and the table when it has returned or still runs.\<close>

definition handleQuicConn_run ::
    "string list \<Rightarrow> conn option \<Rightarrow> (stream, read_error) turn list \<Rightarrow> nodosum \<Rightarrow> stream list \<times> nodosum" where
  "handleQuicConn_run certs conn turns n =
     (case conn of
        None \<Rightarrow> ([], n)
      | Some c \<Rightarrow>
          (case handleQuicConn certs c n of
             (None, n1) \<Rightarrow> ([], n1)
           | (Some (nodeID, shouldRegister), n1) \<Rightarrow>
               (case serve_streams turns of
                  (streams, ended) \<Rightarrow> (streams, if ended then handleQuicConn_exit nodeID c shouldRegister n1 else n1))))"

fun ends_loop :: "('e \<Rightarrow> bool) \<Rightarrow> ('a, 'e) turn \<Rightarrow> bool" where
  "ends_loop stops ContextDone = True"
| "ends_loop stops (Accepts x) = False"
| "ends_loop stops (AcceptFails e) = stops e"

fun accepted_in :: "('a, 'e) turn \<Rightarrow> 'a option" where
  "accepted_in (Accepts x) = Some x"
| "accepted_in t = None"

lemma accept_loop_result:
  "accept_loop stops ts =
     (List.map_filter accepted_in (takeWhile (\<lambda>t. \<not> ends_loop stops t) ts), \<exists>t \<in> set ts. ends_loop stops t)"
proof (induction stops ts rule: accept_loop.induct)
  case (3 stops x ts)
  then show ?case by (simp add: List.map_filter_simps)
next
  case (4 stops e ts)
  then show ?case by (simp add: List.map_filter_simps)
qed (simp_all add: List.map_filter_simps)

section \<open>Two nodes\<close>

text \<open>
  Two nodes, \<open>True\<close> and \<open>False\<close>, with the names \<open>ident\<close>. A dialled connection is in flight at the
  node that dialled it and arrives at the listener of the other one. \<open>serving\<close> are the accept
  loops that run (a node and its connection). A stream is opened by a node on the connection in its
  table; the other node accepts it if one of its loops serves the connection.
\<close>

record duplex =
  nodeOf :: "bool \<Rightarrow> nodosum"
  diallerOf :: "conn \<rightharpoonup> bool"
  dialled :: "(bool \<times> conn) set"
  arriving :: "(bool \<times> conn) set"
  serving :: "(bool \<times> conn) set"
  openedStreams :: "(bool \<times> conn \<times> stream) set"
  acceptedStreams :: "(bool \<times> conn \<times> stream) set"

definition member_of :: "(bool \<Rightarrow> string) \<Rightarrow> bool \<Rightarrow> memberNode" where
  "member_of ident x = \<lparr>mName = ident x, mMeta = [0, 0]\<rparr>"

definition put_node :: "bool \<Rightarrow> nodosum \<Rightarrow> duplex \<Rightarrow> duplex" where
  "put_node x n s = s\<lparr>nodeOf := (nodeOf s)(x := n)\<rparr>"

definition start_duplex :: "(bool \<Rightarrow> string) \<Rightarrow> duplex" where
  "start_duplex ident = \<lparr>nodeOf = (\<lambda>x. newNodosum (ident x) 0), diallerOf = Map.empty, dialled = {}, arriving = {},
     serving = {}, openedStreams = {}, acceptedStreams = {}\<rparr>"

inductive duplex_step :: "(bool \<Rightarrow> string) \<Rightarrow> duplex \<Rightarrow> duplex \<Rightarrow> bool" for ident where
  dial: "diallerOf s c = None \<Longrightarrow> quicConns (nodeOf s x) (ident (\<not> x)) = None \<Longrightarrow>
    duplex_step ident s (s\<lparr>diallerOf := (diallerOf s)(c \<mapsto> x), dialled := insert (x, c) (dialled s),
      arriving := insert (\<not> x, c) (arriving s)\<rparr>)"
| register: "(x, c) \<in> dialled s \<Longrightarrow>
    duplex_step ident s (put_node x (join_dialled (member_of ident (\<not> x)) c (nodeOf s x)) (s\<lparr>dialled := dialled s - {(x, c)}\<rparr>))"
| arrive: "(x, c) \<in> arriving s \<Longrightarrow> handleQuicConn [ident (\<not> x)] c (nodeOf s x) = (res, n') \<Longrightarrow>
    duplex_step ident s (put_node x n' (s\<lparr>arriving := arriving s - {(x, c)},
      serving := serving s \<union> (if res = None then {} else {(x, c)})\<rparr>))"
| ended: "(x, c) \<in> serving s \<Longrightarrow>
    duplex_step ident s (put_node x (handleQuicConn_exit (ident (\<not> x)) c reg (nodeOf s x)) (s\<lparr>serving := serving s - {(x, c)}\<rparr>))"
| leave: "duplex_step ident s (put_node x (NotifyLeave (member_of ident (\<not> x)) (nodeOf s x)) s)"
| open_stream: "quicConns (nodeOf s x) (ident (\<not> x)) = Some c \<Longrightarrow>
    duplex_step ident s (s\<lparr>openedStreams := insert (x, c, st) (openedStreams s)\<rparr>)"
| accept_stream: "(\<not> x, c, st) \<in> openedStreams s \<Longrightarrow> (x, c) \<in> serving s \<Longrightarrow>
    duplex_step ident s (s\<lparr>acceptedStreams := insert (\<not> x, c, st) (acceptedStreams s)\<rparr>)"

inductive duplex_reachable :: "(bool \<Rightarrow> string) \<Rightarrow> duplex \<Rightarrow> bool" for ident where
  start: "duplex_reachable ident (start_duplex ident)"
| step: "duplex_reachable ident s \<Longrightarrow> duplex_step ident s t \<Longrightarrow> duplex_reachable ident t"

text \<open>A loop serves a connection that the other node dialled, and accepts what that node opened.\<close>

definition duplex_ok :: "duplex \<Rightarrow> bool" where
  "duplex_ok s \<longleftrightarrow> (\<forall>x c. (x, c) \<in> arriving s \<union> serving s \<longrightarrow> diallerOf s c = Some (\<not> x))
     \<and> (\<forall>x c st. (x, c, st) \<in> acceptedStreams s \<longrightarrow> diallerOf s c = Some x \<and> (x, c, st) \<in> openedStreams s)"

lemma put_node_simps [simp]:
  "diallerOf (put_node x n s) = diallerOf s" "arriving (put_node x n s) = arriving s"
  "serving (put_node x n s) = serving s" "openedStreams (put_node x n s) = openedStreams s"
  "acceptedStreams (put_node x n s) = acceptedStreams s" "dialled (put_node x n s) = dialled s"
  "nodeOf (put_node x n s) = (nodeOf s)(x := n)"
  by (simp_all add: put_node_def)

lemma duplex_step_dialler:
  "duplex_step ident s t \<Longrightarrow> diallerOf s c = Some x \<Longrightarrow> diallerOf t c = Some x"
  by (induction rule: duplex_step.induct) auto

lemma duplex_step_ok: "duplex_step ident s t \<Longrightarrow> duplex_ok s \<Longrightarrow> duplex_ok t"
proof (induction rule: duplex_step.induct)
  case (dial s c x)
  then have "c \<noteq> c'" if "diallerOf s c' = Some y" for c' y using that by auto
  with dial show ?case unfolding duplex_ok_def by (auto; metis)
next
  case (accept_stream x c st s)
  then have "diallerOf s c = Some (\<not> x)" by (simp add: duplex_ok_def)
  with accept_stream show ?case by (simp add: duplex_ok_def)
qed (auto simp: duplex_ok_def split: if_split_asm)

lemma duplex_reachable_ok: "duplex_reachable ident s \<Longrightarrow> duplex_ok s"
proof (induction rule: duplex_reachable.induct)
  case start
  show ?case by (simp add: duplex_ok_def start_duplex_def)
next
  case (step s t)
  then show ?case using duplex_step_ok by blast
qed

lemma duplex_steps:
  assumes "(duplex_step ident)\<^sup>*\<^sup>* s t" and "duplex_reachable ident s"
  shows "duplex_reachable ident t \<and> (diallerOf s c = Some x \<longrightarrow> diallerOf t c = Some x)"
  using assms(1)
proof (induction rule: rtranclp_induct)
  case base
  then show ?case using assms(2) by simp
next
  case (step u t)
  then show ?case using duplex_reachable.step duplex_step_dialler by blast
qed

text \<open>Only one node dials, and its connection arrives at the other one first.\<close>

lemma one_way_reachable:
  assumes "ident True \<noteq> ident False" and "ident True \<noteq> ''''"
  shows "\<exists>s. duplex_reachable ident s \<and> dialled s = {} \<and> arriving s = {} \<and> serving s = {(False, c)}
    \<and> diallerOf s c = Some True \<and> quicConns (nodeOf s True) (ident False) = Some c
    \<and> quicConns (nodeOf s False) (ident True) = Some c"
proof -
  let ?s0 = "start_duplex ident"
  let ?s1 = "?s0\<lparr>diallerOf := (diallerOf ?s0)(c \<mapsto> True), dialled := insert (True, c) (dialled ?s0),
      arriving := insert (\<not> True, c) (arriving ?s0)\<rparr>"
  let ?s2 = "put_node True (join_dialled (member_of ident (\<not> True)) c (nodeOf ?s1 True))
      (?s1\<lparr>dialled := dialled ?s1 - {(True, c)}\<rparr>)"
  let ?n' = "(newNodosum (ident False) 0)\<lparr>quicConns := [ident True \<mapsto> c]\<rparr>"
  let ?s3 = "put_node False ?n' (?s2\<lparr>arriving := arriving ?s2 - {(False, c)},
      serving := serving ?s2 \<union> (if Some (ident True, True) = None then {} else {(False, c)})\<rparr>)"
  have 1: "duplex_step ident ?s0 ?s1"
    by (rule duplex_step.dial) (simp_all add: start_duplex_def newNodosum_def)
  have 2: "duplex_step ident ?s1 ?s2" by (rule duplex_step.register) simp
  have "handleQuicConn [ident (\<not> False)] c (nodeOf ?s2 False) = (Some (ident True, True), ?n')"
    using assms by (simp add: handleQuicConn_def start_duplex_def newNodosum_def)
  then have 3: "duplex_step ident ?s2 ?s3"
    by (intro duplex_step.arrive) (simp_all add: start_duplex_def)
  have "duplex_reachable ident ?s3"
    using duplex_reachable.start [of ident] 1 2 3 by (meson duplex_reachable.step)
  then show ?thesis
    by (intro exI [of _ ?s3])
      (simp add: start_duplex_def newNodosum_def join_dialled_def member_of_def callHook_def clearAttempts_def)
qed

text \<open>
  C17: Streams go one way. A connection is only served at the node whose listener accepted it, so a
  stream is accepted only if the node that opened it dialled the connection. Two nodes can come to
  a state in which both hold the same connection as theirs and neither will dial again, and from then
  on no stream the listening node opens on it is ever accepted, whatever happens.
\<close>

theorem incoming_connection_is_one_way:
  "(duplex_reachable ident s \<longrightarrow> (x, c, st) \<in> acceptedStreams s \<longrightarrow> diallerOf s c = Some x)
   \<and> (ident True \<noteq> ident False \<and> ident True \<noteq> '''' \<longrightarrow>
      (\<exists>s c. duplex_reachable ident s \<and> dialled s = {} \<and> arriving s = {}
        \<and> quicConns (nodeOf s True) (ident False) = Some c \<and> quicConns (nodeOf s False) (ident True) = Some c
        \<and> (\<forall>t st. (duplex_step ident)\<^sup>*\<^sup>* s t \<longrightarrow> (False, c, st) \<notin> acceptedStreams t)))"
proof (intro conjI impI)
  assume "duplex_reachable ident s" "(x, c, st) \<in> acceptedStreams s"
  then show "diallerOf s c = Some x" using duplex_reachable_ok unfolding duplex_ok_def by blast
next
  assume "ident True \<noteq> ident False \<and> ident True \<noteq> ''''"
  then obtain s where s: "duplex_reachable ident s" "dialled s = {}" "arriving s = {}" "diallerOf s c = Some True"
    "quicConns (nodeOf s True) (ident False) = Some c" "quicConns (nodeOf s False) (ident True) = Some c"
    using one_way_reachable [of ident c] by auto
  have "(False, c, st) \<notin> acceptedStreams t" if "(duplex_step ident)\<^sup>*\<^sup>* s t" for t st
  proof -
    have "duplex_ok t" "diallerOf t c = Some True" using duplex_steps [OF that s(1)] s(4) duplex_reachable_ok by blast+
    then show ?thesis unfolding duplex_ok_def by (metis option.inject)
  qed
  with s show "\<exists>s c. duplex_reachable ident s \<and> dialled s = {} \<and> arriving s = {}
        \<and> quicConns (nodeOf s True) (ident False) = Some c \<and> quicConns (nodeOf s False) (ident True) = Some c
        \<and> (\<forall>t st. (duplex_step ident)\<^sup>*\<^sup>* s t \<longrightarrow> (False, c, st) \<notin> acceptedStreams t)"
    by blast
qed

definition demo_ident :: "bool \<Rightarrow> string" where
  "demo_ident x = (if x then ''a'' else ''b'')"

theorem incoming_connection_is_one_way_witness:
  "\<exists>s c. duplex_reachable demo_ident s \<and> quicConns (nodeOf s False) ''a'' = Some c
    \<and> (\<forall>t st. (duplex_step demo_ident)\<^sup>*\<^sup>* s t \<longrightarrow> (False, c, st) \<notin> acceptedStreams t)"
proof -
  have "demo_ident True = ''a''" "demo_ident False = ''b''" by (simp_all add: demo_ident_def)
  note id = this
  have "demo_ident True \<noteq> demo_ident False \<and> demo_ident True \<noteq> ''''" by (simp add: id)
  from incoming_connection_is_one_way [where ident = demo_ident and s = "start_duplex demo_ident" and x = True
      and c = 0 and st = 0, THEN conjunct2, THEN mp, OF this]
  show ?thesis unfolding id by blast
qed

text \<open>
  The accept loops take exactly what is accepted before the first turn that ends them.
  A listener that could not be opened panics.
\<close>

lemma listenQuic_accepts:
  "listenQuic ok turns = (if ok then Some (List.map_filter accepted_in
       (takeWhile (\<lambda>t. \<not> ends_loop (\<lambda>e. e = AcceptCanceled \<or> e = AcceptNetClosed) t) turns),
       \<exists>t \<in> set turns. ends_loop (\<lambda>e. e = AcceptCanceled \<or> e = AcceptNetClosed) t) else None)"
  by (simp add: listenQuic_def accept_loop_result)

lemma handleQuicConn_run_registers:
  assumes "certs = nid # rest" and "nid \<noteq> ''''" and "nid \<noteq> nsId n" and "quicConns n nid = None"
    and "handleQuicConn_run certs (Some c) turns n = (streams, n')"
  shows "streams = List.map_filter accepted_in (takeWhile (\<lambda>t. \<not> ends_loop isQuicConnectionClosed t) turns)"
    and "quicConns n' nid = (if \<exists>t \<in> set turns. ends_loop isQuicConnectionClosed t then None else Some c)"
  using assms by (auto simp: handleQuicConn_run_def handleQuicConn_def serve_streams_def accept_loop_result
      handleQuicConn_exit_def)

end
