(* ===== verification/Pulse.thy ===== *)
theory Pulse
  imports Go_Prelude
begin

text \<open>
  The command line tool (\<open>cmd/pulse.go\<close>): the handshake and the loop over the lines of the standard
  input. The functions \<open>nodosum.pack\<close> and \<open>nodosum.unpack\<close> and the command codes it calls are not
  in the repository; they are parameters. What \<open>Read\<close> returns is a parameter as well.
\<close>

section \<open>Commands and packets\<close>

datatype command = HELLO | EXIT | ID | SET_VALUE | GET_VALUE

record packet =
  packCommand :: command
  packData :: "byte list"

record wire =
  pack :: "command \<Rightarrow> byte list \<Rightarrow> string \<Rightarrow> byte list option"
  unpack :: "byte list \<Rightarrow> packet option"

text \<open>
  The connection: the results of the reads and of the writes to come (\<open>None\<close> or \<open>False\<close>: an error; also when the list
  is used up), what has been written, and the output.
\<close>

record session =
  readsLeft :: "byte list option list"
  writesLeft :: "bool list"
  written :: "byte list list"
  printed :: "byte list list"
  connOpen :: bool

text \<open>How the program ends: it returns, \<open>log.Fatal\<close> ends it, or an index out of range.\<close>

datatype cli_end = Returns | FatalExit | IndexPanic

section \<open>The steps of a command\<close>

definition conn_read :: "session \<Rightarrow> (byte list \<times> session) option" where
  "conn_read s = (case readsLeft s of Some bs # rs \<Rightarrow> Some (bs, s\<lparr>readsLeft := rs\<rparr>) | _ \<Rightarrow> None)"

definition conn_write :: "byte list \<Rightarrow> session \<Rightarrow> session option" where
  "conn_write p s = (case writesLeft s of True # ws \<Rightarrow> Some (s\<lparr>writesLeft := ws, written := written s @ [p]\<rparr>) | _ \<Rightarrow> None)"

text \<open>\<open>strings.Split(s, " ")\<close>: never empty.\<close>

fun split_words :: "string \<Rightarrow> string list" where
  "split_words [] = [[]]"
| "split_words (c # s) =
     (if c = CHR '' '' then [] # split_words s
      else (case split_words s of w # ws \<Rightarrow> (c # w) # ws | [] \<Rightarrow> [[c]]))"

definition token_of :: "string list \<Rightarrow> string" where
  "token_of args = (if 1 < length args then args ! 1 else '''')"

text \<open>\<open>id\<close>, \<open>set\<close> and \<open>get\<close>: send a packet, print the data of the answer. \<open>None\<close> is \<open>log.Fatal\<close>.\<close>

definition round_trip :: "wire \<Rightarrow> command \<Rightarrow> byte list \<Rightarrow> string \<Rightarrow> session \<Rightarrow> session option" where
  "round_trip w cmd payload tok s =
     (case pack w cmd payload tok of
        None \<Rightarrow> None
      | Some p \<Rightarrow>
          (case conn_write p s of
             None \<Rightarrow> None
           | Some s1 \<Rightarrow>
               (case conn_read s1 of
                  None \<Rightarrow> None
                | Some (buff, s2) \<Rightarrow>
                    (case unpack w buff of
                       None \<Rightarrow> None
                     | Some pk \<Rightarrow> Some (s2\<lparr>printed := printed s2 @ [packData pk]\<rparr>)))))"

text \<open>One line: the program goes on (\<open>Inl\<close>), or it ends.\<close>

definition pulse_line :: "wire \<Rightarrow> string \<Rightarrow> session \<Rightarrow> session + (cli_end \<times> session)" where
  "pulse_line w line s =
     (let args = split_words line;
          tok = token_of args;
          send = (\<lambda>cmd payload. case round_trip w cmd payload tok s of None \<Rightarrow> Inr (FatalExit, s) | Some s' \<Rightarrow> Inl s') in
      if args ! 0 = ''exit'' then
        (case pack w EXIT [] tok of
           None \<Rightarrow> Inr (FatalExit, s)
         | Some p \<Rightarrow> (case conn_write p s of
               None \<Rightarrow> Inr (FatalExit, s)
             | Some s1 \<Rightarrow> if connOpen s1 then Inr (Returns, s1\<lparr>connOpen := False\<rparr>) else Inr (FatalExit, s1)))
      else if args ! 0 = ''id'' then send ID []
      else if args ! 0 = ''set'' then (if length args \<le> 2 then Inr (IndexPanic, s) else send SET_VALUE (bytes_of (args ! 2)))
      else if args ! 0 = ''get'' then (if length args \<le> 2 then Inr (IndexPanic, s) else send GET_VALUE (bytes_of (args ! 2)))
      else Inl s)"

text \<open>
  The loop over the input. At its end \<open>Scan\<close> returns false for ever and the outer loop, whose context
  is alive, calls it again and again: the program does not end (\<open>None\<close>).
\<close>

fun pulse_loop :: "wire \<Rightarrow> string list \<Rightarrow> session \<Rightarrow> (cli_end \<times> session) option" where
  "pulse_loop w [] s = None"
| "pulse_loop w (line # lines) s =
     (case pulse_line w line s of Inl s' \<Rightarrow> pulse_loop w lines s' | Inr e \<Rightarrow> Some e)"

text \<open>The first packet is parsed out of the whole buffer of 4096 bytes, not only the bytes read.\<close>

definition whole_buffer :: "byte list \<Rightarrow> byte list" where
  "whole_buffer bs = bs @ replicate (4096 - length bs) 0"

text \<open>\<open>main\<close>: \<open>connected\<close> tells if the certificates could be read and the TLS handshake succeeded.\<close>

definition pulse_main :: "wire \<Rightarrow> bool \<Rightarrow> string list \<Rightarrow> session \<Rightarrow> (cli_end \<times> session) option" where
  "pulse_main w connected lines s =
     (if \<not> connected then Some (FatalExit, s)
      else case conn_read s of
        None \<Rightarrow> Some (FatalExit, s)
      | Some (buff, s1) \<Rightarrow>
          (case unpack w (whole_buffer buff) of
             None \<Rightarrow> Some (FatalExit, s1)
           | Some pk \<Rightarrow>
               if packCommand pk \<noteq> HELLO then Some (FatalExit, s1)
               else (case pack w HELLO (bytes_of ''CLI-'' @ packData pk) '''' of
                   None \<Rightarrow> Some (FatalExit, s1)
                 | Some p \<Rightarrow> (case conn_write p s1 of None \<Rightarrow> Some (FatalExit, s1) | Some s2 \<Rightarrow> pulse_loop w lines s2))))"

section \<open>Properties\<close>

lemma split_words_nonempty [simp]: "split_words s \<noteq> []"
  by (cases s) (auto split: list.split)

text \<open>Joining the words with spaces gives the line back.\<close>

fun join_words :: "string list \<Rightarrow> string" where
  "join_words [] = []"
| "join_words [w] = w"
| "join_words (w # ws) = w @ CHR '' '' # join_words ws"

lemma join_split: "join_words (split_words s) = s"
proof (induction s)
  case (Cons c s)
  obtain w ws where s: "split_words s = w # ws" by (cases "split_words s") auto
  show ?case
  proof (cases "c = CHR '' ''")
    case True
    with Cons s show ?thesis by simp
  next
    case False
    with Cons s show ?thesis by (cases ws) simp_all
  qed
qed simp

lemma words_have_no_space: "w \<in> set (split_words s) \<Longrightarrow> CHR '' '' \<notin> set w"
  by (induction s arbitrary: w) (auto split: list.split_asm if_split_asm)

text \<open>
  The tool returns only on an \<open>exit\<close> line. If it returns, the first word of some line is
  \<open>exit\<close>, the connection is closed, and every line before it was handled; with no such line
  it never returns: it ends with an error, by a panic on a \<open>set\<close> or \<open>get\<close> with fewer than two
  arguments, or runs for ever at the end of the input.
\<close>

lemma pulse_line_returns:
  "pulse_line w line s = Inr (Returns, s') \<Longrightarrow> split_words line ! 0 = ''exit'' \<and> \<not> connOpen s'"
  by (auto simp: pulse_line_def Let_def split: if_split_asm option.split_asm)

lemma pulse_returns_on_exit:
  "pulse_main w connected lines s = Some (Returns, s') \<Longrightarrow>
     (\<exists>line \<in> set lines. split_words line ! 0 = ''exit'') \<and> \<not> connOpen s'"
proof -
  have loop: "pulse_loop w lines s = Some (Returns, s') \<Longrightarrow>
     (\<exists>line \<in> set lines. split_words line ! 0 = ''exit'') \<and> \<not> connOpen s'" for s
    by (induction w lines s rule: pulse_loop.induct) (auto split: sum.split_asm dest: pulse_line_returns)
  show "pulse_main w connected lines s = Some (Returns, s') \<Longrightarrow> ?thesis"
    using loop by (auto simp: pulse_main_def split: if_split_asm option.split_asm prod.split_asm)
qed

lemma pulse_short_set_panics:
  assumes "split_words line = ''set'' # args" and "length args \<le> 1"
  shows "pulse_line w line s = Inr (IndexPanic, s)"
  using assms by (simp add: pulse_line_def Let_def)

end
