(* ===== verification/Spec2Isabelle.thy ===== *)
theory Spec2Isabelle
  imports Frames Read_Write Convergence Rpc Lifecycle Linearization Table_Lock Eviction Accept Pulse
begin

text \<open>
  Mycorrhizal: an embedded, distributed LRU cache
  ===============================================

  The program (Go, module \<open>conamu/mycorrhizal\<close>) is a library that joins application processes
  to a cluster. \<open>internal/nodosum\<close> keeps the connections between the nodes and moves framed
  messages over QUIC streams; \<open>internal/mycel\<close> is a cache on top of it: every node has buckets
  with a recency list and expiry times, every key lives on \<open>N\<close> nodes chosen by rendezvous
  hashing, writes go to all of them and need a majority, reads go to the own store and then to
  the primary.

  Theories, from the bottom up:

  \<^item> \<open>Go_Prelude\<close>: bytes, strings, big-endian integers, decimal printing, instants; the generic
    notion of a run of a component and the locale \<open>simulation\<close> that lifts a simulation of
    single calls to histories.

  \<^item> \<open>Frames\<close> (\<open>nodosum/quic.go\<close>): encoders, slice decoders and stream readers of the frames.
    The locale \<open>frame_codec\<close> states what a codec owes a stream; it is interpreted for the
    messages and for the initial frame. The properties: a sequence of frames is read back
    whatever its messages are, what is accepted is an encoding, a cut frame is an error.

  \<^item> \<open>Cache_Types\<close> (\<open>mycel/ds.go\<close>): values, nodes in a heap of addresses, buckets, the cache of a
    node, errors, and how a call ends (\<open>Ret\<close>, \<open>Panic\<close>, \<open>Hang\<close>).

  \<^item> \<open>Lru_List\<close> (\<open>ds.go\<close>: \<open>Push\<close>, \<open>Delete\<close>): pointer operations, the predicate \<open>lru_list\<close> for a
    doubly linked segment with head, tail and length, and the proof that the operations are
    "move to front", "insert in front" and "remove" on it. The walk of \<open>Delete\<close> is a
    \<open>partial_function\<close>: it may not end on a cyclic list, and is proved to end on a list.

  \<^item> \<open>Local_Cache\<close> (\<open>mycel/local.go\<close>): the operations of one node; the invariant \<open>cache_ok\<close>
    (lists well formed and disjoint, \<open>keyVal\<close> their exact index, lengths and the size
    instrument right), the abstract store, the refinement over histories without evictions and
    colliding names, the first eviction of a bucket, and the list it leaves. \<open>Eviction\<close>: what
    becomes of the bucket from then on: wrong evictions, lost writes, a panic. \<open>Local_Steps\<close>: the same operations as sequences of critical sections of
    goroutines; alone they are the atomic operations (\<open>solo_is_operation\<close>), interleaved they keep the
    lists proper but not the index. \<open>Linearization\<close>: interleaved operations that insert and delete
    no key keep the index too, and their values are those of a sequential execution. \<open>Table_Lock\<close> (\<open>ds.go\<close>, \<open>task.go\<close>): who holds the mutex of the
    bucket table for how long, and the deadlock of the expiry worker.

  \<^item> \<open>Routing\<close> (\<open>ds.go\<close>, \<open>cache.go\<close>): scores, ranks, replica sets and the two routing caches;
    the race that leaves a stale primary.

  \<^item> \<open>Metrics\<close> (\<open>mycel/otel.go\<close>): counters and histograms; \<open>Instruments\<close>: the creation of the instruments. \<open>Remote\<close> (\<open>encoding.go\<close>, \<open>task.go\<close>, \<open>remote.go\<close>,
    \<open>application.go\<close>): payloads, the request handler, requests over links that fail.

  \<^item> \<open>Replication\<close> (\<open>cache.go\<close>): the fan-outs and the interface \<open>Get\<close>, \<open>Set\<close>, \<open>Delete\<close>
    (\<open>CacheDelete\<close>), \<open>SetTtl\<close> on a cluster. The locale \<open>node_calls\<close> (a goroutine reads and
    writes its own node only) carries the proof that the outcome of a fan-out does not depend
    on the schedule; it is interpreted for the three fan-outs. \<open>Consistency\<close>: what \<open>Delete\<close> and
    \<open>Get\<close> promise on top of it; \<open>Read_Write\<close>: which reads anywhere in the cluster see a write.

  \<^item> \<open>Geo_Index\<close> (\<open>mycel/geo.go\<close>, \<open>geo_local.go\<close>): stores with an index tier per precision, writing
    and deleting a location; the invariant \<open>geo_ok\<close> (each tier maps exactly the non-empty cells to
    the users in them). \<open>Geo_Query\<close>: the flood fill over geohash cells (a \<open>partial_function\<close>, proved
    to end on a finite grid), box and radius queries, the distance. \<open>Geo_Replication\<close>
    (\<open>geo_remote.go\<close>, \<open>flush.go\<close>): payloads, the sender, the receiver, the flush worker, the states
    a node can reach, when a broadcast makes nodes agree and when it does not.

  \<^item> \<open>Maintenance\<close> (\<open>mycel/task.go\<close>, \<open>rebalancer.go\<close>): one cycle of the expiry worker and one of the
    rebalancer on a cluster: what they leave at the node that runs them and at the others, over
    the abstract stores of \<open>Local_Cache\<close>; what they do with a node that an eviction left behind.
    \<open>Convergence\<close>: a round of rebalancer cycles over all nodes.

  \<^item> \<open>Nodosum\<close> (\<open>nodosum/memberlist.go\<close>, \<open>conn.go\<close>, \<open>nodosum.go\<close>): the connection table of a node,
    the membership events, dials and their retries, incoming connections. The step relation
    \<open>net_step\<close> interleaves the critical sections; \<open>net_ok\<close> is its invariant. \<open>Topology\<close>
    (\<open>mycel/mycel.go\<close>): the hook by which the table drives the routing caches and the
    rebalancer, with the two layers in one step relation (every step of \<open>net_step\<close>, hook calls in
    two sections, look-ups that rank first and store later): when routing recovers after a change,
    and how it can stay wrong.

  \<^item> \<open>Streams\<close> (\<open>nodosum/registry.go\<close>, \<open>conn.go\<close>, \<open>application.go\<close>): a node with its streams,
    read loops and applications; the two mutexes that the code can leave locked are part of the
    state, and an operation that would wait for one of them blocks. \<open>Stream_Locks\<close>: what a lost
    unlock does to a node, whatever happens next (\<open>peer_step\<close>). \<open>Sending\<close>: \<open>Send\<close> over a node
    whose mutexes are free. \<open>Rpc\<close>: the receive queue, correlation of responses, and a request
    through both nodes, which refines the \<open>Request\<close> of \<open>Remote\<close> that the cache is built on.
    \<open>Accept\<close> (\<open>conn.go\<close>): the accept loops, and two nodes with the connections between them.

  \<^item> \<open>Lifecycle\<close> (\<open>mycorrhizal.go\<close>, \<open>config.go\<close>, \<open>New\<close>, \<open>Start\<close> and \<open>Ready\<close> of both layers): the
    checks of the configuration, what \<open>New\<close> opens, builds and leaves behind, that the node it
    returns satisfies the invariants of the other theories, and the calls of \<open>Start\<close> and
    \<open>Shutdown\<close> in any order. \<open>Pulse\<close> (\<open>cmd/pulse.go\<close>): the command line tool.

  Parameters: the geohash library (\<open>encode\<close>, \<open>BoundingBox\<close>, \<open>Neighbors\<close>), the iteration order of maps,
  the hash function (\<open>xxhash\<close>) and the codec (\<open>encoding/gob\<close>, with \<open>gob_laws\<close>) are
  arguments; coordinates are real numbers instead of \<open>float64\<close>; the peers a node sees, the clocks, the state of the links and the schedule are in
  the environment of a call.

  Buckets that have evicted: \<open>setLocal\<close> leaves the next pointer of the new tail on the evicted node.
  The abstract stores (\<open>refines\<close>) describe caches none of whose buckets has evicted and whose
  bucket names do not collide; the theorems over them (the refinement of the local store, reads
  and writes on the cluster, the workers, \<open>Delete\<close>) say so in their text (\<open>intact\<close> nodes), and \<open>Eviction\<close>,
  \<open>Local_Cache\<close> and \<open>Maintenance\<close> show what goes wrong outside. The requests of \<open>Remote\<close> assume free
  mutexes; \<open>Stream_Locks\<close> shows how the code leaves them locked, after which they block.

  Not modelled: logging, the values of durations in the histograms, TLS, memberlist and QUIC themselves, and the
  mutexes other than those of \<open>Streams\<close>, \<open>Local_Steps\<close> and \<open>Table_Lock\<close>: elsewhere interleavings
  are modelled where the code gives up a lock between two steps. Evictions in \<open>Local_Steps\<close> only
  occur in goroutines that run alone. Time is an integer number of nanoseconds; Go's \<open>int\<close> is
  unbounded except where the wire format truncates it. A request handled after its timeout is not
  modelled, and the clock of a node does not advance during a cycle of a worker.
\<close>

end
